(* ===== verification/Regex.thy ===== *)
theory Regex
  imports Prelude
begin

text \<open>
  The part of \<open>std::regex\<close> (ECMAScript grammar) that \<open>base/Uri.cpp\<close> uses: character
  classes, greedy \<open>*\<close> and \<open>+\<close> on a class, sequence, greedy \<open>?\<close> and capture groups, and
  \<open>std::regex_match\<close>, which requires the whole string to match (so the anchors \<open>^\<close> and
  \<open>$\<close> at the two ends of a pattern say nothing new). \<open>matches\<close> lists the alternatives in
  the order a backtracking matcher tries them; \<open>derives\<close> is the declarative meaning, and the
  two are proved to agree.
\<close>

section \<open>Patterns and the backtracking matcher\<close>

datatype cls =
    Lit char
  | Range char char
  | NotIn "char list"
  | Dot

fun cls_ok :: "cls \<Rightarrow> char \<Rightarrow> bool" where
  "cls_ok (Lit d) c = (c = d)"
| "cls_ok (Range a b) c =
     ((of_char a :: nat) \<le> of_char c \<and> (of_char c :: nat) \<le> of_char b)"
| "cls_ok (NotIn ds) c = (c \<notin> set ds)"
| "cls_ok Dot c = (c \<noteq> CHR 0x0A \<and> c \<noteq> CHR 0x0D)"

datatype regex =
    Cls cls
  | Many cls
  | Seq regex regex
  | Opt regex
  | Group nat regex

type_synonym captures = "nat \<rightharpoonup> string"

definition Many1 :: "cls \<Rightarrow> regex" where
  "Many1 c = Seq (Cls c) (Many c)"

fun lits :: "char \<Rightarrow> string \<Rightarrow> regex" where
  "lits c [] = Cls (Lit c)"
| "lits c (d # ds) = Seq (Cls (Lit c)) (lits d ds)"

text \<open>The greedy repetition of a class offers the longest run first.\<close>

fun many :: "cls \<Rightarrow> string \<Rightarrow> string list" where
  "many c [] = [[]]"
| "many c (x # xs) = (if cls_ok c x then many c xs else []) @ [x # xs]"

fun matches :: "regex \<Rightarrow> captures \<times> string \<Rightarrow> (captures \<times> string) list" where
  "matches (Cls c) (m, s) =
     (case s of [] \<Rightarrow> [] | x # xs \<Rightarrow> if cls_ok c x then [(m, xs)] else [])"
| "matches (Many c) (m, s) = map (Pair m) (many c s)"
| "matches (Seq a b) st = concat (map (matches b) (matches a st))"
| "matches (Opt a) st = matches a st @ [st]"
| "matches (Group n a) (m, s) =
     map (\<lambda>(m', t). (m'(n \<mapsto> take (length s - length t) s), t)) (matches a (m, s))"

definition regex_match :: "regex \<Rightarrow> string \<Rightarrow> captures option" where
  "regex_match r s =
     map_option fst (find (\<lambda>(m, t). t = []) (matches r (Map.empty, s)))"

text \<open>\<open>smatch[i].str()\<close>: the empty string for a group that took no part in the match.\<close>

definition sub_match :: "captures \<Rightarrow> nat \<Rightarrow> string" where
  "sub_match m i = (case m i of None \<Rightarrow> [] | Some t \<Rightarrow> t)"

section \<open>Declarative meaning\<close>

text \<open>\<open>derives r m p m'\<close>: the pattern can consume exactly \<open>p\<close>, taking captures \<open>m\<close> to \<open>m'\<close>.\<close>

fun derives :: "regex \<Rightarrow> captures \<Rightarrow> string \<Rightarrow> captures \<Rightarrow> bool" where
  "derives (Cls c) m p m' \<longleftrightarrow> (\<exists>x. p = [x] \<and> cls_ok c x) \<and> m' = m"
| "derives (Many c) m p m' \<longleftrightarrow> list_all (cls_ok c) p \<and> m' = m"
| "derives (Seq a b) m p m' \<longleftrightarrow>
     (\<exists>p1 p2 m1. p = p1 @ p2 \<and> derives a m p1 m1 \<and> derives b m1 p2 m')"
| "derives (Opt a) m p m' \<longleftrightarrow> derives a m p m' \<or> p = [] \<and> m' = m"
| "derives (Group n a) m p m' \<longleftrightarrow> (\<exists>m1. derives a m p m1 \<and> m' = m1(n \<mapsto> p))"

lemma set_many: "t \<in> set (many c s) \<longleftrightarrow> (\<exists>p. s = p @ t \<and> list_all (cls_ok c) p)"
proof (induction s)
  case Nil
  then show ?case by auto
next
  case (Cons x xs)
  show ?case (is "?l = ?r")
  proof
    assume ?l
    then consider "t = x # xs" | "cls_ok c x" "t \<in> set (many c xs)"
      by (auto split: if_splits)
    then show ?r
    proof cases
      case 1
      then show ?thesis by (intro exI [of _ "[]"]) simp
    next
      case 2
      with Cons.IH obtain p where "xs = p @ t" "list_all (cls_ok c) p" by blast
      with 2 show ?thesis by (intro exI [of _ "x # p"]) simp
    qed
  next
    assume ?r
    then obtain p where p: "x # xs = p @ t" "list_all (cls_ok c) p" by blast
    then show ?l using Cons.IH by (cases p) auto
  qed
qed

lemma matches_iff_derives:
  "(m', t) \<in> set (matches r (m, s)) \<longleftrightarrow> (\<exists>p. s = p @ t \<and> derives r m p m')"
proof (induction r arbitrary: m s m' t)
  case (Cls c)
  then show ?case by (auto split: list.splits)
next
  case (Many c)
  then show ?case by (auto simp: set_many)
next
  case (Seq a b)
  show ?case (is "?l = ?r")
  proof
    assume ?l
    then obtain m1 u where "(m1, u) \<in> set (matches a (m, s))" "(m', t) \<in> set (matches b (m1, u))"
      by auto
    with Seq.IH show ?r by fastforce
  next
    assume ?r
    then obtain p1 p2 m1 where p: "s = p1 @ p2 @ t" "derives a m p1 m1" "derives b m1 p2 m'"
      by auto
    from p(1,2) have "(m1, p2 @ t) \<in> set (matches a (m, s))" by (auto simp: Seq.IH)
    moreover from p(3) have "(m', t) \<in> set (matches b (m1, p2 @ t))" by (auto simp: Seq.IH)
    ultimately show ?l by auto
  qed
next
  case (Opt a)
  then show ?case by auto
next
  case (Group n a)
  show ?case (is "?l = ?r")
  proof
    assume ?l
    then obtain m1 where m1: "(m1, t) \<in> set (matches a (m, s))"
      "m' = m1(n \<mapsto> take (length s - length t) s)" by auto
    with Group.IH obtain p where "s = p @ t" "derives a m p m1" by blast
    with m1 show ?r by (auto simp del: fun_upd_apply)
  next
    assume ?r
    then obtain p m1 where p: "s = p @ t" "derives a m p m1" "m' = m1(n \<mapsto> p)" by auto
    with Group.IH have "(m1, t) \<in> set (matches a (m, s))" by blast
    then have "(m1(n \<mapsto> take (length s - length t) s), t) \<in> set (matches (Group n a) (m, s))"
      by (simp only: matches.simps set_map) (rule image_eqI, auto)
    with p show ?l by (simp del: fun_upd_apply matches.simps)
  qed
qed

lemma regex_match_SomeD: "regex_match r s = Some m \<Longrightarrow> derives r Map.empty s m"
  by (auto simp: regex_match_def matches_iff_derives dest!: find_SomeD)

lemma regex_match_None_iff: "regex_match r s = None \<longleftrightarrow> (\<nexists>m. derives r Map.empty s m)"
  by (force simp: regex_match_def find_None matches_iff_derives)

lemma regex_match_unique:
  assumes "derives r Map.empty s m" and "\<And>m'. derives r Map.empty s m' \<Longrightarrow> m' = m"
  shows "regex_match r s = Some m"
proof (cases "regex_match r s")
  case None
  with assms(1) show ?thesis by (simp add: regex_match_None_iff)
next
  case (Some m')
  then show ?thesis using assms(2) by (auto dest: regex_match_SomeD)
qed

lemma derives_Many1:
  "derives (Many1 c) m p m' \<longleftrightarrow> p \<noteq> [] \<and> list_all (cls_ok c) p \<and> m' = m"
proof (cases p)
  case Nil
  then show ?thesis by (simp add: Many1_def)
next
  case (Cons x xs)
  then show ?thesis
    by (auto simp: Many1_def intro: exI [of _ "[x]"])
qed

lemma derives_lits: "derives (lits c s) m p m' \<longleftrightarrow> p = c # s \<and> m' = m"
  by (induction s arbitrary: c p) auto

section \<open>Priority\<close>

text \<open>
  Which alternative wins: the first of the whole list that a continuation accepts. A pattern
  under \<open>?\<close> is used whenever some way of using it lets the rest succeed.
\<close>

definition run :: "regex \<Rightarrow> captures \<times> string \<Rightarrow> (captures \<times> string) option" where
  "run r st = find (\<lambda>(m, t). t = []) (matches r st)"

lemma regex_match_run: "regex_match r s = map_option fst (run r (Map.empty, s))"
  by (simp add: regex_match_def run_def)

lemma find_concat_only:
  assumes "x \<in> set xs" and "\<And>y. y \<in> set xs \<Longrightarrow> y \<noteq> x \<Longrightarrow> find P (f y) = None"
  shows "find P (concat (map f xs)) = find P (f x)"
  using assms
proof (induction xs)
  case Nil
  then show ?case by simp
next
  case (Cons y ys)
  show ?case
  proof (cases "x \<in> set ys")
    case True
    with Cons have "find P (concat (map f ys)) = find P (f x)" by simp
    with Cons.prems(2) [of y] show ?thesis
      by (cases "y = x") (auto simp: find_append split: option.split)
  next
    case False
    with Cons.prems have "y = x" "\<And>z. z \<in> set ys \<Longrightarrow> find P (f z) = None" by auto
    then have "find P (concat (map f ys)) = None" by (auto simp: find_None)
    with \<open>y = x\<close> show ?thesis by (auto simp: find_append split: option.split)
  qed
qed

lemma run_Seq_only:
  assumes "derives a m p m1"
    and "\<And>p' u m'. p @ t = p' @ u \<Longrightarrow> derives a m p' m' \<Longrightarrow> (m', u) \<noteq> (m1, t) \<Longrightarrow>
      run b (m', u) = None"
  shows "run (Seq a b) (m, p @ t) = run b (m1, t)"
proof -
  have "find (\<lambda>(m, t). t = []) (concat (map (matches b) (matches a (m, p @ t)))) =
      find (\<lambda>(m, t). t = []) (matches b (m1, t))"
  proof (rule find_concat_only)
    show "(m1, t) \<in> set (matches a (m, p @ t))" using assms(1) by (auto simp: matches_iff_derives)
  next
    fix y assume "y \<in> set (matches a (m, p @ t))" "y \<noteq> (m1, t)"
    moreover obtain m' u where y: "y = (m', u)" by (cases y)
    ultimately obtain p' where "p @ t = p' @ u" "derives a m p' m'"
      by (auto simp: matches_iff_derives)
    with \<open>y \<noteq> (m1, t)\<close> y have "run b (m', u) = None" by (intro assms(2)) auto
    then show "find (\<lambda>(m, t). t = []) (matches b y) = None" by (simp add: run_def y)
  qed
  then show ?thesis by (simp add: run_def)
qed

lemma run_None_iff: "run r (m, s) = None \<longleftrightarrow> (\<nexists>m'. derives r m s m')"
  by (force simp: run_def find_None matches_iff_derives)

lemma run_SomeD: "run r (m, s) = Some (m', t) \<Longrightarrow> t = [] \<and> derives r m s m'"
  by (auto simp: run_def matches_iff_derives dest!: find_SomeD)

lemma run_eqI:
  assumes "derives r m s m1" and "\<And>m'. derives r m s m' \<Longrightarrow> m' = m1"
  shows "run r (m, s) = Some (m1, [])"
proof (cases "run r (m, s)")
  case None
  with assms(1) show ?thesis unfolding run_None_iff by blast
next
  case (Some x)
  then show ?thesis using assms(2) by (cases x) (auto dest: run_SomeD)
qed

lemma run_Seq_Opt:
  assumes "run (Seq a b) st \<noteq> None"
  shows "run (Seq (Opt a) b) st = run (Seq a b) st"
  using assms by (auto simp: run_def find_append split: option.split)

lemma run_Seq_Opt_None:
  assumes "run (Seq a b) st = None"
  shows "run (Seq (Opt a) b) st = run b st"
  using assms by (auto simp: run_def find_append split: option.split)

end
