(* ===== verification/Uri.thy ===== *)
theory Uri
  imports Regex
begin

text \<open>
  \<open>base/Uri.cpp\<close> and \<open>base/Uri.h\<close>: the struct \<open>Uri\<close> and its constructor, which splits a string
  with one regular expression. The first part is the code; the second gives the pattern a
  declarative reading (which decompositions of a string it allows) and proves which one the
  constructor picks.
\<close>

section \<open>The code\<close>

record uri =
  u_str :: string
  u_scheme :: string
  u_username :: string
  u_password :: string
  u_host :: string
  u_port :: int
  u_path :: string
  u_query :: string
  u_fragment :: string

definition empty_uri :: "string \<Rightarrow> uri" where
  "empty_uri s = \<lparr>u_str = s, u_scheme = [], u_username = [], u_password = [], u_host = [],
     u_port = 0, u_path = [], u_query = [], u_fragment = []\<rparr>"

text \<open>The pattern of \<open>uri_regex\<close>, one definition per bracketed part.\<close>

definition re_scheme :: regex where
  "re_scheme = Group 1 (Many1 (Range CHR ''a'' CHR ''z''))"

definition re_userinfo :: regex where
  "re_userinfo =
     Group 2 (Seq (Group 3 (Many1 (NotIn '':'')))
       (Seq (Opt (Group 4 (Seq (Cls (Lit CHR '':'')) (Group 5 (Many1 (NotIn ''@''))))))
         (Cls (Lit CHR ''@''))))"

definition re_host :: regex where
  "re_host = Group 6 (Many1 (NotIn ''/:''))"

definition re_port :: regex where
  "re_port = Group 7 (Seq (Cls (Lit CHR '':'')) (Group 8 (Many1 (Range CHR ''0'' CHR ''9''))))"

definition re_path :: regex where
  "re_path = Group 9 (Seq (Cls (Lit CHR ''/'')) (Many (NotIn ''?#'')))"

definition re_query :: regex where
  "re_query = Group 10 (Seq (Cls (Lit CHR ''?'')) (Group 11 (Many (NotIn ''#''))))"

definition re_fragment :: regex where
  "re_fragment = Group 12 (Seq (Cls (Lit CHR ''#'')) (Group 13 (Many Dot)))"

definition re_rest :: regex where
  "re_rest = Seq re_host (Seq (Opt re_port) (Seq (Opt re_path) (Seq (Opt re_query) (Opt re_fragment))))"

definition uri_regex :: regex where
  "uri_regex =
     Seq re_scheme (Seq (lits CHR '':'' ''//'') (Seq (Opt re_userinfo) re_rest))"

text \<open>\<open>std::stoi\<close> on a run of digits: out of range above \<open>INT_MAX\<close>.\<close>

definition stoi :: "string \<Rightarrow> int outcome" where
  "stoi s = (if read_digits s \<le> 2147483647 then Inr (int (read_digits s))
     else Inl (Throw (OutOfRange ''stoi'')))"

definition Uri :: "string \<Rightarrow> uri outcome" where
  "Uri s =
     (if s = [] then Inr (empty_uri s)
      else case regex_match uri_regex s of
        None \<Rightarrow> Inl (Throw (InvalidArgument (''Invalid uri ['' @ s @ '']'')))
      | Some m \<Rightarrow>
          let u = \<lparr>u_str = s, u_scheme = sub_match m 1, u_username = sub_match m 3,
                u_password = sub_match m 5, u_host = sub_match m 6, u_port = 0,
                u_path = (if sub_match m 9 = [] then ''/'' else sub_match m 9),
                u_query = sub_match m 11, u_fragment = sub_match m 13\<rparr>
          in if sub_match m 8 \<noteq> [] then
               bind_outcome (stoi (sub_match m 8)) (\<lambda>n. Inr (u\<lparr>u_port := n\<rparr>))
             else if u_scheme u = ''http'' then Inr (u\<lparr>u_port := 80\<rparr>)
             else if u_scheme u = ''https'' then Inr (u\<lparr>u_port := 443\<rparr>)
             else Inr u)"

text \<open>\<open>operator<<\<close> prints the stored string.\<close>

definition show_uri :: "uri \<Rightarrow> string" where
  "show_uri u = u_str u"

section \<open>Decompositions\<close>

text \<open>
  A decomposition of a uri: the text of every bracketed part that takes part in the match,
  without its separator.
\<close>

record uri_parts =
  p_scheme :: string
  p_user :: "(string \<times> string option) option"
  p_host :: string
  p_port :: "string option"
  p_path :: "string option"
  p_query :: "string option"
  p_fragment :: "string option"

fun opt_text :: "char \<Rightarrow> string option \<Rightarrow> string" where
  "opt_text c None = []"
| "opt_text c (Some t) = c # t"

fun user_text :: "(string \<times> string option) option \<Rightarrow> string" where
  "user_text None = []"
| "user_text (Some (u, pw)) = u @ opt_text CHR '':'' pw @ ''@''"

definition rest_text :: "uri_parts \<Rightarrow> string" where
  "rest_text p = p_host p @ opt_text CHR '':'' (p_port p) @ opt_text CHR ''/'' (p_path p) @
     opt_text CHR ''?'' (p_query p) @ opt_text CHR ''#'' (p_fragment p)"

definition render :: "uri_parts \<Rightarrow> string" where
  "render p = p_scheme p @ ''://'' @ user_text (p_user p) @ rest_text p"

definition lower :: "char \<Rightarrow> bool" where
  "lower c \<longleftrightarrow> cls_ok (Range CHR ''a'' CHR ''z'') c"

definition wf_user :: "(string \<times> string option) option \<Rightarrow> bool" where
  "wf_user ui \<longleftrightarrow> (case ui of None \<Rightarrow> True
     | Some (u, pw) \<Rightarrow> u \<noteq> [] \<and> CHR '':'' \<notin> set u \<and>
         (case pw of None \<Rightarrow> True | Some w \<Rightarrow> w \<noteq> [] \<and> CHR ''@'' \<notin> set w))"

definition wf_rest :: "uri_parts \<Rightarrow> bool" where
  "wf_rest p \<longleftrightarrow>
     p_host p \<noteq> [] \<and> CHR ''/'' \<notin> set (p_host p) \<and> CHR '':'' \<notin> set (p_host p) \<and>
     pred_option (\<lambda>t. t \<noteq> [] \<and> list_all is_digit t) (p_port p) \<and>
     pred_option (\<lambda>t. CHR ''?'' \<notin> set t \<and> CHR ''#'' \<notin> set t) (p_path p) \<and>
     pred_option (\<lambda>t. CHR ''#'' \<notin> set t) (p_query p) \<and>
     pred_option (\<lambda>t. CHR 0x0A \<notin> set t \<and> CHR 0x0D \<notin> set t) (p_fragment p)"

definition wf_parts :: "uri_parts \<Rightarrow> bool" where
  "wf_parts p \<longleftrightarrow> p_scheme p \<noteq> [] \<and> list_all lower (p_scheme p) \<and> wf_user (p_user p) \<and> wf_rest p"

text \<open>The fields the constructor fills in from a decomposition.\<close>

definition port_of :: "uri_parts \<Rightarrow> int outcome" where
  "port_of p = (case p_port p of
       Some t \<Rightarrow> stoi t
     | None \<Rightarrow> Inr (if p_scheme p = ''http'' then 80 else if p_scheme p = ''https'' then 443 else 0))"

definition uri_of_parts :: "uri_parts \<Rightarrow> uri outcome" where
  "uri_of_parts p = bind_outcome (port_of p) (\<lambda>n. Inr
     \<lparr>u_str = render p, u_scheme = p_scheme p,
      u_username = (case p_user p of None \<Rightarrow> [] | Some (u, _) \<Rightarrow> u),
      u_password = (case p_user p of Some (_, Some w) \<Rightarrow> w | _ \<Rightarrow> []),
      u_host = p_host p, u_port = n,
      u_path = (case p_path p of None \<Rightarrow> ''/'' | Some t \<Rightarrow> CHR ''/'' # t),
      u_query = (case p_query p of None \<Rightarrow> [] | Some t \<Rightarrow> t),
      u_fragment = (case p_fragment p of None \<Rightarrow> [] | Some t \<Rightarrow> t)\<rparr>)"

text \<open>The captures of a decomposition, in the order the matcher writes them.\<close>

fun cap_opt :: "nat \<Rightarrow> nat \<Rightarrow> char \<Rightarrow> string option \<Rightarrow> captures \<Rightarrow> captures" where
  "cap_opt i j c None m = m"
| "cap_opt i j c (Some t) m = m(j \<mapsto> t, i \<mapsto> c # t)"

fun cap_user :: "(string \<times> string option) option \<Rightarrow> captures \<Rightarrow> captures" where
  "cap_user None m = m"
| "cap_user (Some (u, pw)) m =
     (cap_opt 4 5 CHR '':'' pw (m(3 \<mapsto> u)))(2 \<mapsto> user_text (Some (u, pw)))"

fun cap_path :: "string option \<Rightarrow> captures \<Rightarrow> captures" where
  "cap_path None m = m"
| "cap_path (Some t) m = m(9 \<mapsto> CHR ''/'' # t)"

definition cap_rest :: "uri_parts \<Rightarrow> captures \<Rightarrow> captures" where
  "cap_rest p m = cap_opt 12 13 CHR ''#'' (p_fragment p) (cap_opt 10 11 CHR ''?'' (p_query p)
     (cap_path (p_path p) (cap_opt 7 8 CHR '':'' (p_port p) (m(6 \<mapsto> p_host p)))))"

definition caps :: "uri_parts \<Rightarrow> captures" where
  "caps p = cap_rest p (cap_user (p_user p) ([1 \<mapsto> p_scheme p]))"

lemma derives_scheme:
  "derives re_scheme m p m' \<longleftrightarrow> p \<noteq> [] \<and> list_all lower p \<and> m' = m(1 \<mapsto> p)"
  unfolding re_scheme_def derives.simps derives_Many1 lower_def by (auto simp: list_all_iff)

lemma list_all_NotIn: "list_all (cls_ok (NotIn ds)) t \<longleftrightarrow> set ds \<inter> set t = {}"
  by (auto simp: list_all_iff)

lemma list_all_digit: "list_all (cls_ok (Range CHR ''0'' CHR ''9'')) t \<longleftrightarrow> list_all is_digit t"
  by (auto simp: list_all_iff is_digit_def)

lemma list_all_Dot: "list_all (cls_ok Dot) t \<longleftrightarrow> CHR 0x0A \<notin> set t \<and> CHR 0x0D \<notin> set t"
  by (auto simp: list_all_iff)

lemma ex_option: "(\<exists>o'. P o') \<longleftrightarrow> P None \<or> (\<exists>t. P (Some t))"
  by (metis option.exhaust)

text \<open>A part that starts with its separator and may be absent.\<close>

lemma derives_optional:
  assumes "\<And>m t m'. derives r m t m' \<longleftrightarrow> P t \<and> m' = m"
  shows "derives (Opt (Group i (Seq (Cls (Lit c)) (Group j r)))) m p m' \<longleftrightarrow>
     (\<exists>o'. p = opt_text c o' \<and> pred_option P o' \<and> m' = cap_opt i j c o' m)"
proof -
  have "derives (Group i (Seq (Cls (Lit c)) (Group j r))) m p m' \<longleftrightarrow>
      (\<exists>t. p = c # t \<and> P t \<and> m' = m(j \<mapsto> t, i \<mapsto> c # t))"
    by (auto simp: assms)
  then show ?thesis
    by (simp only: derives.simps(4) ex_option) auto
qed

lemma derives_password:
  "derives (Opt (Group 4 (Seq (Cls (Lit CHR '':'')) (Group 5 (Many1 (NotIn ''@'')))))) m p m' \<longleftrightarrow>
     (\<exists>pw. p = opt_text CHR '':'' pw \<and> pred_option (\<lambda>w. w \<noteq> [] \<and> CHR ''@'' \<notin> set w) pw \<and>
       m' = cap_opt 4 5 CHR '':'' pw m)"
  by (rule derives_optional) (auto simp: derives_Many1 list_all_NotIn)

lemma derives_userinfo:
  "derives re_userinfo m p m' \<longleftrightarrow>
     (\<exists>u pw. wf_user (Some (u, pw)) \<and> p = user_text (Some (u, pw)) \<and> m' = cap_user (Some (u, pw)) m)"
  (is "?l \<longleftrightarrow> ?r")
proof
  assume ?l
  then obtain u pw where "u \<noteq> []" "CHR '':'' \<notin> set u"
    "pred_option (\<lambda>w. w \<noteq> [] \<and> CHR ''@'' \<notin> set w) pw"
    "p = u @ opt_text CHR '':'' pw @ ''@''" "m' = (cap_opt 4 5 CHR '':'' pw (m(3 \<mapsto> u)))(2 \<mapsto> p)"
    unfolding re_userinfo_def derives.simps(5) derives.simps(3) derives_password
      derives_Many1 list_all_NotIn by auto
  then show ?r
    by (intro exI [of _ u] exI [of _ pw]) (auto simp: wf_user_def split: option.splits)
next
  assume ?r
  then obtain u pw where r: "wf_user (Some (u, pw))" "p = user_text (Some (u, pw))"
    "m' = cap_user (Some (u, pw)) m" by blast
  then have "u \<noteq> []" "list_all (cls_ok (NotIn '':'')) u"
    "pred_option (\<lambda>w. w \<noteq> [] \<and> CHR ''@'' \<notin> set w) pw"
    by (auto simp: wf_user_def list_all_NotIn split: option.splits)
  let ?m = "m(3 \<mapsto> u)"
  have "derives (Group 3 (Many1 (NotIn '':''))) m u ?m"
    unfolding derives.simps(5) derives_Many1 using \<open>u \<noteq> []\<close> \<open>list_all _ u\<close> by blast
  moreover have "derives (Opt (Group 4 (Seq (Cls (Lit CHR '':'')) (Group 5 (Many1 (NotIn ''@''))))))
      ?m (opt_text CHR '':'' pw) (cap_opt 4 5 CHR '':'' pw ?m)"
    unfolding derives_password using \<open>pred_option _ pw\<close> by blast
  moreover have "derives (Cls (Lit CHR ''@'')) m1 ''@'' m1" for m1 by simp
  ultimately show ?l
    unfolding re_userinfo_def derives.simps(5) derives.simps(3) r(2,3) user_text.simps cap_user.simps
    by blast
qed

lemma derives_host:
  "derives re_host m p m' \<longleftrightarrow>
     p \<noteq> [] \<and> CHR ''/'' \<notin> set p \<and> CHR '':'' \<notin> set p \<and> m' = m(6 \<mapsto> p)"
  unfolding re_host_def derives.simps derives_Many1 list_all_NotIn by auto

lemma derives_port:
  "derives (Opt re_port) m p m' \<longleftrightarrow>
     (\<exists>t. p = opt_text CHR '':'' t \<and> pred_option (\<lambda>t. t \<noteq> [] \<and> list_all is_digit t) t \<and>
       m' = cap_opt 7 8 CHR '':'' t m)"
  unfolding re_port_def by (rule derives_optional) (simp add: derives_Many1 list_all_digit conj_ac)

lemma derives_path:
  "derives (Opt re_path) m p m' \<longleftrightarrow>
     (\<exists>t. p = opt_text CHR ''/'' t \<and> pred_option (\<lambda>t. CHR ''?'' \<notin> set t \<and> CHR ''#'' \<notin> set t) t \<and>
       m' = cap_path t m)"
proof -
  have "derives re_path m p m' \<longleftrightarrow>
      (\<exists>t. p = CHR ''/'' # t \<and> CHR ''?'' \<notin> set t \<and> CHR ''#'' \<notin> set t \<and> m' = m(9 \<mapsto> p))"
    unfolding re_path_def derives.simps list_all_NotIn by auto
  then show ?thesis by (simp only: derives.simps(4) ex_option) auto
qed

lemma derives_query:
  "derives (Opt re_query) m p m' \<longleftrightarrow>
     (\<exists>t. p = opt_text CHR ''?'' t \<and> pred_option (\<lambda>t. CHR ''#'' \<notin> set t) t \<and>
       m' = cap_opt 10 11 CHR ''?'' t m)"
  unfolding re_query_def by (rule derives_optional) (simp add: list_all_NotIn)

lemma derives_fragment:
  "derives (Opt re_fragment) m p m' \<longleftrightarrow>
     (\<exists>t. p = opt_text CHR ''#'' t \<and> pred_option (\<lambda>t. CHR 0x0A \<notin> set t \<and> CHR 0x0D \<notin> set t) t \<and>
       m' = cap_opt 12 13 CHR ''#'' t m)"
  unfolding re_fragment_def by (rule derives_optional) (simp add: list_all_Dot conj_ac)

lemmas derives_parts =
  derives_scheme derives_host derives_port derives_path derives_query derives_fragment

lemma derives_rest:
  "derives re_rest m s m' \<longleftrightarrow>
     (\<exists>p. wf_rest p \<and> s = rest_text p \<and> m' = cap_rest p m)" (is "?l \<longleftrightarrow> ?r")
proof
  assume ?l
  then obtain h pt pa q f where d: "s = h @ opt_text CHR '':'' pt @ opt_text CHR ''/'' pa @
      opt_text CHR ''?'' q @ opt_text CHR ''#'' f"
    "h \<noteq> []" "CHR ''/'' \<notin> set h" "CHR '':'' \<notin> set h"
    "pred_option (\<lambda>t. t \<noteq> [] \<and> list_all is_digit t) pt"
    "pred_option (\<lambda>t. CHR ''?'' \<notin> set t \<and> CHR ''#'' \<notin> set t) pa"
    "pred_option (\<lambda>t. CHR ''#'' \<notin> set t) q"
    "pred_option (\<lambda>t. CHR 0x0A \<notin> set t \<and> CHR 0x0D \<notin> set t) f"
    "m' = cap_opt 12 13 CHR ''#'' f (cap_opt 10 11 CHR ''?'' q
     (cap_path pa (cap_opt 7 8 CHR '':'' pt (m(6 \<mapsto> h)))))"
    unfolding re_rest_def derives.simps(3) derives_parts
    by blast
  let ?p = "\<lparr>p_scheme = [], p_user = None, p_host = h, p_port = pt, p_path = pa, p_query = q,
      p_fragment = f\<rparr>"
  from d(2-8) have "wf_rest ?p" by (simp only: wf_rest_def uri_parts.simps) simp
  moreover from d(1) have "s = rest_text ?p" by (simp only: rest_text_def uri_parts.simps)
  moreover from d(9) have "m' = cap_rest ?p m" by (simp only: cap_rest_def uri_parts.simps)
  ultimately show ?r by blast
next
  assume ?r
  then obtain p where "wf_rest p" "s = rest_text p" "m' = cap_rest p m" by blast
  then show ?l
    unfolding re_rest_def derives.simps(3) derives_parts wf_rest_def cap_rest_def rest_text_def
    by (elim conjE) (intro exI conjI, (rule refl | assumption)+)
qed


lemma rest_ignores [simp]:
  "wf_rest (p\<lparr>p_scheme := sc, p_user := ui\<rparr>) = wf_rest p"
  "rest_text (p\<lparr>p_scheme := sc, p_user := ui\<rparr>) = rest_text p"
  "cap_rest (p\<lparr>p_scheme := sc, p_user := ui\<rparr>) = cap_rest p"
  by (simp_all add: wf_rest_def rest_text_def cap_rest_def fun_eq_iff)

lemma derives_Opt_userinfo:
  "derives (Opt re_userinfo) m p m' \<longleftrightarrow>
     (\<exists>ui. wf_user ui \<and> p = user_text ui \<and> m' = cap_user ui m)"
proof -
  have "wf_user None" by (simp add: wf_user_def)
  then show ?thesis
    by (simp only: derives.simps(4) derives_userinfo ex_option split_paired_Ex
        user_text.simps(1) cap_user.simps(1)) blast
qed

lemma derives_uri:
  "derives uri_regex Map.empty s m \<longleftrightarrow> (\<exists>p. wf_parts p \<and> s = render p \<and> m = caps p)"
  (is "?l \<longleftrightarrow> ?r")
proof
  assume ?l
  then obtain sc ui p where d: "s = sc @ ''://'' @ user_text ui @ rest_text p" "sc \<noteq> []"
    "list_all lower sc" "wf_user ui" "wf_rest p"
    "m = cap_rest p (cap_user ui ([1 \<mapsto> sc]))"
    unfolding uri_regex_def derives.simps(3) derives_scheme derives_lits derives_Opt_userinfo derives_rest
    by blast
  let ?p = "p\<lparr>p_scheme := sc, p_user := ui\<rparr>"
  from d have "wf_parts ?p \<and> s = render ?p \<and> m = caps ?p"
    by (simp add: wf_parts_def render_def caps_def)
  then show ?r by blast
next
  assume ?r
  then obtain p where "wf_parts p" "s = render p" "m = caps p" by blast
  then show ?l
    unfolding uri_regex_def derives.simps(3) derives_scheme derives_lits derives_Opt_userinfo
      derives_rest wf_parts_def render_def caps_def
    by (elim conjE) (intro exI conjI, (rule refl | assumption)+)
qed

lemma sub_match_upd [simp]: "sub_match (m(i \<mapsto> t)) j = (if i = j then t else sub_match m j)"
  by (simp add: sub_match_def)

lemma sub_match_empty [simp]: "sub_match Map.empty i = []"
  by (simp add: sub_match_def)

lemma user_cases:
  obtains "ui = None" | u where "ui = Some (u, None)" | u w where "ui = Some (u, Some w)"
  by (metis option.exhaust surj_pair)

lemma sub_match_caps:
  "sub_match (caps p) (Suc 0) = p_scheme p"
  "sub_match (caps p) 3 = (case p_user p of None \<Rightarrow> [] | Some (u, _) \<Rightarrow> u)"
  "sub_match (caps p) 5 = (case p_user p of Some (_, Some w) \<Rightarrow> w | _ \<Rightarrow> [])"
  "sub_match (caps p) 6 = p_host p"
  "sub_match (caps p) 8 = (case p_port p of None \<Rightarrow> [] | Some t \<Rightarrow> t)"
  "sub_match (caps p) 9 = opt_text CHR ''/'' (p_path p)"
  "sub_match (caps p) 11 = (case p_query p of None \<Rightarrow> [] | Some t \<Rightarrow> t)"
  "sub_match (caps p) 13 = (case p_fragment p of None \<Rightarrow> [] | Some t \<Rightarrow> t)"
  by (cases "p_user p" rule: user_cases; cases "p_port p"; cases "p_path p"; cases "p_query p";
      cases "p_fragment p"; simp add: caps_def cap_rest_def)+

lemma Uri_of_match:
  assumes "regex_match uri_regex s = Some (caps p)" and "wf_parts p" and "s = render p"
  shows "Uri s = uri_of_parts p"
proof -
  have "s \<noteq> []" using assms(2,3) by (auto simp: render_def wf_parts_def)
  moreover have "(case p_port p of None \<Rightarrow> [] | Some t \<Rightarrow> t) \<noteq> [] \<longleftrightarrow> p_port p \<noteq> None"
    using assms(2) by (auto simp: wf_parts_def wf_rest_def split: option.splits)
  ultimately show ?thesis
    using assms(1,3)
    by (cases "p_port p"; cases "p_path p")
      (auto simp: Uri_def sub_match_caps uri_of_parts_def port_of_def Let_def bind_outcome_Inl_iff)
qed

lemma Uri_cases:
  assumes "s \<noteq> []"
  obtains (reject) "\<nexists>p. wf_parts p \<and> s = render p"
      "Uri s = Inl (Throw (InvalidArgument (''Invalid uri ['' @ s @ '']'')))"
  | (parse) p where "wf_parts p" "s = render p" "Uri s = uri_of_parts p"
proof (cases "regex_match uri_regex s")
  case None
  then have "\<nexists>p. wf_parts p \<and> s = render p"
    by (auto simp: regex_match_None_iff derives_uri)
  moreover from None assms have "Uri s = Inl (Throw (InvalidArgument (''Invalid uri ['' @ s @ '']'')))"
    by (simp add: Uri_def)
  ultimately show thesis by (rule reject)
next
  case (Some m)
  then obtain p where "wf_parts p" "s = render p" "m = caps p"
    by (auto simp: derives_uri dest!: regex_match_SomeD)
  with Some show thesis by (intro parse [of p]) (auto intro: Uri_of_match)
qed


section \<open>Which decomposition wins\<close>

text \<open>
  The pattern allows several decompositions of one string: a host may swallow a query
  (\<open>[^/:]+\<close> admits \<open>?\<close> and \<open>#\<close>) and a user name may swallow a path. The next facts say
  when the decomposition is unique, and that one with user information is preferred.
\<close>

definition canonical_rest :: "uri_parts \<Rightarrow> bool" where
  "canonical_rest p \<longleftrightarrow> CHR ''?'' \<notin> set (p_host p) \<and> CHR ''#'' \<notin> set (p_host p) \<and>
     (p_path p = None \<longrightarrow> p_query p = None \<and> p_fragment p = None)"

lemma opt_cut:
  assumes "opt_text c a @ ys = opt_text c b @ ys'"
    and "ys = [] \<or> hd ys \<noteq> c \<and> pred_option (\<lambda>t. hd ys \<notin> set t) b"
    and "ys' = [] \<or> hd ys' \<noteq> c \<and> pred_option (\<lambda>t. hd ys' \<notin> set t) a"
  shows "a = b \<and> ys = ys'"
  using assms by (cases a; cases b) (auto dest!: cut_unique)

lemma hd_opt: "opt_text c a @ ys = [] \<and> ys = [] \<or> hd (opt_text c a @ ys) = c \<or> hd (opt_text c a @ ys) = hd ys \<and> ys \<noteq> []"
  by (cases a) auto

lemma not_digit: "\<not> is_digit CHR ''/''" "\<not> is_digit CHR ''?''" "\<not> is_digit CHR ''#''"
  by (simp_all add: is_digit_def)

lemma rest_unique:
  assumes w: "wf_rest p" "wf_rest p'" and c: "canonical_rest p" and e: "rest_text p = rest_text p'"
  shows "p_host p = p_host p' \<and> p_port p = p_port p' \<and> p_path p = p_path p' \<and>
    p_query p = p_query p' \<and> p_fragment p = p_fragment p'"
proof -
  define R :: "uri_parts \<Rightarrow> string" where "R q = opt_text CHR ''?'' (p_query q) @ opt_text CHR ''#'' (p_fragment q)" for q
  define S :: "uri_parts \<Rightarrow> string" where "S q = opt_text CHR ''/'' (p_path q) @ R q" for q
  define T :: "uri_parts \<Rightarrow> string" where "T q = opt_text CHR '':'' (p_port q) @ S q" for q
  have frag: "opt_text CHR ''#'' f = [] \<or> hd (opt_text CHR ''#'' f) = CHR ''#''" for f
    by (cases f) auto
  have R: "R q = [] \<or> hd (R q) \<in> {CHR ''?'', CHR ''#''}" for q
    using hd_opt [of "CHR ''?''" "p_query q" "opt_text CHR ''#'' (p_fragment q)"]
      frag [of "p_fragment q"] by (auto simp: R_def)
  have S: "S q = [] \<or> hd (S q) \<in> {CHR ''/'', CHR ''?'', CHR ''#''}" for q
    using hd_opt [of "CHR ''/''" "p_path q" "R q"] R [of q] by (auto simp: S_def)
  have T: "T q = [] \<or> hd (T q) \<in> {CHR '':'', CHR ''/'', CHR ''?'', CHR ''#''}" for q
    using hd_opt [of "CHR '':''" "p_port q" "S q"] S [of q] by (auto simp: T_def)
  have Tc: "T p = [] \<or> hd (T p) \<in> {CHR '':'', CHR ''/''}"
    using c by (cases "p_port p"; cases "p_path p") (auto simp: T_def S_def R_def canonical_rest_def)
  have 1: "p_host p = p_host p' \<and> T p = T p'"
  proof (rule cut_unique)
    show "p_host p @ T p = p_host p' @ T p'" using e by (simp add: rest_text_def T_def S_def R_def)
    show "T p = [] \<or> hd (T p) \<notin> set (p_host p')" using Tc w(2) by (auto simp: wf_rest_def)
    show "T p' = [] \<or> hd (T p') \<notin> set (p_host p)"
      using T [of p'] w(1) c by (auto simp: wf_rest_def canonical_rest_def)
  qed
  have dig: "S q = [] \<or> hd (S q) \<noteq> CHR '':'' \<and> pred_option (\<lambda>t. hd (S q) \<notin> set t) (p_port q')"
    if "wf_rest q'" for q q'
    using S [of q] that not_digit by (cases "p_port q'") (auto simp: wf_rest_def list_all_iff)
  have 2: "p_port p = p_port p' \<and> S p = S p'"
    by (rule opt_cut [of "CHR '':''"]) (use 1 dig w in \<open>auto simp: T_def\<close>)
  have pth: "R q = [] \<or> hd (R q) \<noteq> CHR ''/'' \<and> pred_option (\<lambda>t. hd (R q) \<notin> set t) (p_path q')"
    if "wf_rest q'" for q q'
    using R [of q] that by (cases "p_path q'") (auto simp: wf_rest_def)
  have 3: "p_path p = p_path p' \<and> R p = R p'"
    by (rule opt_cut [of "CHR ''/''"]) (use 2 pth w in \<open>auto simp: S_def\<close>)
  have fr: "opt_text CHR ''#'' f = [] \<or> hd (opt_text CHR ''#'' f) \<noteq> CHR ''?'' \<and>
      pred_option (\<lambda>t. hd (opt_text CHR ''#'' f) \<notin> set t) (p_query q')" if "wf_rest q'" for f q'
    using frag [of f] that by (cases "p_query q'") (auto simp: wf_rest_def)
  have 4: "p_query p = p_query p' \<and>
      opt_text CHR ''#'' (p_fragment p) = opt_text CHR ''#'' (p_fragment p')"
    by (rule opt_cut [of "CHR ''?''"]) (use 3 fr w in \<open>auto simp: R_def\<close>)
  then have "p_fragment p = p_fragment p'"
    by (cases "p_fragment p"; cases "p_fragment p'") auto
  with 1 2 3 4 show ?thesis by blast
qed

lemma cap_rest_cong:
  assumes "p_host p = p_host p' \<and> p_port p = p_port p' \<and> p_path p = p_path p' \<and>
    p_query p = p_query p' \<and> p_fragment p = p_fragment p'"
  shows "cap_rest p = cap_rest p'"
  using assms by (simp add: cap_rest_def fun_eq_iff)

lemma run_rest:
  assumes "wf_rest p" and "canonical_rest p"
  shows "run re_rest (m, rest_text p) = Some (cap_rest p m, [])"
proof -
  have u: "m' = cap_rest p m" if "derives re_rest m (rest_text p) m'" for m'
  proof -
    from that obtain p' where p': "wf_rest p'" "rest_text p = rest_text p'" "m' = cap_rest p' m"
      unfolding derives_rest by blast
    have "cap_rest p = cap_rest p'"
      by (rule cap_rest_cong, rule rest_unique) (use assms p' in blast)+
    with p'(3) show ?thesis by simp
  qed
  have "derives re_rest m (rest_text p) (cap_rest p m)"
    unfolding derives_rest using assms(1) by blast
  then show ?thesis using u by (rule run_eqI)
qed


lemma lower_not_colon: "lower c \<Longrightarrow> c \<noteq> CHR '':'' \<and> c \<noteq> CHR ''@''"
  by (auto simp: lower_def)

lemma run_uri_prefix:
  assumes "sc \<noteq> []" "list_all lower sc"
  shows "run uri_regex (Map.empty, sc @ ''://'' @ w) =
     run (Seq (Opt re_userinfo) re_rest) ([1 \<mapsto> sc], w)"
proof -
  let ?tail = "Seq (Opt re_userinfo) re_rest"
  have "run uri_regex (Map.empty, sc @ ''://'' @ w) =
      run (Seq (lits CHR '':'' ''//'') ?tail) ([1 \<mapsto> sc], ''://'' @ w)"
    unfolding uri_regex_def
  proof (rule run_Seq_only)
    show "derives re_scheme Map.empty sc [1 \<mapsto> sc]" using assms by (simp add: derives_scheme)
  next
    fix p' u m'
    assume e: "sc @ ''://'' @ w = p' @ u" and d: "derives re_scheme Map.empty p' m'"
      and ne: "(m', u) \<noteq> ([1 \<mapsto> sc], ''://'' @ w)"
    show "run (Seq (lits CHR '':'' ''//'') ?tail) (m', u) = None"
    proof (rule ccontr)
      assume "run (Seq (lits CHR '':'' ''//'') ?tail) (m', u) \<noteq> None"
      then obtain v where v: "u = ''://'' @ v"
        unfolding run_None_iff derives.simps(3) derives_lits by blast
      have "sc = p' \<and> ''://'' @ w = u"
        by (rule cut_unique [OF e])
          (use d v assms(2) lower_not_colon in \<open>auto simp: derives_scheme list_all_iff\<close>)
      with d ne show False by (auto simp: derives_scheme)
    qed
  qed
  also have "\<dots> = run ?tail ([1 \<mapsto> sc], w)"
    by (rule run_Seq_only) (auto simp: derives_lits)
  finally show ?thesis .
qed

lemma no_userinfo:
  assumes "CHR ''@'' \<notin> set w"
  shows "run (Seq (Opt re_userinfo) re_rest) (m, w) = run re_rest (m, w)"
proof (rule run_Seq_Opt_None)
  show "run (Seq re_userinfo re_rest) (m, w) = None"
    unfolding run_None_iff derives.simps(3) derives_userinfo using assms by auto
qed

lemma user_unique:
  assumes "wf_user (Some (u, pw))" "CHR ''@'' \<notin> set u" "CHR ''@'' \<notin> set r"
    and "wf_user (Some (u', pw'))"
    and e: "user_text (Some (u, pw)) @ r = user_text (Some (u', pw')) @ r'"
  shows "u = u' \<and> pw = pw' \<and> r = r'"
proof -
  let ?t = "\<lambda>u pw. u @ opt_text CHR '':'' pw"
  have at: "CHR ''@'' \<notin> set (?t u pw)"
    using assms(1,2) by (cases pw) (auto simp: wf_user_def)
  have cut: "?t u pw @ CHR ''@'' # r = ?t u' pw' @ CHR ''@'' # r'" using e by simp
  have "?t u pw = ?t u' pw' \<and> r = r'"
    using cut append_Cons_eq_iff [OF at assms(3), of "?t u' pw'" r'] by (simp only:)
  moreover have "u = u' \<and> opt_text CHR '':'' pw = opt_text CHR '':'' pw'"
    by (rule cut_unique) (use calculation assms(1,4) in
      \<open>cases pw; cases pw'; auto simp: wf_user_def\<close>)+
  ultimately show ?thesis by (cases pw; cases pw') auto
qed

lemma run_userinfo:
  assumes w: "wf_user (Some (u, pw))" "CHR ''@'' \<notin> set u" and r: "CHR ''@'' \<notin> set (rest_text p)"
    "wf_rest p" "canonical_rest p"
  shows "run (Seq (Opt re_userinfo) re_rest) (m, user_text (Some (u, pw)) @ rest_text p) =
     Some (cap_rest p (cap_user (Some (u, pw)) m), [])"
proof -
  have run: "run (Seq re_userinfo re_rest) (m, user_text (Some (u, pw)) @ rest_text p) =
     run re_rest (cap_user (Some (u, pw)) m, rest_text p)"
  proof (rule run_Seq_only)
    show "derives re_userinfo m (user_text (Some (u, pw))) (cap_user (Some (u, pw)) m)"
      unfolding derives_userinfo using w(1) by blast
  next
    fix p' r' m'
    assume "user_text (Some (u, pw)) @ rest_text p = p' @ r'" "derives re_userinfo m p' m'"
      "(m', r') \<noteq> (cap_user (Some (u, pw)) m, rest_text p)"
    then show "run re_rest (m', r') = None"
      unfolding derives_userinfo using user_unique [OF w r(1)] by blast
  qed
  then have "run (Seq re_userinfo re_rest) (m, user_text (Some (u, pw)) @ rest_text p) =
      Some (cap_rest p (cap_user (Some (u, pw)) m), [])"
    using run_rest [OF r(2,3)] by simp
  then show ?thesis by (simp add: run_Seq_Opt)
qed


text \<open>The greedy host: when nothing in the tail stops it, it takes the whole tail.\<close>

lemma many_all: "list_all (cls_ok c) s \<Longrightarrow> \<exists>ts. many c s = [] # ts"
  by (induction s) auto

lemma run_rest_greedy:
  assumes "w \<noteq> []" "CHR ''/'' \<notin> set w" "CHR '':'' \<notin> set w"
  shows "run re_rest (m, w) = Some (m(6 \<mapsto> w), [])"
proof -
  from assms obtain x xs where w: "w = x # xs" by (cases w) auto
  with assms have ok: "cls_ok (NotIn ''/:'') x" "list_all (cls_ok (NotIn ''/:'')) xs"
    by (auto simp: list_all_iff)
  from many_all [OF ok(2)] obtain ts where "many (NotIn ''/:'') xs = [] # ts" by blast
  with ok(1) w have "\<exists>ys. matches re_host (m, w) = (m(6 \<mapsto> w), []) # ys"
    by (simp add: re_host_def Many1_def)
  then show ?thesis
    by (auto simp: run_def re_rest_def re_port_def re_path_def re_query_def re_fragment_def)
qed

section \<open>Properties\<close>

definition canonical :: "uri_parts \<Rightarrow> bool" where
  "canonical p \<longleftrightarrow> canonical_rest p \<and> CHR ''@'' \<notin> set (rest_text p) \<and>
     pred_option (\<lambda>(u, pw). CHR ''@'' \<notin> set u) (p_user p)"

lemma run_canonical:
  assumes "wf_parts p" and "canonical p"
  shows "regex_match uri_regex (render p) = Some (caps p)"
proof (cases "p_user p")
  case None
  then have "render p = p_scheme p @ ''://'' @ rest_text p" by (simp add: render_def)
  with None assms show ?thesis
    by (simp add: regex_match_run run_uri_prefix no_userinfo run_rest wf_parts_def
        canonical_def caps_def del: append.simps)
next
  case (Some up)
  then obtain u pw where up: "p_user p = Some (u, pw)" by (cases up) auto
  with assms have "run (Seq (Opt re_userinfo) re_rest) (m, user_text (Some (u, pw)) @ rest_text p) =
     Some (cap_rest p (cap_user (Some (u, pw)) m), [])" for m
    by (intro run_userinfo) (auto simp: wf_parts_def canonical_def)
  with assms up show ?thesis
    by (simp add: regex_match_run render_def run_uri_prefix wf_parts_def caps_def
        del: append.simps user_text.simps cap_user.simps)
qed






text \<open>The port of an accepted uri fits an \<open>int\<close> and is not negative; it is not checked against
  65535, the largest port there is.\<close>

theorem uri_port_bounds:
  assumes "Uri s = Inr u"
  shows "0 \<le> u_port u \<and> u_port u \<le> 2147483647"
proof (cases "s = []")
  case True
  with assms show ?thesis by (auto simp: Uri_def empty_uri_def)
next
  case False
  then show ?thesis
    by (cases rule: Uri_cases)
      (use assms in \<open>auto simp: uri_of_parts_def port_of_def stoi_def bind_outcome_Inr_iff
        split: option.splits if_splits\<close>)
qed


theorem uri_port_bounds_witness:
  "\<exists>u. Uri ''x://h:99999'' = Inr u \<and> u_port u = 99999 \<and> u_port u \<le> 2147483647"
proof -
  let ?p = "\<lparr>p_scheme = ''x'', p_user = None, p_host = ''h'', p_port = Some ''99999'', p_path = None,
    p_query = None, p_fragment = None\<rparr>"
  have "render ?p = ''x://h:99999''" and "wf_parts ?p" and "canonical ?p"
    by (simp_all add: render_def rest_text_def wf_parts_def wf_user_def wf_rest_def canonical_def
        canonical_rest_def lower_def is_digit_def)
  then have "Uri ''x://h:99999'' = uri_of_parts ?p"
    using run_canonical Uri_of_match by metis
  then obtain u where u: "Uri ''x://h:99999'' = Inr u" "u_port u = 99999"
    by (auto simp: uri_of_parts_def port_of_def stoi_def read_digits_def digit_val_def)
  with uri_port_bounds [OF u(1)] show ?thesis by blast
qed

text \<open>An \<open>@\<close> in the path or query moves the host: everything between \<open>//\<close> and that \<open>@\<close>,
  slashes included, becomes the user name, and what follows becomes the host that is resolved.\<close>

theorem uri_host_after_at:
  assumes "x \<noteq> []" "CHR '':'' \<notin> set x" "CHR ''@'' \<notin> set x"
    and "h \<noteq> []" "set h \<inter> set ''/:?#@'' = {}"
  shows "\<exists>u. Uri (''http://'' @ x @ ''@'' @ h) = Inr u \<and> u_username u = x \<and> u_host u = h \<and>
    u_path u = ''/'' \<and> u_query u = []"
proof -
  let ?p = "\<lparr>p_scheme = ''http'', p_user = Some (x, None), p_host = h, p_port = None, p_path = None,
    p_query = None, p_fragment = None\<rparr>"
  have "wf_parts ?p" "canonical ?p"
    using assms by (auto simp: wf_parts_def wf_user_def wf_rest_def canonical_def canonical_rest_def
        lower_def rest_text_def)
  then have "Uri (render ?p) = uri_of_parts ?p"
    by (intro Uri_of_match run_canonical) simp_all
  moreover have "render ?p = ''http://'' @ x @ ''@'' @ h" by (simp add: render_def rest_text_def)
  ultimately show ?thesis by (simp add: uri_of_parts_def port_of_def)
qed

theorem uri_host_after_at_witness:
  "\<exists>u. Uri ''http://good.com/?q=me@evil.com'' = Inr u \<and> u_host u = ''evil.com''"
  using uri_host_after_at [of "''good.com/?q=me''" "''evil.com''"] by auto

text \<open>A query or fragment that follows the host without a path is swallowed by the host: with
  no \<open>/\<close>, \<open>:\<close> or \<open>@\<close> after \<open>//\<close>, the whole rest is the host and the query stays empty.\<close>

theorem uri_host_swallows_query:
  assumes "w \<noteq> []" "set w \<inter> set ''/:@'' = {}"
  shows "\<exists>u. Uri (''http://'' @ w) = Inr u \<and> u_host u = w \<and> u_query u = [] \<and>
    u_fragment u = [] \<and> u_port u = 80"
proof -
  have "list_all lower ''http''" by (simp add: lower_def)
  then have "regex_match uri_regex (''http'' @ ''://'' @ w) = Some ([1 \<mapsto> ''http'', 6 \<mapsto> w])"
    using assms run_uri_prefix [of "''http''" w] no_userinfo [of w] run_rest_greedy [of w]
    by (simp add: regex_match_run del: append.simps)
  then show ?thesis by (simp add: Uri_def)
qed

theorem uri_host_swallows_query_witness:
  "\<exists>u. Uri ''http://h?x=1#f'' = Inr u \<and> u_host u = ''h?x=1#f''"
  using uri_host_swallows_query [of "''h?x=1#f''"] by auto

end
