(* ===== verification/Utils.thy ===== *)
theory Utils
  imports Prelude
begin

text \<open>
  \<open>base/Utils.cpp\<close>: the wall clock in microseconds, milliseconds and seconds, over the
  \<open>timeval\<close> that \<open>gettimeofday\<close> fills in. All values are 64-bit signed integers.
\<close>

type_synonym int64 = "64 word"

record timeval =
  tv_sec :: int64
  tv_usec :: int64

text \<open>Division of C++: it rounds towards zero.\<close>

definition div64 :: "int64 \<Rightarrow> int64 \<Rightarrow> int64" where
  "div64 a b = word_of_int (sint a sdiv sint b)"

definition now_in_usecs :: "timeval \<Rightarrow> int64" where
  "now_in_usecs tv = tv_sec tv * 1000000 + tv_usec tv"

definition now_in_ms :: "timeval \<Rightarrow> int64" where
  "now_in_ms tv = div64 (now_in_usecs tv) 1000"

definition now_in_secs :: "timeval \<Rightarrow> int64" where
  "now_in_secs tv = div64 (now_in_usecs tv) 1000000"

text \<open>A clock reading after 1970 whose microseconds fit 63 bits (some 292,000 years).\<close>

definition valid_timeval :: "timeval \<Rightarrow> bool" where
  "valid_timeval tv \<longleftrightarrow> 0 \<le> sint (tv_sec tv) \<and> sint (tv_sec tv) < 9223372036854 \<and>
     0 \<le> sint (tv_usec tv) \<and> sint (tv_usec tv) < 1000000"

lemma sint_word_of_int64:
  "- (2 ^ 63) \<le> i \<Longrightarrow> i < 2 ^ 63 \<Longrightarrow> sint (word_of_int i :: int64) = i"
  by (simp add: sint_sbintrunc' signed_take_bit_int_eq_self)

lemma sint_now_in_usecs:
  assumes "valid_timeval tv"
  shows "sint (now_in_usecs tv) = sint (tv_sec tv) * 1000000 + sint (tv_usec tv)"
proof -
  have "now_in_usecs tv = word_of_int (sint (tv_sec tv) * 1000000 + sint (tv_usec tv))"
    by (simp add: now_in_usecs_def)
  then show ?thesis
    using assms by (simp only:) (rule sint_word_of_int64, auto simp: valid_timeval_def)
qed

lemma sdiv_nonneg: "0 \<le> a \<Longrightarrow> 0 < b \<Longrightarrow> a sdiv b = a div b" for a b :: int
  by (cases "a = 0") (simp_all add: signed_divide_int_def)

lemma sint_div64:
  assumes "0 \<le> sint a" and "0 < sint b"
  shows "sint (div64 a b) = sint a div sint b"
proof -
  have "sint a < 2 ^ 63" using sint_lt [of a] by simp
  then have "sint a div sint b < 2 ^ 63"
    using assms by (intro le_less_trans [OF _ \<open>sint a < 2 ^ 63\<close>]) (use zdiv_mono2 [of "sint a" 1 "sint b"] in simp)
  moreover have "0 \<le> sint a div sint b" using assms by (simp add: pos_imp_zdiv_nonneg_iff)
  ultimately show ?thesis using assms by (simp add: div64_def sdiv_nonneg sint_word_of_int64)
qed

text \<open>For every clock reading with microseconds below one million, the conversions neither
  overflow nor lose the second: seconds are the seconds read, milliseconds the whole
  milliseconds since the epoch.\<close>

theorem clock_exact:
  assumes "valid_timeval tv"
  shows "sint (now_in_secs tv) = sint (tv_sec tv) \<and>
    sint (now_in_ms tv) = sint (tv_sec tv) * 1000 + sint (tv_usec tv) div 1000"
proof -
  have "0 \<le> sint (now_in_usecs tv)"
    using assms by (simp add: sint_now_in_usecs valid_timeval_def)
  then show ?thesis
    using assms by (simp add: now_in_secs_def now_in_ms_def sint_div64 sint_now_in_usecs)
      (auto simp: valid_timeval_def)
qed

theorem clock_exact_witness:
  "sint (now_in_ms \<lparr>tv_sec = 1470000000, tv_usec = 987654\<rparr>) = 1470000000987"
proof -
  have "valid_timeval \<lparr>tv_sec = 1470000000, tv_usec = 987654\<rparr>"
    by (simp add: valid_timeval_def)
  from clock_exact [OF this] show ?thesis by simp
qed

end
