(* ===== verification/Status.thy ===== *)
theory Status
  imports Prelude
begin

text \<open>
  \<open>base/Status.h\<close>: a result code with a message. \<open>ok()\<close> and \<open>error()\<close> reset the message;
  \<open>operator<<\<close> appends to it; the conversion to \<open>bool\<close> is success.
\<close>

datatype code = kOk | kError

record status =
  st_code :: code
  st_msg :: string

definition Status :: status where
  "Status = \<lparr>st_code = kOk, st_msg = []\<rparr>"

definition ok :: "status \<Rightarrow> status" where
  "ok s = s\<lparr>st_code := kOk, st_msg := []\<rparr>"

definition error :: "status \<Rightarrow> status" where
  "error s = s\<lparr>st_code := kError, st_msg := []\<rparr>"

definition append_msg :: "status \<Rightarrow> string \<Rightarrow> status" where
  "append_msg s t = s\<lparr>st_msg := st_msg s @ t\<rparr>"

definition is_ok :: "status \<Rightarrow> bool" where
  "is_ok s \<longleftrightarrow> st_code s = kOk"

text \<open>Printing: the enumerator as its number, and \<open>OK\<close> for an empty message.\<close>

definition show_status :: "status \<Rightarrow> string" where
  "show_status s = ''['' @ to_string (case st_code s of kOk \<Rightarrow> 0 | kError \<Rightarrow> 1) @ '':'' @
     (if st_msg s = [] then ''OK'' else st_msg s) @ '']''"

named_theorems status_simps

lemma is_ok_simps [status_simps]:
  "is_ok Status" "is_ok (ok s)" "\<not> is_ok (error s)" "is_ok (append_msg s t) = is_ok s"
  by (simp_all add: is_ok_def Status_def ok_def error_def append_msg_def)

lemma msg_simps [status_simps]:
  "st_msg (ok s) = []" "st_msg (error s) = []" "st_msg (append_msg s t) = st_msg s @ t"
  by (simp_all add: ok_def error_def append_msg_def)

end
