(* ===== verification/Base64.thy ===== *)
theory Base64
  imports Prelude
begin

text \<open>
  \<open>base/Base64.cpp\<close>. The code composes four iterator adaptors of Boost.Serialization, which
  are not part of the repository: they are the fields of the parameter \<open>b64\<close>, and the locale
  \<open>base64_laws\<close> states what Boost documents of them (bit regrouping, the base64 alphabet,
  \<open>=\<close> read as zero). What the code adds, the padding and its removal, is modelled as written.
\<close>

section \<open>The code\<close>

record b64 =
  to_sextets :: "string \<Rightarrow> nat list"    \<comment> \<open>\<open>transform_width<It, 6, 8>\<close>\<close>
  to_octets :: "nat list \<Rightarrow> string"     \<comment> \<open>\<open>transform_width<It, 8, 6>\<close>\<close>
  to_char :: "nat \<Rightarrow> char"              \<comment> \<open>\<open>base64_from_binary\<close>\<close>
  from_char :: "char \<Rightarrow> nat option"     \<comment> \<open>\<open>binary_from_base64\<close>, throwing outside the alphabet\<close>

definition base64_encode :: "b64 \<Rightarrow> string \<Rightarrow> string" where
  "base64_encode B v =
     map (to_char B) (to_sextets B v) @ replicate ((3 - length v mod 3) mod 3) CHR ''=''"

text \<open>
  The loop \<open>for (int i = val.size() - 1; i >= 0 && val[i] == '='; --i) r.pop_back();\<close>. The first
  argument counts the indices left, so the test reads \<open>val[i]\<close> with \<open>i\<close> one below it; the start
  index is the size less one, truncated to a 32-bit \<open>int\<close>.
\<close>

fun strip_padding :: "string \<Rightarrow> nat \<Rightarrow> string \<Rightarrow> string outcome" where
  "strip_padding v 0 r = Inr r"
| "strip_padding v (Suc i) r =
     (if v ! i = CHR ''='' then
        if r = [] then Inl (Undefined ''pop_back on an empty string'')
        else strip_padding v i (butlast r)
      else Inr r)"

definition start_index :: "string \<Rightarrow> int" where
  "start_index v = sint (word_of_int (int (length v) - 1) :: 32 word)"

fun sextets_of :: "b64 \<Rightarrow> string \<Rightarrow> nat list outcome" where
  "sextets_of B [] = Inr []"
| "sextets_of B (c # cs) = (case from_char B c of
      None \<Rightarrow> Inl (Throw (LibraryError ''dataflow_exception''))
    | Some x \<Rightarrow> bind_outcome (sextets_of B cs) (\<lambda>xs. Inr (x # xs)))"

definition base64_decode :: "b64 \<Rightarrow> string \<Rightarrow> string outcome" where
  "base64_decode B v =
     bind_outcome (sextets_of B v) (\<lambda>xs. strip_padding v (nat (start_index v + 1)) (to_octets B xs))"

section \<open>Bits\<close>

text \<open>The bits of a number, most significant first, and back.\<close>

fun bits :: "nat \<Rightarrow> nat \<Rightarrow> bool list" where
  "bits 0 v = []"
| "bits (Suc n) v = bits n (v div 2) @ [odd v]"

definition unbits :: "bool list \<Rightarrow> nat" where
  "unbits bs = foldl (\<lambda>n b. 2 * n + of_bool b) 0 bs"

abbreviation octet_bits :: "string \<Rightarrow> bool list" where
  "octet_bits s \<equiv> concat (map (\<lambda>c. bits 8 (of_char c)) s)"

abbreviation sextet_bits :: "nat list \<Rightarrow> bool list" where
  "sextet_bits xs \<equiv> concat (map (bits 6) xs)"

lemma length_bits [simp]: "length (bits n v) = n"
  by (induction n arbitrary: v) auto

lemma unbits_snoc [simp]: "unbits (bs @ [b]) = 2 * unbits bs + of_bool b"
  by (simp add: unbits_def)

lemma unbits_Nil [simp]: "unbits [] = 0"
  by (simp add: unbits_def)

lemma unbits_bits: "v < 2 ^ n \<Longrightarrow> unbits (bits n v) = v"
proof (induction n arbitrary: v)
  case 0
  then show ?case by simp
next
  case (Suc n)
  then have "v div 2 < 2 ^ n" by auto
  with Suc.IH show ?case by (simp add: odd_two_times_div_two_succ)
qed

lemma unbits_less: "unbits bs < 2 ^ length bs"
  by (induction bs rule: rev_induct) auto

lemma bits_unbits: "bits (length bs) (unbits bs) = bs"
  by (induction bs rule: rev_induct) auto

lemma bits_zero [simp]: "bits n 0 = replicate n False"
  by (induction n) (auto simp: replicate_append_same)

lemma length_concat_bits [simp]: "length (concat (map (\<lambda>x. bits n (f x)) xs)) = n * length xs"
  by (induction xs) auto

lemma concat_replicate_bits: "concat (replicate k (replicate n b)) = replicate (n * k) b"
  by (induction k) (auto simp: replicate_add)

lemma concat_bits_inj:
  assumes "\<And>x y. bits n (f x) = bits n (f y) \<Longrightarrow> x = y" and "0 < n"
    and "concat (map (\<lambda>x. bits n (f x)) xs) = concat (map (\<lambda>x. bits n (f x)) ys)"
  shows "xs = ys"
  using assms(3)
proof (induction xs arbitrary: ys)
  case Nil
  then show ?case using assms(2) by (cases ys) (auto dest: arg_cong [where f = length])
next
  case (Cons x xs)
  then obtain y ys' where ys: "ys = y # ys'"
    using assms(2) by (cases ys) (auto dest: arg_cong [where f = length])
  with Cons show ?case using assms(1) by auto
qed

lemma of_char_less: "(of_char c :: nat) < 2 ^ 8"
  using nat_of_char_less_256 [of c] by simp

lemma octet_bits_inj: "octet_bits s = octet_bits t \<Longrightarrow> s = t"
proof (rule concat_bits_inj)
  show "x = y" if "bits 8 (of_char x) = bits 8 (of_char y)" for x y :: char
  proof -
    from that have "(of_char x :: nat) = of_char y"
      using unbits_bits [OF of_char_less] by metis
    then show ?thesis by simp
  qed
qed simp_all

section \<open>The adaptors\<close>

locale base64_laws =
  fixes B :: b64
  assumes sextets_bits: "sextet_bits (to_sextets B s) =
      octet_bits s @ replicate (6 * length (to_sextets B s) - 8 * length s) False"
    and sextets_length: "length (to_sextets B s) = (8 * length s + 5) div 6"
    and sextets_less: "x \<in> set (to_sextets B s) \<Longrightarrow> x < 64"
    and octets_bits: "8 dvd 6 * length xs \<Longrightarrow> list_all (\<lambda>x. x < 64) xs \<Longrightarrow>
      octet_bits (to_octets B xs) = sextet_bits xs"
    and from_to_char: "x < 64 \<Longrightarrow> from_char B (to_char B x) = Some x"
    and to_char_not_pad: "x < 64 \<Longrightarrow> to_char B x \<noteq> CHR ''=''"
    and from_pad: "from_char B CHR ''='' = Some 0"
begin

lemma sextets_of_append:
  "sextets_of B (s @ t) = bind_outcome (sextets_of B s) (\<lambda>xs.
     bind_outcome (sextets_of B t) (\<lambda>ys. Inr (xs @ ys)))"
proof (induction s)
  case Nil
  then show ?case by (cases "sextets_of B t") auto
next
  case (Cons c s)
  then show ?case
    by (cases "sextets_of B s"; cases "sextets_of B t") (auto split: option.split)
qed

lemma sextets_of_map: "list_all (\<lambda>x. x < 64) xs \<Longrightarrow> sextets_of B (map (to_char B) xs) = Inr xs"
  by (induction xs) (auto simp: from_to_char)

lemma sextets_of_pad: "sextets_of B (replicate n CHR ''='') = Inr (replicate n 0)"
  by (induction n) (auto simp: from_pad)

lemma sextets_of_encode:
  "sextets_of B (base64_encode B s) = Inr (to_sextets B s @ replicate ((3 - length s mod 3) mod 3) 0)"
  using sextets_less
  by (simp add: base64_encode_def sextets_of_append sextets_of_pad sextets_of_map list_all_iff)

end


text \<open>The number of octets the padded text stands for, and the decoder's loop.\<close>

lemma mod3_cases:
  fixes n :: nat
  obtains k where "n = 3 * k" | k where "n = 3 * k + 1" | k where "n = 3 * k + 2"
proof -
  have "n = 3 * (n div 3) + n mod 3" by simp
  moreover have "n mod 3 < 3" by simp
  ultimately show thesis using that
    by (metis One_nat_def add_0_right less_2_cases_iff less_Suc_eq numeral_2_eq_2 numeral_3_eq_3)
qed
lemma padded_length:
  "(8 * n + 5) div 6 + (3 - n mod 3) mod 3 = 4 * ((n + 2) div 3)" for n :: nat
proof (cases n rule: mod3_cases)
  case (1 k)
  have "(8 * n + 5) div 6 = 4 * k" "(n + 2) div 3 = k" unfolding 1 by arith+
  with 1 show ?thesis by simp
next
  case (2 k)
  have "(8 * n + 5) div 6 = 4 * k + 2" "(n + 2) div 3 = k + 1" "n mod 3 = 1" unfolding 2 by arith+
  then show ?thesis by simp
next
  case (3 k)
  have "(8 * n + 5) div 6 = 4 * k + 3" "(n + 2) div 3 = k + 1" "n mod 3 = 2" unfolding 3 by arith+
  then show ?thesis by simp
qed

lemma padded_octets: "3 * ((n + 2) div 3) = n + (3 - n mod 3) mod 3" for n :: nat
proof (cases n rule: mod3_cases)
  case (1 k)
  have "(n + 2) div 3 = k" unfolding 1 by arith
  with 1 show ?thesis by simp
next
  case (2 k)
  have "(n + 2) div 3 = k + 1" "n mod 3 = 1" unfolding 2 by arith+
  with 2 show ?thesis by simp
next
  case (3 k)
  have "(n + 2) div 3 = k + 1" "n mod 3 = 2" unfolding 3 by arith+
  with 3 show ?thesis by simp
qed
lemma start_index: "length v \<le> 2147483648 \<Longrightarrow> start_index v = int (length v) - 1"
  unfolding start_index_def sint_sbintrunc' by (rule signed_take_bit_int_eq_self) simp_all

lemma strip_padding_snoc:
  "i \<le> length v \<Longrightarrow> strip_padding (v @ w) i r = strip_padding v i r"
  by (induction i arbitrary: r) (auto simp: nth_append)

lemma strip_padding_pads:
  assumes "v = [] \<or> last v \<noteq> CHR ''=''"
  shows "strip_padding (v @ replicate n CHR ''='') (length v + n) (r @ replicate n c) = Inr r"
proof (induction n)
  case 0
  show ?case using assms by (cases v rule: rev_cases) auto
next
  case (Suc n)
  have "replicate (Suc n) x = replicate n x @ [x]" for x :: char
    by (simp add: replicate_append_same)
  with Suc show ?case
    by (simp add: nth_append butlast_append strip_padding_snoc flip: append_assoc)
qed

context base64_laws
begin

lemma length_encode: "length (base64_encode B s) = 4 * ((length s + 2) div 3)"
  using padded_length [of "length s"] by (simp add: base64_encode_def sextets_length)

lemma octets_of_encode:
  "to_octets B (to_sextets B s @ replicate ((3 - length s mod 3) mod 3) 0) =
     s @ replicate ((3 - length s mod 3) mod 3) CHR 0x00" (is "to_octets B ?xs = ?t")
proof (rule octet_bits_inj)
  let ?n = "length s" and ?p = "(3 - length s mod 3) mod 3"
  have len: "length ?xs = 4 * ((?n + 2) div 3)"
    using padded_length [of ?n] by (simp add: sextets_length)
  have pad: "6 * length (to_sextets B s) - 8 * ?n + 6 * ?p = 8 * ?p"
  proof -
    have "6 * length (to_sextets B s) + 6 * ?p = 24 * ((?n + 2) div 3)"
      using padded_length [of ?n] by (simp add: sextets_length)
    moreover have "8 * ?n \<le> 6 * length (to_sextets B s)" by (simp add: sextets_length)
    moreover have "3 * ((?n + 2) div 3) = ?n + ?p" by (rule padded_octets)
    ultimately show ?thesis by linarith
  qed
  have "octet_bits (to_octets B ?xs) = sextet_bits ?xs"
  proof (rule octets_bits)
    show "8 dvd 6 * length ?xs" unfolding len by simp
    show "list_all (\<lambda>x. x < 64) ?xs" using sextets_less by (auto simp: list_all_iff)
  qed
  also have "sextet_bits ?xs =
      octet_bits s @ replicate (6 * length (to_sextets B s) - 8 * ?n + 6 * ?p) False"
    by (simp add: sextets_bits replicate_add concat_replicate_bits)
  also have "\<dots> = octet_bits ?t"
    by (simp only: pad) (simp add: concat_replicate_bits)
  finally show "octet_bits (to_octets B ?xs) = octet_bits ?t" .
qed

lemma decode_encode:
  assumes "length s \<le> 1610612736"
  shows "base64_decode B (base64_encode B s) = Inr s"
proof -
  let ?v = "base64_encode B s" and ?p = "(3 - length s mod 3) mod 3"
  let ?w = "map (to_char B) (to_sextets B s)"
  have "length ?v \<le> 2147483648" using assms by (simp add: length_encode)
  then have "nat (start_index ?v + 1) = length ?v"
    by (simp add: start_index)
  also have "length ?v = length ?w + ?p" by (simp add: base64_encode_def)
  finally have start: "nat (start_index ?v + 1) = length ?w + ?p" .
  have "?w = [] \<or> last ?w \<noteq> CHR ''=''"
    using sextets_less to_char_not_pad by (metis last_map last_in_set map_is_Nil_conv)
  then have "strip_padding (?w @ replicate ?p CHR ''='') (length ?w + ?p)
      (s @ replicate ?p CHR 0x00) = Inr s"
    by (rule strip_padding_pads)
  then show ?thesis
    unfolding base64_decode_def start by (simp add: sextets_of_encode octets_of_encode)
      (simp add: base64_encode_def)
qed

end


section \<open>The alphabet of RFC 4648\<close>

text \<open>
  The adaptors as RFC 4648 describes them: bits regrouped in runs of six and eight, the last
  run of six filled with zeros, and the alphabet \<open>A-Z a-z 0-9 + /\<close>. They satisfy the laws, so
  the laws are consistent; witnesses use them.
\<close>

function chunks :: "nat \<Rightarrow> 'a list \<Rightarrow> 'a list list" where
  "chunks k xs = (if k = 0 \<or> xs = [] then [] else take k xs # chunks k (drop k xs))"
  by pat_completeness auto
termination
  by (relation "measure (\<lambda>(k, xs). length xs)") auto

declare chunks.simps [simp del]

definition alphabet :: string where
  "alphabet = map char_of ([65..<91] @ [97..<123] @ [48..<58] @ [43, 47 :: nat])"

fun index_of :: "char \<Rightarrow> string \<Rightarrow> nat option" where
  "index_of c [] = None"
| "index_of c (d # ds) = (if c = d then Some 0 else map_option Suc (index_of c ds))"

definition rfc4648 :: b64 where
  "rfc4648 = \<lparr>to_sextets = (\<lambda>s. map unbits (chunks 6
       (octet_bits s @ replicate (6 * ((8 * length s + 5) div 6) - 8 * length s) False))),
     to_octets = (\<lambda>xs. map (\<lambda>b. char_of (unbits b)) (chunks 8 (sextet_bits xs))),
     to_char = (\<lambda>x. alphabet ! x),
     from_char = (\<lambda>c. if c = CHR ''='' then Some 0 else index_of c alphabet)\<rparr>"

lemma chunks_multiple:
  assumes "0 < k" and "length xs = k * n"
  shows "length (chunks k xs) = n \<and> concat (chunks k xs) = xs \<and>
    (\<forall>c \<in> set (chunks k xs). length c = k)"
  using assms(2)
proof (induction n arbitrary: xs)
  case 0
  then show ?case by (simp add: chunks.simps)
next
  case (Suc n)
  from Suc.prems assms(1) have step: "chunks k xs = take k xs # chunks k (drop k xs)"
    by (subst chunks.simps) auto
  have "length (drop k xs) = k * n" using Suc.prems by simp
  from Suc.IH [OF this] Suc.prems show ?case
    unfolding step by (simp add: append_take_drop_id)
qed

lemma map_bits_unbits: "\<forall>c \<in> set cs. length c = n \<Longrightarrow> map (bits n) (map unbits cs) = cs"
  using bits_unbits by (induction cs) auto

lemma alphabet_facts: "length alphabet = 64" "distinct alphabet" "CHR ''='' \<notin> set alphabet"
proof -
  have i: "inj_on (char_of :: nat \<Rightarrow> char) {0..<256}" by (rule inj_on_char_of_nat)
  show "length alphabet = 64" by (simp add: alphabet_def)
  show "distinct alphabet"
    unfolding alphabet_def distinct_map by (auto intro: inj_on_subset [OF i])
  have "(of_char CHR ''='' :: nat) = 61" by simp
  then have "CHR ''='' = char_of (61 :: nat)" by (metis char_of_char)
  moreover have "(61 :: nat) \<notin> set ([65..<91] @ [97..<123] @ [48..<58] @ [43, 47])" by simp
  ultimately show "CHR ''='' \<notin> set alphabet"
    unfolding alphabet_def by (auto dest!: inj_onD [OF i])
qed

lemma index_of_nth: "distinct cs \<Longrightarrow> i < length cs \<Longrightarrow> index_of (cs ! i) cs = Some i"
proof (induction cs arbitrary: i)
  case Nil
  then show ?case by simp
next
  case (Cons d ds)
  then show ?case by (cases i) auto
qed

interpretation rfc: base64_laws rfc4648
proof
  fix s :: string and x :: nat
  let ?bl = "octet_bits s @ replicate (6 * ((8 * length s + 5) div 6) - 8 * length s) False"
  have "length ?bl = 6 * ((8 * length s + 5) div 6)" by simp
  note c = chunks_multiple [OF _ this]
  show len: "length (to_sextets rfc4648 s) = (8 * length s + 5) div 6"
    using c by (simp add: rfc4648_def)
  have "sextet_bits (to_sextets rfc4648 s) = ?bl"
    using c map_bits_unbits [of "chunks 6 ?bl" 6] by (simp add: rfc4648_def)
  then show "sextet_bits (to_sextets rfc4648 s) =
      octet_bits s @ replicate (6 * length (to_sextets rfc4648 s) - 8 * length s) False"
    by (simp only: len)
  show "x < 64" if "x \<in> set (to_sextets rfc4648 s)"
  proof -
    from that obtain b where "b \<in> set (chunks 6 ?bl)" "x = unbits b" by (auto simp: rfc4648_def)
    then show ?thesis using c unbits_less [of b] by simp
  qed
next
  fix xs :: "nat list" assume "8 dvd 6 * length xs"
  then obtain n where "6 * length xs = 8 * n" by blast
  then have "length (sextet_bits xs) = 8 * n" by (simp add: length_concat comp_def sum_list_triv)
  note c = chunks_multiple [OF _ this]
  have "bits 8 (of_char (char_of (unbits b) :: char)) = b" if "b \<in> set (chunks 8 (sextet_bits xs))" for b
  proof -
    from that c have "length b = 8" by simp
    then show ?thesis using unbits_less [of b] bits_unbits [of b] by simp
  qed
  then have "map (\<lambda>c. bits 8 (of_char c)) (to_octets rfc4648 xs) = chunks 8 (sextet_bits xs)"
    by (simp add: rfc4648_def map_idI)
  then show "octet_bits (to_octets rfc4648 xs) = sextet_bits xs"
    using c by simp
next
  fix x :: nat assume "x < 64"
  then have "alphabet ! x \<noteq> CHR ''='' \<and> index_of (alphabet ! x) alphabet = Some x"
    using alphabet_facts index_of_nth [of alphabet x] nth_mem [of x alphabet] by metis
  then show "from_char rfc4648 (to_char rfc4648 x) = Some x" and "to_char rfc4648 x \<noteq> CHR ''=''"
    by (simp_all add: rfc4648_def)
next
  show "from_char rfc4648 CHR ''='' = Some 0" by (simp add: rfc4648_def)
qed

section \<open>Properties\<close>

text \<open>C29: Decoding what was encoded gives the bytes back, for every string up to 1.5 GiB (its
  encoding then has at most 2^31 characters, and the \<open>int\<close> index of the padding loop is exact).\<close>

theorem base64_roundtrip:
  assumes "base64_laws B" and "length s \<le> 1610612736"
  shows "base64_decode B (base64_encode B s) = Inr s"
  using assms by (rule base64_laws.decode_encode)

theorem base64_roundtrip_witness:
  "base64_decode rfc4648 (base64_encode rfc4648 ''any bytes'') = Inr ''any bytes''"
  by (rule base64_roundtrip [OF rfc.base64_laws_axioms]) simp

text \<open>The encoding of \<open>n\<close> bytes has four characters per started group of three, and \<open>=\<close>
  occurs only as the padding at its end.\<close>

theorem base64_encode_shape:
  assumes "base64_laws B"
  shows "length (base64_encode B s) = 4 * ((length s + 2) div 3) \<and>
    (\<exists>t. base64_encode B s = t @ replicate ((3 - length s mod 3) mod 3) CHR ''='' \<and> CHR ''='' \<notin> set t)"
proof -
  have "CHR ''='' \<notin> set (map (to_char B) (to_sextets B s))"
    using base64_laws.sextets_less [OF assms] base64_laws.to_char_not_pad [OF assms] by fastforce
  then show ?thesis
    using base64_laws.length_encode [OF assms, of s] by (auto simp: base64_encode_def)
qed


theorem base64_encode_shape_witness:
  "length (base64_encode rfc4648 ''aaaa'') = 8"
  using base64_encode_shape [OF rfc.base64_laws_axioms, of "''aaaa''"] by simp

text \<open>Text made of padding only drives the decoder into undefined behaviour: for \<open>====\<close> the
  three zero octets are popped by four \<open>=\<close>, the last pop on an empty string.\<close>

theorem base64_decode_padding_only:
  assumes "base64_laws B"
  shows "base64_decode B ''===='' = Inl (Undefined ''pop_back on an empty string'')"
proof -
  have "octet_bits (to_octets B [0, 0, 0, 0]) = octet_bits (replicate 3 CHR 0x00)"
    using base64_laws.octets_bits [OF assms, of "[0, 0, 0, 0]"]
    by (simp add: concat_replicate_bits flip: replicate_add)
  then have "to_octets B [0, 0, 0, 0] = replicate 3 CHR 0x00" by (rule octet_bits_inj)
  moreover have "sextets_of B ''===='' = Inr [0, 0, 0, 0]"
    using base64_laws.from_pad [OF assms] by simp
  moreover have "nat (start_index ''===='' + 1) = 4" by (simp add: start_index)
  ultimately show ?thesis by (simp add: base64_decode_def numeral_eq_Suc)
qed

theorem base64_decode_padding_only_witness:
  "base64_decode rfc4648 ''===='' = Inl (Undefined ''pop_back on an empty string'')"
  by (rule base64_decode_padding_only [OF rfc.base64_laws_axioms])

end
