(* ===== verification/Callbacks.thy ===== *)
theory Callbacks
  imports Prelude "HOL-Library.Multiset"
begin

text \<open>
  The contract that the asynchronous components share (\<open>Resolver\<close>, \<open>Ares\<close>, the callback queue
  of \<open>EventServer\<close>): a step may register callbacks and may call some, and every registered
  callback is called once or is still pending. The locale states it for one step; what clients
  rely on is the consequence for whole runs, proved once here.
\<close>

text \<open>What a table of waiting callbacks holds in all, when one entry changes.\<close>

lemma sum_dom_upd:
  fixes g :: "'i option \<Rightarrow> 'a multiset"
  assumes "finite (dom m)" and "g None = {#}"
  shows "(\<Sum>n \<in> dom (m(k \<mapsto> i)). g ((m(k \<mapsto> i)) n)) + g (m k) = (\<Sum>n \<in> dom m. g (m n)) + g (Some i)"
proof -
  let ?D = "dom m - {k}"
  have "(\<Sum>n \<in> dom (m(k \<mapsto> i)). g ((m(k \<mapsto> i)) n)) = (\<Sum>n \<in> insert k ?D. g ((m(k \<mapsto> i)) n))"
    by (rule sum.cong) auto
  also have "\<dots> = g (Some i) + (\<Sum>n \<in> ?D. g ((m(k \<mapsto> i)) n))"
    using assms(1) by (subst sum.insert) auto
  also have "(\<Sum>n \<in> ?D. g ((m(k \<mapsto> i)) n)) = (\<Sum>n \<in> ?D. g (m n))"
    by (rule sum.cong) auto
  moreover have "(\<Sum>n \<in> dom m. g (m n)) = g (m k) + (\<Sum>n \<in> ?D. g (m n))"
  proof (cases "k \<in> dom m")
    case True
    then show ?thesis using assms(1) by (simp add: sum.remove)
  next
    case False
    then have "m k = None" by auto
    with False assms(2) show ?thesis by simp
  qed
  ultimately show ?thesis by (simp add: ac_simps)
qed

text \<open>\<open>run_of step s s' reg called\<close>: some steps lead from \<open>s\<close> to \<open>s'\<close>, registering \<open>reg\<close> and calling
  \<open>called\<close>, in these orders.\<close>

inductive run_of ::
  "('s \<Rightarrow> 's \<Rightarrow> 'cb list \<Rightarrow> 'cb list \<Rightarrow> bool) \<Rightarrow> 's \<Rightarrow> 's \<Rightarrow> 'cb list \<Rightarrow> 'cb list \<Rightarrow> bool"
  for step
where
  run_refl: "run_of step s s [] []"
| run_step: "run_of step s t reg called \<Longrightarrow> step t u reg' called' \<Longrightarrow>
     run_of step s u (reg @ reg') (called @ called')"

lemma run_stepI:
  "run_of step s t reg called \<Longrightarrow> step t u reg' called' \<Longrightarrow> R = reg @ reg' \<Longrightarrow> C = called @ called' \<Longrightarrow>
   run_of step s u R C"
  by (simp add: run_step)

lemma run_consI:
  "run_of step t u reg called \<Longrightarrow> step s t reg' called' \<Longrightarrow> run_of step s u (reg' @ reg) (called' @ called)"
proof (induction rule: run_of.induct)
  case (run_refl t)
  from run_of.run_refl [of step s] run_refl show ?case by (rule run_stepI) simp_all
next
  case (run_step t u reg called v reg'' called'')
  from run_step.IH [OF run_step.prems] run_step.hyps(2) show ?case by (rule run_stepI) simp_all
qed

lemma run_one: "step s t reg called \<Longrightarrow> run_of step s t reg called"
  using run_of.run_step [OF run_of.run_refl] by fastforce

lemma run_trans:
  "run_of step t u reg' called' \<Longrightarrow> run_of step s t reg called \<Longrightarrow> run_of step s u (reg @ reg') (called @ called')"
proof (induction rule: run_of.induct)
  case (run_step t u reg' called' v reg'' called'')
  from run_of.run_step [OF run_step.IH [OF run_step.prems] run_step.hyps(2)] show ?case by simp
qed simp

locale callback_service =
  fixes step :: "'s \<Rightarrow> 's \<Rightarrow> 'cb list \<Rightarrow> 'cb list \<Rightarrow> bool"
    and inv :: "'s \<Rightarrow> bool"
    and pending :: "'s \<Rightarrow> 'cb multiset"
  assumes step_inv: "step s t reg called \<Longrightarrow> inv s \<Longrightarrow> inv t"
    and step_once: "step s t reg called \<Longrightarrow> inv s \<Longrightarrow>
      pending t + mset called = pending s + mset reg"
begin

lemma run_inv: "run_of step s t reg called \<Longrightarrow> inv s \<Longrightarrow> inv t"
  by (induction rule: run_of.induct) (auto intro: step_inv)

lemma run_once:
  "run_of step s t reg called \<Longrightarrow> inv s \<Longrightarrow> pending t + mset called = pending s + mset reg"
proof (induction rule: run_of.induct)
  case (run_refl s)
  then show ?case by simp
next
  case (run_step s t reg called u reg' called')
  then have "pending u + mset called' = pending t + mset reg'"
    by (intro step_once) (auto intro: run_inv)
  then have "pending u + mset called' + mset called = pending t + mset called + mset reg'"
    by (simp add: ac_simps)
  also have "\<dots> = pending s + mset reg + mset reg'" using run_step by simp
  finally show ?case by (simp add: ac_simps)
qed

text \<open>Nothing is called that was not registered, and at most as often.\<close>

lemma called_registered:
  "run_of step s t reg called \<Longrightarrow> inv s \<Longrightarrow> pending s = {#} \<Longrightarrow> mset called \<subseteq># mset reg"
  using run_once by (metis add.left_neutral mset_subset_eq_add_right)

text \<open>When nothing is pending any more, every registered callback was called exactly once.\<close>

lemma all_called:
  "run_of step s t reg called \<Longrightarrow> inv s \<Longrightarrow> pending s = {#} \<Longrightarrow> pending t = {#} \<Longrightarrow>
   mset called = mset reg"
  using run_once [of s t reg called] by simp

end

text \<open>
  A service whose callbacks wait in one queue and are called in its order. It is a callback
  service whose pending callbacks are those in the queue.
\<close>

locale fifo_service =
  fixes step :: "'s \<Rightarrow> 's \<Rightarrow> 'cb list \<Rightarrow> 'cb list \<Rightarrow> bool"
    and inv :: "'s \<Rightarrow> bool"
    and queue :: "'s \<Rightarrow> 'cb list"
  assumes fifo_inv: "step s t reg called \<Longrightarrow> inv s \<Longrightarrow> inv t"
    and fifo_step: "step s t reg called \<Longrightarrow> inv s \<Longrightarrow> called @ queue t = queue s @ reg"

sublocale fifo_service < callback_service step inv "\<lambda>s. mset (queue s)"
proof unfold_locales
  fix s t reg called
  assume a: "step s t reg called" "inv s"
  show "inv t" using fifo_inv [OF a] .
  have "mset (called @ queue t) = mset (queue s @ reg)" using fifo_step [OF a] by simp
  then show "mset (queue t) + mset called = mset (queue s) + mset reg" by (simp add: add.commute)
qed

context fifo_service
begin

text \<open>The queue is first in, first out over whole runs.\<close>

lemma run_fifo:
  "run_of step s t reg called \<Longrightarrow> inv s \<Longrightarrow> called @ queue t = queue s @ reg"
proof (induction rule: run_of.induct)
  case (run_step s t reg called u reg' called')
  from run_step.hyps(1) run_step.prems have "inv t" by (rule run_inv)
  from fifo_step [OF run_step.hyps(2) this] run_step.IH [OF run_step.prems]
  show ?case by (metis append.assoc)
qed simp

end

text \<open>
  A service that implements an abstract one: \<open>abs\<close> maps its steps to steps of the specification
  that register and call the same. Runs are then runs of the specification.
\<close>

locale refined_service = callback_service step inv pending
  for step :: "'s \<Rightarrow> 's \<Rightarrow> 'cb list \<Rightarrow> 'cb list \<Rightarrow> bool" and inv pending +
  fixes astep :: "'a \<Rightarrow> 'a \<Rightarrow> 'cb list \<Rightarrow> 'cb list \<Rightarrow> bool"
    and abs_state :: "'s \<Rightarrow> 'a"
  assumes step_refines: "step s t reg called \<Longrightarrow> inv s \<Longrightarrow> astep (abs_state s) (abs_state t) reg called"
begin

lemma run_refines:
  "run_of step s t reg called \<Longrightarrow> inv s \<Longrightarrow> run_of astep (abs_state s) (abs_state t) reg called"
proof (induction rule: run_of.induct)
  case (run_refl s)
  show ?case by (rule run_of.run_refl)
next
  case (run_step s t reg called u reg' called')
  then have "inv t" by (blast intro: run_inv)
  with run_step show ?case by (blast intro: run_of.run_step step_refines)
qed

end

text \<open>
  A service that is never stuck before its goal: from every state of the invariant that is not a
  goal some step that registers nothing brings it nearer, by a measure. Then a goal can be reached
  from everywhere.
\<close>

locale progressing =
  fixes step :: "'s \<Rightarrow> 's \<Rightarrow> 'cb list \<Rightarrow> 'cb list \<Rightarrow> bool"
    and inv goal :: "'s \<Rightarrow> bool"
    and distance :: "'s \<Rightarrow> nat"
  assumes progress: "inv s \<Longrightarrow> \<not> goal s \<Longrightarrow> \<exists>t called. step s t [] called \<and> inv t \<and> distance t < distance s"
begin

lemma reaches_goal: "inv s \<Longrightarrow> \<exists>t called. run_of step s t [] called \<and> inv t \<and> goal t"
proof (induction "distance s" arbitrary: s rule: less_induct)
  case less
  show ?case
  proof (cases "goal s")
    case True
    have "run_of step s s [] []" by (rule run_refl)
    with less.prems True show ?thesis by blast
  next
    case False
    with less.prems progress obtain t called where t: "step s t [] called" "inv t" "distance t < distance s"
      by blast
    from less.hyps [OF t(3,2)] obtain u called' where "run_of step t u [] called'" "inv u" "goal u" by blast
    with run_consI [OF this(1) t(1)] show ?thesis by auto
  qed
qed

end

end
