(* ===== verification/Resolver.thy ===== *)
theory Resolver
  imports Callbacks Status Utils
begin

text \<open>
  \<open>base/Resolver.cpp\<close>: a caching name resolver. \<open>resolve\<close> runs in the caller's thread,
  \<open>ev_cb\<close> and the answer callback \<open>res_cb\<close> in the resolver's own; all three hold the mutex
  from start to end, so each is one atomic step. The callbacks of the clients are values of a
  type parameter; an operation returns the calls it makes, in order, with their arguments.
  The libevent resolver (\<open>evdns\<close>) is the environment: whether it accepts a request, and the
  answers it hands to \<open>res_cb\<close>, are inputs.
\<close>

section \<open>The code\<close>

datatype rstate = kNew | kExpired | kInProcessing | kDone

text \<open>
  \<open>ri_resolver\<close> says that the back pointer \<open>resolver\<close> has been set. \<open>expire\<close> is a \<open>time_t\<close>.
\<close>

record 'cb resolve_info =
  ri_resolver :: bool
  ri_name :: string
  ri_cbs :: "'cb list"
  ri_expire :: int
  ri_status :: status
  ri_addrs :: "string list"
  ri_state :: rstate

text \<open>
  A \<open>ResolveInfo*\<close> is the address of an element of \<open>resolve_infos\<close>; elements of an
  \<open>unordered_map\<close> do not move and are never erased here, so the key identifies the pointer.
\<close>

record 'cb resolver =
  r_tasks :: "string list"
  r_infos :: "string \<rightharpoonup> 'cb resolve_info"
  r_notified :: bool

type_synonym 'cb calls = "('cb \<times> string list \<times> status) list"

definition new_info :: "'cb resolve_info" where
  "new_info = \<lparr>ri_resolver = False, ri_name = [], ri_cbs = [], ri_expire = 0, ri_status = Status,
     ri_addrs = [], ri_state = kNew\<rparr>"

definition Resolver :: "'cb resolver" where
  "Resolver = \<lparr>r_tasks = [], r_infos = Map.empty, r_notified = False\<rparr>"

text \<open>The constructor, from what \<open>evthread_use_pthreads\<close> and \<open>event_add\<close> return.\<close>

definition new_resolver :: "int \<Rightarrow> int \<Rightarrow> 'cb resolver outcome" where
  "new_resolver pthreads added =
     (if pthreads = -1 then Inl CheckFailed else if added \<noteq> 0 then Inl CheckFailed else Inr Resolver)"

text \<open>
  The destructor, from what \<open>event_base_loopexit\<close> returns. \<open>evdns_base_free\<close> is told not to fail
  the requests that are open, so the callbacks that still wait are destroyed uncalled; the result
  lists them, name by name in the order \<open>names\<close> of the map.
\<close>

definition destroy_resolver :: "int \<Rightarrow> string list \<Rightarrow> 'cb resolver \<Rightarrow> 'cb list outcome" where
  "destroy_resolver exited names r =
     (if exited = -1 then Inl CheckFailed
      else Inr (concat (map (\<lambda>name. case r_infos r name of None \<Rightarrow> [] | Some i \<Rightarrow> ri_cbs i) names)))"

text \<open>\<open>resolve_infos[name]\<close>: a missing element is created.\<close>

definition info_at :: "string \<Rightarrow> 'cb resolver \<Rightarrow> 'cb resolve_info" where
  "info_at name r = (case r_infos r name of None \<Rightarrow> new_info | Some i \<Rightarrow> i)"

definition set_info :: "string \<Rightarrow> 'cb resolve_info \<Rightarrow> 'cb resolver \<Rightarrow> 'cb resolver" where
  "set_info name i r = r\<lparr>r_infos := (r_infos r)(name \<mapsto> i)\<rparr>"

text \<open>The shared tail of the cases \<open>kNew\<close> (which falls through) and \<open>kExpired\<close>.\<close>

definition enqueue :: "string \<Rightarrow> 'cb \<Rightarrow> 'cb resolve_info \<Rightarrow> 'cb resolver \<Rightarrow> 'cb resolver" where
  "enqueue name cb i r =
     (set_info name (i\<lparr>ri_state := kInProcessing, ri_cbs := ri_cbs i @ [cb]\<rparr>) r)
       \<lparr>r_tasks := r_tasks r @ [name], r_notified := True\<rparr>"

definition refresh :: "int \<Rightarrow> 'cb resolve_info \<Rightarrow> 'cb resolve_info" where
  "refresh now i =
     (if ri_state i = kDone \<and> ri_expire i < now then i\<lparr>ri_state := kExpired\<rparr> else i)"

definition resolve ::
  "timeval \<Rightarrow> string \<Rightarrow> 'cb \<Rightarrow> 'cb resolver \<Rightarrow> 'cb resolver \<times> 'cb calls" where
  "resolve tv name cb r =
     (let i = refresh (sint (now_in_secs tv)) (info_at name r) in
      case ri_state i of
        kNew \<Rightarrow> (enqueue name cb (i\<lparr>ri_resolver := True, ri_name := name\<rparr>) r, [])
      | kExpired \<Rightarrow> (enqueue name cb i r, [])
      | kInProcessing \<Rightarrow> (set_info name (i\<lparr>ri_cbs := ri_cbs i @ [cb]\<rparr>) r, [])
      | kDone \<Rightarrow> (set_info name i r, [(cb, ri_addrs i, ri_status i)]))"

text \<open>
  The notification callback hands every queued task to evdns; \<open>accepts\<close> says for which names
  \<open>evdns_base_resolve_ipv4\<close> returns a request. The result lists the names asked for, as C
  strings, in order.
\<close>

fun issue :: "(string \<Rightarrow> bool) \<Rightarrow> 'cb resolver \<Rightarrow> string list \<Rightarrow> string list outcome" where
  "issue accepts r [] = Inr []"
| "issue accepts r (t # ts) = (case r_infos r t of
      None \<Rightarrow> Inl (Undefined ''dangling ResolveInfo'')
    | Some i \<Rightarrow> if accepts (c_str (ri_name i))
        then bind_outcome (issue accepts r ts) (\<lambda>qs. Inr (c_str (ri_name i) # qs))
        else Inl CheckFailed)"

definition ev_cb :: "(string \<Rightarrow> bool) \<Rightarrow> 'cb resolver \<Rightarrow> ('cb resolver \<times> string list) outcome" where
  "ev_cb accepts r = bind_outcome (issue accepts r (r_tasks r))
     (\<lambda>qs. Inr (r\<lparr>r_tasks := [], r_notified := False\<rparr>, qs))"

text \<open>\<open>DNS_ERR_NONE\<close> and \<open>DNS_IPv4_A\<close> of \<open>event2/dns.h\<close>.\<close>

definition DNS_ERR_NONE :: int where "DNS_ERR_NONE = 0"
definition DNS_IPv4_A :: int where "DNS_IPv4_A = 1"

text \<open>An answer of evdns: the arguments of the callback, \<open>addresses\<close> holding \<open>count\<close> of them.\<close>

record answer =
  a_result :: int
  a_type :: int
  a_ttl :: int
  a_addresses :: "ipv4 list"

definition record_answer ::
  "(int \<Rightarrow> string) \<Rightarrow> int \<Rightarrow> answer \<Rightarrow> 'cb resolve_info \<Rightarrow> 'cb resolve_info" where
  "record_answer err_string now a i =
     (if a_result a = DNS_ERR_NONE
      then i\<lparr>ri_status := ok (ri_status i), ri_expire := now + a_ttl a,
             ri_addrs := map inet_ntop (a_addresses a)\<rparr>
      else i\<lparr>ri_status := append_msg (error (ri_status i)) (err_string (a_result a))\<rparr>)"

definition res_cb ::
  "(int \<Rightarrow> string) \<Rightarrow> timeval \<Rightarrow> answer \<Rightarrow> string \<Rightarrow> 'cb resolver \<Rightarrow>
   ('cb resolver \<times> 'cb calls) outcome" where
  "res_cb err_string tv a ptr r = (case r_infos r ptr of
      None \<Rightarrow> Inl (Undefined ''dangling ResolveInfo'')
    | Some i0 \<Rightarrow>
        if \<not> ri_resolver i0 then Inl (Undefined ''null resolver pointer'')
        else if a_type a \<noteq> DNS_IPv4_A then Inl CheckFailed
        else let i = record_answer err_string (sint (now_in_secs tv)) a i0 in
          Inr (set_info ptr (i\<lparr>ri_cbs := [], ri_state := kDone\<rparr>) r,
               map (\<lambda>cb. (cb, ri_addrs i, ri_status i)) (ri_cbs i)))"

section \<open>Steps\<close>

text \<open>
  The resolver beside the requests evdns has accepted and not answered. evdns calls back once
  for each accepted request (\<open>event2/dns.h\<close>), with the pointer it was given.
\<close>

type_synonym 'cb resolver_sys = "'cb resolver \<times> string list"

inductive resolver_step ::
  "'cb resolver_sys \<Rightarrow> 'cb resolver_sys \<Rightarrow> 'cb list \<Rightarrow> 'cb list \<Rightarrow> bool" where
  client: "resolve tv name cb r = (r', calls) \<Longrightarrow>
     resolver_step (r, fl) (r', fl) [cb] (map fst calls)"
| notify: "ev_cb accepts r = Inr (r', qs) \<Longrightarrow>
     resolver_step (r, fl) (r', fl @ r_tasks r) [] []"
| reply: "ptr \<in> set fl \<Longrightarrow> res_cb err_string tv a ptr r = Inr (r', calls) \<Longrightarrow>
     resolver_step (r, fl) (r', remove1 ptr fl) [] (map fst calls)"

inductive_cases resolver_stepE: "resolver_step (r, fl) s reg called"

section \<open>Invariant\<close>

definition info_ok :: "string \<Rightarrow> 'cb resolve_info \<Rightarrow> bool" where
  "info_ok name i \<longleftrightarrow> ri_resolver i \<and> ri_name i = name \<and>
     (ri_state i = kInProcessing \<and> ri_cbs i \<noteq> [] \<or> ri_state i = kDone \<and> ri_cbs i = [])"

fun resolver_inv :: "'cb resolver_sys \<Rightarrow> bool" where
  "resolver_inv (r, fl) \<longleftrightarrow> finite (dom (r_infos r)) \<and>
     (\<forall>name i. r_infos r name = Some i \<longrightarrow> info_ok name i) \<and>
     distinct (r_tasks r @ fl) \<and>
     (\<forall>name. name \<in> set (r_tasks r @ fl) \<longleftrightarrow>
        (\<exists>i. r_infos r name = Some i \<and> ri_state i = kInProcessing)) \<and>
     (r_tasks r \<noteq> [] \<longrightarrow> r_notified r)"

definition cbs_of :: "'cb resolve_info option \<Rightarrow> 'cb multiset" where
  "cbs_of o' = (case o' of None \<Rightarrow> {#} | Some i \<Rightarrow> mset (ri_cbs i))"

fun resolver_pending :: "'cb resolver_sys \<Rightarrow> 'cb multiset" where
  "resolver_pending (r, fl) = (\<Sum>name \<in> dom (r_infos r). cbs_of (r_infos r name))"

lemma sum_cbs_upd:
  "finite (dom m) \<Longrightarrow> (\<Sum>n \<in> dom (m(name \<mapsto> i)). cbs_of ((m(name \<mapsto> i)) n)) + cbs_of (m name) =
    (\<Sum>n \<in> dom m. cbs_of (m n)) + mset (ri_cbs i)"
  using sum_dom_upd [of m cbs_of name i] by (simp add: cbs_of_def)

lemma pending_set_info:
  assumes "finite (dom (r_infos r))"
  shows "resolver_pending (set_info name i r, fl) + cbs_of (r_infos r name) =
    resolver_pending (r, fl) + mset (ri_cbs i)"
  using sum_cbs_upd [OF assms, of name i] by (simp add: set_info_def)


text \<open>Updates of one entry, as the three kinds of step make them.\<close>

lemma inv_enqueue:
  assumes "resolver_inv (r, fl)" and "name \<notin> set (r_tasks r @ fl)"
    and "ri_resolver i" "ri_name i = name"
  shows "resolver_inv (enqueue name cb i r, fl)"
  using assms by (auto simp: enqueue_def set_info_def info_ok_def)

lemma pending_enqueue:
  assumes "resolver_inv (r, fl)" and "cbs_of (r_infos r name) = mset (ri_cbs i)"
  shows "resolver_pending (enqueue name cb i r, fl) = resolver_pending (r, fl) + {#cb#}"
proof -
  let ?i = "i\<lparr>ri_state := kInProcessing, ri_cbs := ri_cbs i @ [cb]\<rparr>"
  have "resolver_pending (enqueue name cb i r, fl) = resolver_pending (set_info name ?i r, fl)"
    by (simp add: enqueue_def)
  then have "resolver_pending (enqueue name cb i r, fl) + mset (ri_cbs i) =
      resolver_pending (r, fl) + (mset (ri_cbs i) + {#cb#})"
    using pending_set_info [of r name ?i fl] assms by simp
  then show ?thesis by (simp add: union_assoc [symmetric] union_commute)
qed

lemma inv_set_info:
  assumes "resolver_inv (r, fl)" and "info_ok name i"
    and "r_infos r name = Some j" "ri_state i = ri_state j"
  shows "resolver_inv (set_info name i r, fl)"
  using assms by (auto simp: set_info_def)

lemma resolve_enqueues:
  assumes "resolver_inv (r, fl)"
    and "r_infos r name = None \<or>
      (\<exists>i. r_infos r name = Some i \<and> ri_state i = kDone \<and> ri_expire i < sint (now_in_secs tv))"
  obtains i where "resolve tv name cb r = (enqueue name cb i r, [])" "ri_resolver i" "ri_name i = name"
    "cbs_of (r_infos r name) = mset (ri_cbs i)" "name \<notin> set (r_tasks r @ fl)"
  using assms(2)
proof
  assume n: "r_infos r name = None"
  show thesis
    by (rule that [of "new_info\<lparr>ri_resolver := True, ri_name := name\<rparr>"])
      (use n assms(1) in \<open>auto simp: resolve_def info_at_def refresh_def new_info_def cbs_of_def\<close>)
next
  assume "\<exists>i. r_infos r name = Some i \<and> ri_state i = kDone \<and> ri_expire i < sint (now_in_secs tv)"
  then obtain i where i: "r_infos r name = Some i" "ri_state i = kDone"
    "ri_expire i < sint (now_in_secs tv)" by blast
  then have "info_ok name i" using assms(1) by simp
  show thesis
    by (rule that [of "i\<lparr>ri_state := kExpired\<rparr>"])
      (use i assms(1) \<open>info_ok name i\<close> in
        \<open>auto simp: resolve_def info_at_def refresh_def cbs_of_def info_ok_def\<close>)
qed

lemma resolve_step:
  assumes inv: "resolver_inv (r, fl)" and res: "resolve tv name cb r = (r', calls)"
  shows "resolver_inv (r', fl) \<and>
    resolver_pending (r', fl) + mset (map fst calls) = resolver_pending (r, fl) + {#cb#}"
proof (cases "r_infos r name = None \<or>
    (\<exists>i. r_infos r name = Some i \<and> ri_state i = kDone \<and> ri_expire i < sint (now_in_secs tv))")
  case True
  obtain i where "resolve tv name cb r = (enqueue name cb i r, [])" "ri_resolver i" "ri_name i = name"
    "cbs_of (r_infos r name) = mset (ri_cbs i)" "name \<notin> set (r_tasks r @ fl)"
    by (rule resolve_enqueues [OF inv True])
  then show ?thesis using res inv_enqueue [OF inv] pending_enqueue [OF inv] by simp
next
  case False
  then obtain i where i: "r_infos r name = Some i" by auto
  have ok: "info_ok name i" using inv i by simp
  with False i have ref: "refresh (sint (now_in_secs tv)) i = i" by (simp add: refresh_def)
  have fin: "finite (dom (r_infos r))" using inv by simp
  show ?thesis
  proof (cases "ri_state i = kDone")
    case True
    with res i ref have "r' = set_info name i r" "calls = [(cb, ri_addrs i, ri_status i)]"
      by (auto simp: resolve_def info_at_def)
    then show ?thesis
      using inv_set_info [OF inv ok i] pending_set_info [OF fin, of name i fl] i
      by (simp add: cbs_of_def)
  next
    case False
    let ?i = "i\<lparr>ri_cbs := ri_cbs i @ [cb]\<rparr>"
    from False ok have st: "ri_state i = kInProcessing" by (auto simp: info_ok_def)
    with res i ref have "r' = set_info name ?i r" "calls = []"
      by (auto simp: resolve_def info_at_def)
    moreover have "info_ok name ?i" using ok st by (simp add: info_ok_def)
    ultimately show ?thesis
      using inv_set_info [OF inv _ i, of ?i] pending_set_info [OF fin, of name ?i fl] i
      by (simp add: cbs_of_def)
  qed
qed

lemma issue_infos: "issue accepts r ts = Inr qs \<Longrightarrow> set ts \<subseteq> dom (r_infos r)"
  by (induction ts arbitrary: qs) (auto simp: bind_outcome_Inr_iff split: option.splits if_splits)

lemma ev_cb_step:
  assumes "resolver_inv (r, fl)" and "ev_cb accepts r = Inr (r', qs)"
  shows "resolver_inv (r', fl @ r_tasks r) \<and>
    resolver_pending (r', fl @ r_tasks r) = resolver_pending (r, fl)"
proof -
  have r': "r' = r\<lparr>r_tasks := [], r_notified := False\<rparr>"
    using assms(2) by (auto simp: ev_cb_def bind_outcome_Inr_iff)
  have "set (fl @ r_tasks r) = set (r_tasks r @ fl)" by auto
  moreover have "distinct (fl @ r_tasks r)" using assms(1) by auto
  ultimately show ?thesis using assms(1) unfolding r' resolver_inv.simps resolver_pending.simps by simp
qed

lemma record_answer_simps [simp]:
  "ri_cbs (record_answer es now a i) = ri_cbs i" "ri_name (record_answer es now a i) = ri_name i"
  "ri_resolver (record_answer es now a i) = ri_resolver i"
  by (simp_all add: record_answer_def)

lemma res_cb_step:
  assumes inv: "resolver_inv (r, fl)" and ptr: "ptr \<in> set fl"
    and res: "res_cb es tv a ptr r = Inr (r', calls)"
  shows "resolver_inv (r', remove1 ptr fl) \<and>
    resolver_pending (r', remove1 ptr fl) + mset (map fst calls) = resolver_pending (r, fl)"
proof -
  from inv ptr obtain i0 where i0: "r_infos r ptr = Some i0" "ri_state i0 = kInProcessing"
    by auto
  then have ok: "info_ok ptr i0" using inv by simp
  define i where "i = (record_answer es (sint (now_in_secs tv)) a i0)\<lparr>ri_cbs := [], ri_state := kDone\<rparr>"
  from res i0 have r': "r' = set_info ptr i r" and calls: "map fst calls = ri_cbs i0"
    by (auto simp: res_cb_def i_def Let_def comp_def split: if_splits)
  have "info_ok ptr i" using ok by (simp add: info_ok_def i_def)
  then have "resolver_inv (set_info ptr i r, remove1 ptr fl)"
    using inv ptr i0 by (auto simp: set_info_def i_def distinct_remove1)
  moreover have "resolver_pending (set_info ptr i r, remove1 ptr fl) + mset (ri_cbs i0) =
      resolver_pending (r, fl)"
    using pending_set_info [of r ptr i] inv i0 by (simp add: cbs_of_def i_def)
  ultimately show ?thesis using r' calls by simp
qed

lemma resolver_step_ok:
  "resolver_step s t reg called \<Longrightarrow> resolver_inv s \<Longrightarrow>
   resolver_inv t \<and> resolver_pending t + mset called = resolver_pending s + mset reg"
proof (induction rule: resolver_step.induct)
  case (client tv name cb r r' calls fl)
  then show ?case using resolve_step [of r fl] by simp
next
  case (notify accepts r r' qs fl)
  then show ?case using ev_cb_step [of r fl] by simp
next
  case (reply ptr fl es tv a r r' calls)
  then show ?case using res_cb_step [of r fl] by simp
qed

interpretation rs: callback_service resolver_step resolver_inv resolver_pending
  by unfold_locales (auto dest: resolver_step_ok)

lemma resolver_inv_init: "resolver_inv (Resolver, [])" and resolver_pending_init:
  "resolver_pending (Resolver, []) = {#}"
  by (simp_all add: Resolver_def)


lemma reachable_inv: "run_of resolver_step (Resolver, []) (r, fl) reg called \<Longrightarrow> resolver_inv (r, fl)"
  by (rule rs.run_inv [OF _ resolver_inv_init])

text \<open>No step is stuck on a pointer: only evdns can make one fail.\<close>

lemma task_info:
  assumes "resolver_inv (r, fl)" and "name \<in> set (r_tasks r @ fl)"
  obtains i where "r_infos r name = Some i" "ri_resolver i" "ri_name i = name" "ri_state i = kInProcessing"
  using assms by (metis info_ok_def resolver_inv.simps)

lemma ev_cb_total:
  assumes "resolver_inv (r, fl)" and "\<forall>name \<in> set (r_tasks r). accepts (c_str name)"
  obtains r' qs where "ev_cb accepts r = Inr (r', qs)" "r_tasks r' = []"
proof -
  have "\<exists>qs. issue accepts r ts = Inr qs" if "set ts \<subseteq> set (r_tasks r)" for ts
    using that
  proof (induction ts)
    case Nil
    then show ?case by simp
  next
    case (Cons t ts)
    then have "t \<in> set (r_tasks r @ fl)" by simp
    with assms(1) obtain i where "r_infos r t = Some i" "ri_name i = t" by (rule task_info)
    with Cons assms(2) show ?case by auto
  qed
  with that show ?thesis by (fastforce simp: ev_cb_def)
qed

lemma ev_cb_refused:
  assumes "resolver_inv (r, fl)" and "\<not> (\<forall>name \<in> set (r_tasks r). accepts (c_str name))"
  shows "ev_cb accepts r = Inl CheckFailed"
proof -
  have "issue accepts r ts = Inl CheckFailed"
    if "set ts \<subseteq> set (r_tasks r)" "\<exists>name \<in> set ts. \<not> accepts (c_str name)" for ts
    using that
  proof (induction ts)
    case (Cons t ts)
    then have "t \<in> set (r_tasks r @ fl)" by simp
    with assms(1) obtain i where "r_infos r t = Some i" "ri_name i = t" by (rule task_info)
    with Cons show ?case by auto
  qed simp
  from this [of "r_tasks r"] assms(2) show ?thesis by (simp add: ev_cb_def)
qed

lemma res_cb_total:
  assumes "resolver_inv (r, fl)" and "ptr \<in> set fl" and "a_type a = DNS_IPv4_A"
  obtains r' calls where "res_cb err_string tv a ptr r = Inr (r', calls)" "r_tasks r' = r_tasks r"
proof -
  from assms(2) have "ptr \<in> set (r_tasks r @ fl)" by simp
  with assms(1) obtain i where "r_infos r ptr = Some i" "ri_resolver i" by (rule task_info)
  with assms(3) that show ?thesis by (simp add: res_cb_def Let_def set_info_def)
qed

text \<open>So the resolver comes to rest once the clients stop asking, if evdns accepts and answers.\<close>

fun at_rest :: "'cb resolver_sys \<Rightarrow> bool" where
  "at_rest (r, fl) \<longleftrightarrow> r_tasks r = [] \<and> fl = []"

fun outstanding :: "'cb resolver_sys \<Rightarrow> nat" where
  "outstanding (r, fl) = 2 * length (r_tasks r) + length fl"

lemma at_rest_pending:
  assumes "resolver_inv (r, fl)" and "at_rest (r, fl)"
  shows "resolver_pending (r, fl) = {#}"
  using assms by (auto intro!: sum.neutral simp: cbs_of_def info_ok_def split: option.split)

definition answer_a :: answer where
  "answer_a = \<lparr>a_result = DNS_ERR_NONE, a_type = DNS_IPv4_A, a_ttl = 60, a_addresses = [(10, 0, 0, 1)]\<rparr>"

lemma resolver_progress:
  assumes "resolver_inv s" and "\<not> at_rest s"
  shows "\<exists>t called. resolver_step s t [] called \<and> resolver_inv t \<and> outstanding t < outstanding s"
proof -
  obtain r fl where s: "s = (r, fl)" by (cases s)
  show ?thesis
  proof (cases fl)
    case Nil
    obtain r' qs where r': "ev_cb (\<lambda>_. True) r = Inr (r', qs)" "r_tasks r' = []"
      using assms(1) unfolding s by (rule ev_cb_total) auto
    then have "resolver_step s (r', fl @ r_tasks r) [] []" unfolding s by (intro notify)
    moreover from this assms(1) have "resolver_inv (r', fl @ r_tasks r)" by (rule rs.step_inv)
    moreover have "outstanding (r', fl @ r_tasks r) < outstanding s"
      using assms(2) Nil r'(2) by (simp add: s)
    ultimately show ?thesis by blast
  next
    case (Cons p ps)
    then have p: "p \<in> set fl" by simp
    obtain r' calls where r': "res_cb (\<lambda>_. []) \<lparr>tv_sec = 0, tv_usec = 0\<rparr> answer_a p r = Inr (r', calls)"
      "r_tasks r' = r_tasks r"
      using assms(1) p unfolding s by (rule res_cb_total) (auto simp: answer_a_def)
    then have "resolver_step s (r', remove1 p fl) [] (map fst calls)" unfolding s using p by (intro reply)
    moreover from this assms(1) have "resolver_inv (r', remove1 p fl)" by (rule rs.step_inv)
    moreover have "outstanding (r', remove1 p fl) < outstanding s" using Cons r'(2) by (simp add: s)
    ultimately show ?thesis by blast
  qed
qed

interpretation rs_live: progressing resolver_step resolver_inv at_rest outstanding
  by unfold_locales (rule resolver_progress)

text \<open>Two concrete runs, for the witnesses: one name asked for, then answered.\<close>

definition epoch :: timeval where
  "epoch = \<lparr>tv_sec = 0, tv_usec = 0\<rparr>"

lemma now_epoch [simp]: "sint (now_in_secs epoch) = 0"
  by (simp add: epoch_def now_in_secs_def now_in_usecs_def div64_def)

definition asked :: "nat resolver" where
  "asked = fst (resolve epoch ''h'' 7 Resolver)"

lemma asked_simps:
  "resolve epoch ''h'' 7 Resolver = (asked, [])"
  "r_tasks asked = [''h'']" "r_notified asked"
  "r_infos asked = [''h'' \<mapsto> \<lparr>ri_resolver = True, ri_name = ''h'', ri_cbs = [7], ri_expire = 0,
     ri_status = Status, ri_addrs = [], ri_state = kInProcessing\<rparr>]"
  by (simp_all add: asked_def resolve_def refresh_def info_at_def new_info_def Resolver_def
      enqueue_def set_info_def)

lemma asked_info:
  "r_infos asked ''h'' = Some \<lparr>ri_resolver = True, ri_name = ''h'', ri_cbs = [7], ri_expire = 0,
     ri_status = Status, ri_addrs = [], ri_state = kInProcessing\<rparr>"
  by (simp add: asked_simps)

lemma run_asked: "run_of resolver_step (Resolver, []) (asked, []) [7] []"
  by (rule run_stepI, rule run_refl, rule client, rule asked_simps) simp_all

lemma run_notified:
  "run_of resolver_step (Resolver, []) (asked\<lparr>r_tasks := [], r_notified := False\<rparr>, [''h'']) [7] []"
proof -
  have "ev_cb (\<lambda>_. True) asked = Inr (asked\<lparr>r_tasks := [], r_notified := False\<rparr>, [''h''])"
    by (simp add: ev_cb_def asked_simps c_str_def)
  then have "resolver_step (asked, []) (asked\<lparr>r_tasks := [], r_notified := False\<rparr>, [] @ r_tasks asked) [] []"
    by (rule notify)
  then have "resolver_step (asked, []) (asked\<lparr>r_tasks := [], r_notified := False\<rparr>, [''h'']) [] []"
    by (simp add: asked_simps)
  with run_asked show ?thesis by (rule run_stepI) simp_all
qed

lemma run_answered:
  "\<exists>r. run_of resolver_step (Resolver, []) (r, []) [7 :: nat] [7] \<and> r_tasks r = []"
proof -
  let ?r = "asked\<lparr>r_tasks := [], r_notified := False\<rparr>"
  obtain r' calls where res: "res_cb (\<lambda>_. []) epoch answer_a ''h'' ?r = Inr (r', calls)"
    "map fst calls = [7]" "r_tasks r' = []"
    by (simp add: res_cb_def asked_simps answer_a_def set_info_def record_answer_def)
  have "''h'' \<in> set [''h'']" by simp
  then have "resolver_step (?r, [''h'']) (r', remove1 ''h'' [''h'']) [] (map fst calls)"
    using res(1) by (rule reply)
  then have "resolver_step (?r, [''h'']) (r', []) [] [7]" by (simp add: res(2))
  with run_notified have "run_of resolver_step (Resolver, []) (r', []) [7] [7]"
    by (rule run_stepI) simp_all
  with res(3) show ?thesis by blast
qed

section \<open>Properties\<close>

text \<open>C18: In every reachable state each name being resolved is queued or asked of evdns exactly
  once, never both and never twice; every other name of the map is done and has no waiting
  callback; and a queued task is never left without a wake-up of the resolver thread.\<close>

theorem resolver_one_query_per_name:
  assumes "run_of resolver_step (Resolver, []) (r, fl) reg called"
  shows "distinct (r_tasks r @ fl) \<and>
    set (r_tasks r @ fl) = {name. \<exists>i. r_infos r name = Some i \<and> ri_state i = kInProcessing} \<and>
    (\<forall>name i. r_infos r name = Some i \<longrightarrow> ri_state i = kDone \<and> ri_cbs i = [] \<or>
       ri_state i = kInProcessing \<and> ri_cbs i \<noteq> []) \<and>
    (r_tasks r = [] \<or> r_notified r)"
  using reachable_inv [OF assms] by (auto simp: info_ok_def)

theorem resolver_one_query_per_name_witness:
  "distinct (r_tasks asked @ []) \<and> r_tasks asked = [''h''] \<and> (r_tasks asked = [] \<or> r_notified asked)"
  using resolver_one_query_per_name [OF run_asked] by (simp add: asked_simps)

text \<open>C4: Every callback passed to \<open>resolve\<close> is called at most once, and the calls made plus the
  callbacks still waiting are exactly the ones registered; when no name is queued or asked, each
  registered callback has been called exactly once.\<close>

theorem resolver_calls_exactly_once:
  assumes "run_of resolver_step (Resolver, []) (r, fl) reg called"
  shows "resolver_pending (r, fl) + mset called = mset reg \<and>
    (r_tasks r = [] \<and> fl = [] \<longrightarrow> mset called = mset reg)"
proof -
  have once: "resolver_pending (r, fl) + mset called = mset reg"
    using rs.run_once [OF assms resolver_inv_init] unfolding resolver_pending_init by simp
  moreover have "resolver_pending (r, fl) = {#}" if "r_tasks r = [] \<and> fl = []"
    using at_rest_pending [OF reachable_inv [OF assms]] that by simp
  ultimately show ?thesis by auto
qed

theorem resolver_calls_exactly_once_witness:
  "\<exists>r. run_of resolver_step (Resolver, []) (r, []) [7 :: nat] [7] \<and> mset [7 :: nat] = mset [7]"
proof -
  obtain r where r: "run_of resolver_step (Resolver, []) (r, []) [7 :: nat] [7]" "r_tasks r = []"
    using run_answered by blast
  with resolver_calls_exactly_once [OF r(1)] show ?thesis by blast
qed



text \<open>C17: No step of a reachable resolver touches a dangling or null pointer, and when it ends the process
  is known exactly: the notification callback does if and only if evdns refuses one of the queued
  names, the answer callback if and only if the answer is not of type A, whatever its result.\<close>

theorem resolver_memory_safe:
  assumes "run_of resolver_step (Resolver, []) (r, fl) reg called"
  shows "(if \<forall>name \<in> set (r_tasks r). accepts (c_str name) then \<exists>r' qs. ev_cb accepts r = Inr (r', qs)
      else ev_cb accepts r = Inl CheckFailed) \<and>
    (ptr \<in> set fl \<longrightarrow> (if a_type a = DNS_IPv4_A then \<exists>r' calls. res_cb es tv a ptr r = Inr (r', calls)
      else res_cb es tv a ptr r = Inl CheckFailed))"
proof -
  have inv: "resolver_inv (r, fl)" using assms by (rule reachable_inv)
  have "\<exists>r' qs. ev_cb accepts r = Inr (r', qs)" if "\<forall>name \<in> set (r_tasks r). accepts (c_str name)"
    using inv that by (rule ev_cb_total) blast
  moreover have "\<exists>r' calls. res_cb es tv a ptr r = Inr (r', calls)" if "ptr \<in> set fl" "a_type a = DNS_IPv4_A"
    using inv that by (rule res_cb_total) blast
  moreover have "res_cb es tv a ptr r = Inl CheckFailed" if "ptr \<in> set fl" "a_type a \<noteq> DNS_IPv4_A"
  proof -
    from that(1) have "ptr \<in> set (r_tasks r @ fl)" by simp
    with inv obtain i where "r_infos r ptr = Some i" "ri_resolver i" by (rule task_info)
    with that(2) show ?thesis by (simp add: res_cb_def)
  qed
  ultimately show ?thesis using ev_cb_refused [OF inv] by simp
qed

theorem resolver_memory_safe_witness:
  "\<exists>r' calls. res_cb (\<lambda>_. []) epoch answer_a ''h'' (asked\<lparr>r_tasks := [], r_notified := False\<rparr>) =
     Inr (r', calls)"
  using resolver_memory_safe [OF run_notified, where ptr = "''h''" and a = answer_a and es = "\<lambda>_. []"
      and tv = epoch]
  by (simp add: answer_a_def)

text \<open>C40: The cache policy of \<open>resolve\<close>. It answers at once exactly when the name is done and not
  expired, with the stored addresses and status and without changing anything; otherwise it
  calls nothing, appends the callback to those waiting for the name, and queues the name for a
  new query exactly when none is outstanding.\<close>

theorem resolve_cache_policy:
  assumes "run_of resolver_step (Resolver, []) (r, fl) reg called"
  shows "case r_infos r name of
      Some i \<Rightarrow>
        if ri_state i = kDone \<and> sint (now_in_secs tv) \<le> ri_expire i
        then resolve tv name cb r = (r, [(cb, ri_addrs i, ri_status i)])
        else (\<exists>r'. resolve tv name cb r = (r', []) \<and>
          ri_cbs (the (r_infos r' name)) = ri_cbs i @ [cb] \<and>
          r_tasks r' = (if ri_state i = kInProcessing then r_tasks r else r_tasks r @ [name]))
    | None \<Rightarrow> (\<exists>r'. resolve tv name cb r = (r', []) \<and> ri_cbs (the (r_infos r' name)) = [cb] \<and>
        r_tasks r' = r_tasks r @ [name])"
proof (cases "r_infos r name")
  case None
  then show ?thesis
    by (simp add: resolve_def info_at_def refresh_def new_info_def enqueue_def set_info_def)
next
  case (Some i)
  with reachable_inv [OF assms] have ok: "info_ok name i" by simp
  from Some have same: "set_info name i r = r" by (simp add: set_info_def map_upd_triv)
  show ?thesis
  proof (cases "ri_state i = kDone")
    case True
    with Some same show ?thesis
      by (simp add: resolve_def info_at_def refresh_def enqueue_def set_info_def)
  next
    case False
    with ok have "ri_state i = kInProcessing" by (auto simp: info_ok_def)
    with Some show ?thesis
      by (simp add: resolve_def info_at_def refresh_def set_info_def)
  qed
qed

theorem resolve_cache_policy_witness:
  "\<exists>r'. resolve epoch ''h'' 8 asked = (r', []) \<and> ri_cbs (the (r_infos r' ''h'')) = [7, 8] \<and>
     r_tasks r' = [''h'']"
  using resolve_cache_policy [OF run_asked, where name = "''h''" and cb = 8 and tv = epoch]
  by (simp add: asked_simps)

text \<open>A successful answer reaches every waiting callback, in the order they came, with the
  new addresses and a good status, and is reused until its time to live has passed: a later
  \<open>resolve\<close> of the name answers at once with the same addresses up to \<open>now + ttl\<close> and asks evdns
  again after that.\<close>

theorem resolver_success:
  assumes "r_infos r name = Some i" and "ri_resolver i" and "a_type a = DNS_IPv4_A"
    and "a_result a = DNS_ERR_NONE"
  shows "\<exists>r' s. res_cb es tv a name r =
      Inr (r', map (\<lambda>cb. (cb, map inet_ntop (a_addresses a), s)) (ri_cbs i)) \<and> is_ok s \<and>
    (if sint (now_in_secs tv') \<le> sint (now_in_secs tv) + a_ttl a
     then resolve tv' name cb r' = (r', [(cb, map inet_ntop (a_addresses a), s)])
     else \<exists>r''. resolve tv' name cb r' = (r'', []) \<and> r_tasks r'' = r_tasks r' @ [name])"
proof -
  define j where "j = i\<lparr>ri_status := ok (ri_status i), ri_expire := sint (now_in_secs tv) + a_ttl a,
    ri_addrs := map inet_ntop (a_addresses a), ri_cbs := [], ri_state := kDone\<rparr>"
  have "res_cb es tv a name r = Inr (set_info name j r,
      map (\<lambda>cb. (cb, map inet_ntop (a_addresses a), ok (ri_status i))) (ri_cbs i))"
    using assms by (simp add: res_cb_def record_answer_def j_def Let_def)
  moreover have "r_infos (set_info name j r) name = Some j" by (simp add: set_info_def)
  ultimately show ?thesis
    by (auto simp: resolve_def info_at_def refresh_def j_def status_simps set_info_def enqueue_def)
qed

theorem resolver_success_witness:
  "\<exists>r' s. res_cb (\<lambda>_. []) epoch answer_a ''h'' asked =
     Inr (r', [(7, [inet_ntop (10, 0, 0, 1)], s)]) \<and> is_ok s \<and>
     resolve epoch ''h'' 9 r' = (r', [(9, [inet_ntop (10, 0, 0, 1)], s)])"
  using resolver_success [OF asked_info, where a = answer_a and tv = epoch
      and tv' = epoch and cb = 9 and es = "\<lambda>_. []"]
  by (simp add: answer_a_def)

text \<open>A failed answer leaves the addresses and the expiry of the last good one in place: the
  waiting callbacks get a bad status together with the old addresses, and the failure is not
  cached beyond that expiry, so later \<open>resolve\<close> calls ask evdns again.\<close>

theorem resolver_failure_keeps_addresses:
  assumes "r_infos r name = Some i" and "ri_resolver i" and "a_type a = DNS_IPv4_A"
    and "a_result a \<noteq> DNS_ERR_NONE"
  shows "\<exists>r' s. res_cb es tv a name r = Inr (r', map (\<lambda>cb. (cb, ri_addrs i, s)) (ri_cbs i)) \<and>
    \<not> is_ok s \<and> st_msg s = es (a_result a) \<and>
    (ri_expire i < sint (now_in_secs tv') \<longrightarrow>
      (\<exists>r''. resolve tv' name cb r' = (r'', []) \<and> r_tasks r'' = r_tasks r' @ [name]))"
proof -
  define j where "j = i\<lparr>ri_status := append_msg (error (ri_status i)) (es (a_result a)),
    ri_cbs := [], ri_state := kDone\<rparr>"
  have "res_cb es tv a name r = Inr (set_info name j r,
      map (\<lambda>cb. (cb, ri_addrs i, ri_status j)) (ri_cbs i))"
    using assms by (simp add: res_cb_def record_answer_def j_def Let_def)
  moreover have "r_infos (set_info name j r) name = Some j" by (simp add: set_info_def)
  ultimately show ?thesis
    by (auto simp: resolve_def info_at_def refresh_def j_def status_simps set_info_def enqueue_def)
qed

text \<open>An answer whose type is not \<open>DNS_IPv4_A\<close> aborts the process before its result is looked
  at, so an error answer that carries no address type is fatal instead of reported.\<close>

theorem resolver_answer_type_checked_first:
  assumes "run_of resolver_step (Resolver, []) (r, fl) reg called" and "ptr \<in> set fl"
    and "a_type a \<noteq> DNS_IPv4_A"
  shows "res_cb es tv a ptr r = Inl CheckFailed"
proof -
  from assms(2) have "ptr \<in> set (r_tasks r @ fl)" by simp
  with reachable_inv [OF assms(1)] obtain i where "r_infos r ptr = Some i" "ri_resolver i"
    by (metis info_ok_def resolver_inv.simps)
  with assms(3) show ?thesis by (simp add: res_cb_def)
qed


theorem resolver_answer_type_checked_first_witness:
  "res_cb (\<lambda>_. []) epoch (answer_a\<lparr>a_result := 3, a_type := 0\<rparr>) ''h''
     (asked\<lparr>r_tasks := [], r_notified := False\<rparr>) = Inl CheckFailed"
  by (rule resolver_answer_type_checked_first [OF run_notified]) (simp_all add: DNS_IPv4_A_def)

theorem resolver_failure_keeps_addresses_witness:
  "\<exists>r' s. res_cb (\<lambda>_. ''x'') epoch (answer_a\<lparr>a_result := 3\<rparr>) ''h'' asked = Inr (r', [(7, [], s)]) \<and>
     st_msg s = ''x'' \<and> \<not> is_ok s"
  using resolver_failure_keeps_addresses [OF asked_info, where a = "answer_a\<lparr>a_result := 3\<rparr>" and tv = epoch
      and es = "\<lambda>_. ''x''" and tv' = epoch]
  by (auto simp: answer_a_def DNS_ERR_NONE_def)

end
