(* ===== verification/EventServer.thy ===== *)
theory EventServer
  imports Callbacks Utils
begin

unbundle bit_operations_syntax

text \<open>
  \<open>base/EventServer.cpp\<close>: timers, file descriptor events and a queue of asynchronous callbacks
  over libevent. libevent is not part of the repository: the operations the code calls are the
  fields of the parameter \<open>libevent\<close>, over an abstract \<open>event_base\<close>; the locale \<open>libevent\<close>
  states their documented behaviour. Client callbacks are values of a type parameter.
\<close>

section \<open>The libevent functions the code calls\<close>

text \<open>
  An \<open>event*\<close> is a number. \<open>event_new\<close> may return null; \<open>event_add\<close>, \<open>event_del\<close> and
  \<open>event_base_loopexit\<close> return -1 on failure. \<open>le_take\<close> is what the loop does to its base when it
  takes an event to run its callback.
\<close>

record 'eb libevent =
  le_use_pthreads :: int
  le_base_new :: 'eb
  le_new :: "'eb \<Rightarrow> int \<Rightarrow> int \<Rightarrow> nat \<Rightarrow> 'eb \<times> nat option"   \<comment> \<open>descriptor, flags, argument\<close>
  le_add :: "'eb \<Rightarrow> nat \<Rightarrow> timeval option \<Rightarrow> 'eb \<times> int"
  le_del :: "'eb \<Rightarrow> nat \<Rightarrow> 'eb \<times> int"
  le_active :: "'eb \<Rightarrow> nat \<Rightarrow> 'eb"
  le_free :: "'eb \<Rightarrow> nat \<Rightarrow> 'eb"
  le_loopexit :: "'eb \<Rightarrow> timeval \<Rightarrow> 'eb \<times> int"
  le_base_free :: "'eb \<Rightarrow> 'eb"
  le_take :: "'eb \<Rightarrow> nat \<Rightarrow> 'eb"

section \<open>The code\<close>

text \<open>Flags of \<open>EventServer.h\<close>.\<close>

definition READ :: int where "READ = 2"
definition WRITE :: int where "WRITE = 4"
definition PERSIST :: int where "PERSIST = 16"

text \<open>
  The only timer callback that is not a client's is the closure of the constructor, which
  drains the queue. A handle has both callback members; the unused one is an empty function.
\<close>

datatype 'cb timer_cb = DrainAsync | ClientTimer 'cb

datatype handle_type = kTimer | kFd

record 'cb handle =
  h_ev :: "nat option"
  h_type :: handle_type
  h_timer_cb :: "'cb timer_cb option"
  h_fd_cb :: "'cb option"

text \<open>
  A \<open>Handle*\<close> is a number, the address \<open>new Handle\<close> returned; \<open>handles_\<close> owns the handles, so a
  pointer that is not a key of it dangles. Addresses are not used twice.
\<close>

record ('cb, 'eb) event_server =
  es_eb :: 'eb
  es_handles :: "nat \<rightharpoonup> 'cb handle"
  es_next :: nat
  es_async_handle :: nat
  es_async_callbacks :: "'cb list"

definition new_handle ::
  "'eb libevent \<Rightarrow> int \<Rightarrow> int \<Rightarrow> 'cb handle \<Rightarrow> ('cb, 'eb) event_server \<Rightarrow>
   ('cb, 'eb) event_server \<times> nat" where
  "new_handle L fd flags hh es =
     (let h = es_next es; (eb, ev) = le_new L (es_eb es) fd flags h in
      (es\<lparr>es_eb := eb, es_handles := (es_handles es)(h \<mapsto> hh\<lparr>h_ev := ev\<rparr>), es_next := Suc h\<rparr>, h))"

definition add_timer ::
  "'eb libevent \<Rightarrow> 'cb timer_cb \<Rightarrow> int \<Rightarrow> ('cb, 'eb) event_server \<Rightarrow> ('cb, 'eb) event_server \<times> nat" where
  "add_timer L cb flags es = new_handle L (-1) flags
     \<lparr>h_ev = None, h_type = kTimer, h_timer_cb = Some cb, h_fd_cb = None\<rparr> es"

definition add_fd ::
  "'eb libevent \<Rightarrow> int \<Rightarrow> int \<Rightarrow> 'cb \<Rightarrow> ('cb, 'eb) event_server \<Rightarrow> ('cb, 'eb) event_server \<times> nat" where
  "add_fd L fd flags cb es = new_handle L fd flags
     \<lparr>h_ev = None, h_type = kFd, h_timer_cb = None, h_fd_cb = Some cb\<rparr> es"

definition EventServer :: "'eb libevent \<Rightarrow> ('cb, 'eb) event_server outcome" where
  "EventServer L =
     (if le_use_pthreads L = -1 then Inl CheckFailed
      else let (es, h) = add_timer L DrainAsync 0 \<lparr>es_eb = le_base_new L, es_handles = Map.empty,
             es_next = 1, es_async_handle = 0, es_async_callbacks = []\<rparr>
           in Inr (es\<lparr>es_async_handle := h\<rparr>))"

text \<open>\<open>h->ev\<close>, as an argument of a libevent function: libevent dereferences it.\<close>

definition event_of :: "nat \<Rightarrow> ('cb, 'eb) event_server \<Rightarrow> nat outcome" where
  "event_of h es = (case es_handles es h of
      None \<Rightarrow> Inl (Undefined ''dangling Handle'')
    | Some hh \<Rightarrow> (case h_ev hh of None \<Rightarrow> Inl (Undefined ''null event'') | Some ev \<Rightarrow> Inr ev))"

text \<open>\<open>CHECK_NE(rc, -1)\<close> after a call that also changes the base.\<close>

definition check_ne ::
  "'eb \<times> int \<Rightarrow> ('cb, 'eb) event_server \<Rightarrow> ('cb, 'eb) event_server outcome" where
  "check_ne r es = (if snd r = -1 then Inl CheckFailed else Inr (es\<lparr>es_eb := fst r\<rparr>))"

definition add_async ::
  "'eb libevent \<Rightarrow> 'cb \<Rightarrow> ('cb, 'eb) event_server \<Rightarrow> ('cb, 'eb) event_server outcome" where
  "add_async L cb es =
     (let es1 = es\<lparr>es_async_callbacks := es_async_callbacks es @ [cb]\<rparr> in
      bind_outcome (event_of (es_async_handle es1) es1)
        (\<lambda>ev. Inr (es1\<lparr>es_eb := le_active L (es_eb es1) ev\<rparr>)))"

definition remove ::
  "'eb libevent \<Rightarrow> nat \<Rightarrow> ('cb, 'eb) event_server \<Rightarrow> ('cb, 'eb) event_server outcome" where
  "remove L h es = bind_outcome (event_of h es) (\<lambda>ev.
     bind_outcome (check_ne (le_del L (es_eb es) ev) es) (\<lambda>es1.
       Inr (es1\<lparr>es_eb := le_free L (es_eb es1) ev, es_handles := (es_handles es1)(h := None)\<rparr>)))"

definition timeout_of :: "int64 \<Rightarrow> timeval" where
  "timeout_of ms = \<lparr>tv_sec = div64 ms 1000,
     tv_usec = word_of_int (sint ms smod 1000) * 1000\<rparr>"

definition start ::
  "'eb libevent \<Rightarrow> nat \<Rightarrow> int64 \<Rightarrow> ('cb, 'eb) event_server \<Rightarrow> ('cb, 'eb) event_server outcome" where
  "start L h ms es = bind_outcome (event_of h es) (\<lambda>ev.
     check_ne (le_add L (es_eb es) ev (if sint ms < 0 then None else Some (timeout_of ms))) es)"

definition stop ::
  "'eb libevent \<Rightarrow> nat \<Rightarrow> ('cb, 'eb) event_server \<Rightarrow> ('cb, 'eb) event_server outcome" where
  "stop L h es = bind_outcome (event_of h es) (\<lambda>ev. check_ne (le_del L (es_eb es) ev) es)"

definition exit_loop ::
  "'eb libevent \<Rightarrow> 32 word \<Rightarrow> ('cb, 'eb) event_server \<Rightarrow> ('cb, 'eb) event_server outcome" where
  "exit_loop L ms es = check_ne (le_loopexit L (es_eb es) (timeout_of (scast ms))) es"

text \<open>What the callback of an event runs, in order: the closures it calls, with their arguments.\<close>

datatype 'cb call = AsyncCall 'cb | TimerCall 'cb | FdCall 'cb int int

definition ev_cb ::
  "int \<Rightarrow> int \<Rightarrow> nat \<Rightarrow> ('cb, 'eb) event_server \<Rightarrow>
   (('cb, 'eb) event_server \<times> 'cb call list) outcome" where
  "ev_cb fd flags arg es = (case es_handles es arg of
      None \<Rightarrow> Inl (Undefined ''dangling Handle'')
    | Some hh \<Rightarrow> (case h_type hh of
        kTimer \<Rightarrow> (case h_timer_cb hh of
            None \<Rightarrow> Inl (Throw (LibraryError ''bad_function_call''))
          | Some DrainAsync \<Rightarrow>
              Inr (es\<lparr>es_async_callbacks := []\<rparr>, map AsyncCall (es_async_callbacks es))
          | Some (ClientTimer cb) \<Rightarrow> Inr (es, [TimerCall cb]))
      | kFd \<Rightarrow> (case h_fd_cb hh of
            None \<Rightarrow> Inl (Throw (LibraryError ''bad_function_call''))
          | Some cb \<Rightarrow> Inr (es, [FdCall cb fd flags]))))"

text \<open>The destructor visits a copy of \<open>handles_\<close>; \<open>hs\<close> is the order of that visit.\<close>

definition destroy ::
  "'eb libevent \<Rightarrow> nat list \<Rightarrow> ('cb, 'eb) event_server \<Rightarrow> 'eb outcome" where
  "destroy L hs es = bind_outcome (fold_outcome (remove L) hs es) (\<lambda>es1. Inr (le_base_free L (es_eb es1)))"

section \<open>What libevent promises\<close>

text \<open>
  \<open>live\<close> gives the registered events with the descriptor, flags and argument of \<open>event_new\<close>;
  \<open>active\<close> the events whose callback will run; \<open>armed\<close> the added ones with their timeout.
  Activating and taking keep the registrations, deleting and freeing also deactivate. A call
  that fails changes nothing.
\<close>

type_synonym registration = "int \<times> int \<times> nat"

locale libevent =
  fixes L :: "'eb libevent"
    and live :: "'eb \<Rightarrow> nat \<rightharpoonup> registration"
    and active :: "'eb \<Rightarrow> nat set"
    and armed :: "'eb \<Rightarrow> nat \<rightharpoonup> timeval option"
  assumes base_new: "live (le_base_new L) = Map.empty"
    and new_none: "le_new L eb fd flags arg = (eb', None) \<Longrightarrow>
      live eb' = live eb \<and> active eb' = active eb \<and> armed eb' = armed eb"
    and new_some: "le_new L eb fd flags arg = (eb', Some ev) \<Longrightarrow>
      live eb ev = None \<and> live eb' = (live eb)(ev \<mapsto> (fd, flags, arg)) \<and>
      active eb' = active eb \<and> armed eb' = armed eb"
    and add_live: "live eb ev \<noteq> None \<Longrightarrow> le_add L eb ev tv = (eb', rc) \<Longrightarrow>
      live eb' = live eb \<and> active eb' = active eb \<and>
      armed eb' = (if rc = -1 then armed eb else (armed eb)(ev \<mapsto> tv))"
    and del_live: "live eb ev \<noteq> None \<Longrightarrow> le_del L eb ev = (eb', rc) \<Longrightarrow>
      live eb' = live eb \<and> active eb' = (if rc = -1 then active eb else active eb - {ev}) \<and>
      armed eb' = (if rc = -1 then armed eb else (armed eb)(ev := None))"
    and active_live: "live eb ev \<noteq> None \<Longrightarrow>
      live (le_active L eb ev) = live eb \<and> active (le_active L eb ev) = insert ev (active eb) \<and>
      armed (le_active L eb ev) = armed eb"
    and free_live: "live eb ev \<noteq> None \<Longrightarrow>
      live (le_free L eb ev) = (live eb)(ev := None) \<and> active (le_free L eb ev) = active eb - {ev} \<and>
      armed (le_free L eb ev) = (armed eb)(ev := None)"
    and take_live: "live eb ev = Some (fd, flags, arg) \<Longrightarrow>
      live (le_take L eb ev) = live eb \<and> active (le_take L eb ev) = active eb - {ev} \<and>
      armed (le_take L eb ev) = (if flags AND PERSIST \<noteq> 0 then armed eb else (armed eb)(ev := None))"
    and exit_live: "le_loopexit L eb at = (eb', rc) \<Longrightarrow>
      live eb' = live eb \<and> active eb' = active eb \<and> armed eb' = armed eb"

text \<open>The same while memory lasts and no call is refused.\<close>

locale libevent_total = libevent +
  assumes pthreads: "le_use_pthreads L \<noteq> -1"
    and new_total: "snd (le_new L eb fd flags arg) \<noteq> None"
    and add_total: "live eb ev \<noteq> None \<Longrightarrow> snd (le_add L eb ev tv) \<noteq> -1"
    and del_total: "live eb ev \<noteq> None \<Longrightarrow> snd (le_del L eb ev) \<noteq> -1"
    and exit_total: "snd (le_loopexit L eb at) \<noteq> -1"

section \<open>Steps\<close>

text \<open>
  A step is one call of an operation (on the client's own handles: the queue's handle is
  private), or the loop running the callback of an event that is active or armed. The
  callbacks it calls are the client's: their own calls of operations are steps of their own.
\<close>

definition async_calls :: "'cb call list \<Rightarrow> 'cb list" where
  "async_calls cs = concat (map (\<lambda>c. case c of AsyncCall cb \<Rightarrow> [cb] | _ \<Rightarrow> []) cs)"

inductive es_step ::
  "'eb libevent \<Rightarrow> ('eb \<Rightarrow> nat \<rightharpoonup> registration) \<Rightarrow> ('cb, 'eb) event_server \<Rightarrow>
   ('cb, 'eb) event_server \<Rightarrow> 'cb list \<Rightarrow> 'cb list \<Rightarrow> bool"
  for L live
where
  es_async: "add_async L cb es = Inr es' \<Longrightarrow> es_step L live es es' [cb] []"
| es_timer: "add_timer L (ClientTimer cb) flags es = (es', h) \<Longrightarrow> es_step L live es es' [] []"
| es_fd: "add_fd L fd flags cb es = (es', h) \<Longrightarrow> es_step L live es es' [] []"
| es_start: "start L h ms es = Inr es' \<Longrightarrow> h \<noteq> es_async_handle es \<Longrightarrow> es_step L live es es' [] []"
| es_stop: "stop L h es = Inr es' \<Longrightarrow> h \<noteq> es_async_handle es \<Longrightarrow> es_step L live es es' [] []"
| es_remove: "remove L h es = Inr es' \<Longrightarrow> h \<noteq> es_async_handle es \<Longrightarrow> es_step L live es es' [] []"
| es_exit: "exit_loop L ms es = Inr es' \<Longrightarrow> es_step L live es es' [] []"
| es_fire: "live (es_eb es) ev = Some (fd, flags, arg) \<Longrightarrow>
     ev_cb fd fl arg (es\<lparr>es_eb := le_take L (es_eb es) ev\<rparr>) = Inr (es', calls) \<Longrightarrow>
     es_step L live es es' [] (async_calls calls)"

section \<open>Invariant\<close>

definition handle_ok :: "('eb \<Rightarrow> nat \<rightharpoonup> registration) \<Rightarrow> 'eb \<Rightarrow> nat \<Rightarrow> 'cb handle \<Rightarrow> bool" where
  "handle_ok live eb h hh \<longleftrightarrow>
     (\<forall>ev. h_ev hh = Some ev \<longrightarrow> (\<exists>fd flags. live eb ev = Some (fd, flags, h))) \<and>
     (case h_type hh of kTimer \<Rightarrow> h_timer_cb hh \<noteq> None | kFd \<Rightarrow> h_fd_cb hh \<noteq> None)"

definition drains :: "'cb handle \<Rightarrow> bool" where
  "drains hh \<longleftrightarrow> h_type hh = kTimer \<and> h_timer_cb hh = Some DrainAsync"

definition es_inv ::
  "('eb \<Rightarrow> nat \<rightharpoonup> registration) \<Rightarrow> ('eb \<Rightarrow> nat set) \<Rightarrow> ('cb, 'eb) event_server \<Rightarrow> bool" where
  "es_inv live active es \<longleftrightarrow>
     (\<forall>h hh. es_handles es h = Some hh \<longrightarrow> h < es_next es \<and> handle_ok live (es_eb es) h hh \<and>
        (drains hh \<longleftrightarrow> h = es_async_handle es)) \<and>
     (\<forall>ev fd flags h. live (es_eb es) ev = Some (fd, flags, h) \<longrightarrow>
        (\<exists>hh. es_handles es h = Some hh \<and> h_ev hh = Some ev)) \<and>
     (\<exists>hh. es_handles es (es_async_handle es) = Some hh \<and>
        (es_async_callbacks es \<noteq> [] \<longrightarrow> (\<exists>ev. h_ev hh = Some ev \<and> ev \<in> active (es_eb es))))"

lemma event_of_Inr:
  "event_of h es = Inr ev \<longleftrightarrow> (\<exists>hh. es_handles es h = Some hh \<and> h_ev hh = Some ev)"
  by (auto simp: event_of_def split: option.split)

lemma check_ne_Inr: "check_ne r es = Inr es' \<longleftrightarrow> snd r \<noteq> -1 \<and> es' = es\<lparr>es_eb := fst r\<rparr>"
  by (auto simp: check_ne_def)

lemmas es_simps = event_of_Inr check_ne_Inr bind_outcome_Inr_iff

text \<open>The parts of the invariant, as rules.\<close>

lemma es_inv_handle:
  "es_inv live active es \<Longrightarrow> es_handles es h = Some hh \<Longrightarrow>
   h < es_next es \<and> handle_ok live (es_eb es) h hh \<and> (drains hh \<longleftrightarrow> h = es_async_handle es)"
  unfolding es_inv_def by blast

lemma es_inv_live:
  "es_inv live active es \<Longrightarrow> live (es_eb es) ev = Some (fd, flags, h) \<Longrightarrow>
   \<exists>hh. es_handles es h = Some hh \<and> h_ev hh = Some ev"
  unfolding es_inv_def by blast

lemma es_inv_async:
  "es_inv live active es \<Longrightarrow> \<exists>hh. es_handles es (es_async_handle es) = Some hh \<and>
     (es_async_callbacks es \<noteq> [] \<longrightarrow> (\<exists>ev. h_ev hh = Some ev \<and> ev \<in> active (es_eb es)))"
  unfolding es_inv_def by blast

text \<open>The event of a handle is registered with that handle as its argument.\<close>

lemma es_inv_event:
  assumes "es_inv live active es" and "event_of h es = Inr ev"
  obtains fd flags hh where "live (es_eb es) ev = Some (fd, flags, h)" "es_handles es h = Some hh"
    "h_ev hh = Some ev"
  using assms unfolding es_inv_def handle_ok_def event_of_Inr by blast

text \<open>Changes of the base that keep the registrations and deactivate at most one client event.\<close>

lemma es_inv_base:
  assumes inv: "es_inv live active es" and "live eb = live (es_eb es)"
    and ev: "event_of h es = Inr ev" "h \<noteq> es_async_handle es"
    and "active (es_eb es) - {ev} \<subseteq> active eb"
  shows "es_inv live active (es\<lparr>es_eb := eb\<rparr>)"
proof -
  from inv ev(1) obtain fd flags hh where l: "live (es_eb es) ev = Some (fd, flags, h)"
    by (rule es_inv_event)
  have "\<exists>hh. es_handles es (es_async_handle es) = Some hh \<and>
      (es_async_callbacks es \<noteq> [] \<longrightarrow> (\<exists>ev. h_ev hh = Some ev \<and> ev \<in> active eb))"
  proof -
    from inv obtain ha where ha: "es_handles es (es_async_handle es) = Some ha"
      "es_async_callbacks es \<noteq> [] \<longrightarrow> (\<exists>ev. h_ev ha = Some ev \<and> ev \<in> active (es_eb es))"
      unfolding es_inv_def by blast
    have "ea \<noteq> ev" if "h_ev ha = Some ea" for ea
    proof -
      from inv ha(1) that obtain fd' fl' where "live (es_eb es) ea = Some (fd', fl', es_async_handle es)"
        unfolding es_inv_def handle_ok_def by blast
      with l ev(2) show ?thesis by auto
    qed
    with ha assms(5) show ?thesis by blast
  qed
  with inv show ?thesis by (simp add: es_inv_def assms(2) handle_ok_def)
qed

context libevent
begin

lemma inv_new_handle:
  assumes inv: "es_inv live active es" and new: "new_handle L fd flags hh es = (es', h)"
    and "\<not> drains hh" and "case h_type hh of kTimer \<Rightarrow> h_timer_cb hh \<noteq> None | kFd \<Rightarrow> h_fd_cb hh \<noteq> None"
  shows "es_inv live active es' \<and> h \<notin> dom (es_handles es) \<and> h \<in> dom (es_handles es') \<and>
    dom (es_handles es') = insert h (dom (es_handles es)) \<and> h \<noteq> es_async_handle es \<and>
    es_async_handle es' = es_async_handle es \<and> es_async_callbacks es' = es_async_callbacks es"
proof -
  obtain eb ev where eb: "le_new L (es_eb es) fd flags (es_next es) = (eb, ev)"
    by (cases "le_new L (es_eb es) fd flags (es_next es)")
  with new have es': "h = es_next es" "es' = es\<lparr>es_eb := eb,
      es_handles := (es_handles es)(h \<mapsto> hh\<lparr>h_ev := ev\<rparr>), es_next := Suc h\<rparr>"
    by (auto simp: new_handle_def Let_def)
  have "h \<notin> dom (es_handles es)"
    using es_inv_handle [OF inv] es'(1) by (metis domD less_irrefl)
  moreover have "es_async_handle es \<in> dom (es_handles es)" using es_inv_async [OF inv] by blast
  ultimately have fresh: "h \<notin> dom (es_handles es)" "h \<noteq> es_async_handle es" by auto
  have live: "live eb e = (if ev = Some e then Some (fd, flags, h) else live (es_eb es) e)" for e
    using new_some [of "es_eb es" fd flags h eb] new_none [of "es_eb es" fd flags h eb] eb es'(1)
    by (cases ev) auto
  have unreg: "ev = Some e \<Longrightarrow> live (es_eb es) e = None" for e
    using new_some [of "es_eb es" fd flags h eb] eb es'(1) by auto
  have act: "active eb = active (es_eb es)"
    using new_some [of "es_eb es" fd flags h eb] new_none [of "es_eb es" fd flags h eb] eb es'(1)
    by (cases ev) auto
  have "handle_ok live eb h (hh\<lparr>h_ev := ev\<rparr>)"
    using assms(4) by (auto simp: handle_ok_def live split: handle_type.splits)
  moreover have "handle_ok live eb k hk" if "es_handles es k = Some hk" for k hk
    using inv that unreg unfolding es_inv_def handle_ok_def live by fastforce
  moreover have "\<not> drains (hh\<lparr>h_ev := ev\<rparr>)" using assms(3) by (simp add: drains_def)
  moreover have "\<forall>e fd' fl k. live eb e = Some (fd', fl, k) \<longrightarrow>
      (\<exists>hk. ((es_handles es)(h \<mapsto> hh\<lparr>h_ev := ev\<rparr>)) k = Some hk \<and> h_ev hk = Some e)"
  proof (intro allI impI)
    fix e fd' fl k assume l: "live eb e = Some (fd', fl, k)"
    show "\<exists>hk. ((es_handles es)(h \<mapsto> hh\<lparr>h_ev := ev\<rparr>)) k = Some hk \<and> h_ev hk = Some e"
    proof (cases "ev = Some e")
      case True
      with l show ?thesis by (simp add: live)
    next
      case False
      with l inv obtain hk where "es_handles es k = Some hk" "h_ev hk = Some e"
        using es_inv_live [OF inv] by (simp add: live) blast
      with fresh show ?thesis by auto
    qed
  qed
  ultimately have "es_inv live active es'"
    using inv fresh unfolding es_inv_def es'(2) by (auto simp: act less_Suc_eq es'(1))
  with fresh es' show ?thesis by auto
qed

end

context libevent
begin

lemma inv_add_async:
  assumes inv: "es_inv live active es" and add: "add_async L cb es = Inr es'"
  shows "es_inv live active es' \<and> es_async_callbacks es' = es_async_callbacks es @ [cb]"
proof -
  from add obtain ev hh where hh: "es_handles es (es_async_handle es) = Some hh" "h_ev hh = Some ev"
    and es': "es' = es\<lparr>es_async_callbacks := es_async_callbacks es @ [cb], es_eb := le_active L (es_eb es) ev\<rparr>"
    by (auto simp: add_async_def Let_def es_simps)
  from inv obtain fd flags where "live (es_eb es) ev = Some (fd, flags, es_async_handle es)"
    by (rule es_inv_event [of live active es "es_async_handle es" ev]) (use hh in \<open>auto simp: event_of_Inr\<close>)
  then have "live (le_active L (es_eb es) ev) = live (es_eb es)"
    "active (le_active L (es_eb es) ev) = insert ev (active (es_eb es))"
    using active_live [of "es_eb es" ev] by simp_all
  with inv hh show ?thesis unfolding es_inv_def es' handle_ok_def by simp
qed

lemma start_cases:
  assumes "es_inv live active es" and "start L h ms es = Inr es'"
  obtains ev eb where "event_of h es = Inr ev" "es' = es\<lparr>es_eb := eb\<rparr>"
    "live eb = live (es_eb es)" "active eb = active (es_eb es)"
    "armed eb = (armed (es_eb es))(ev \<mapsto> (if sint ms < 0 then None else Some (timeout_of ms)))"
proof -
  define tv where "tv = (if sint ms < 0 then None else Some (timeout_of ms))"
  from assms(2) obtain ev where ev: "event_of h es = Inr ev"
    "check_ne (le_add L (es_eb es) ev tv) es = Inr es'"
    by (auto simp: start_def tv_def bind_outcome_Inr_iff)
  from assms(1) ev(1) have "live (es_eb es) ev \<noteq> None" by (rule es_inv_event) auto
  then show thesis
    using that [of ev "fst (le_add L (es_eb es) ev tv)"] ev
      add_live [of "es_eb es" ev tv "fst (le_add L (es_eb es) ev tv)" "snd (le_add L (es_eb es) ev tv)"]
    by (simp add: check_ne_Inr tv_def)
qed

lemma stop_cases:
  assumes "es_inv live active es" and "stop L h es = Inr es'"
  obtains ev eb where "event_of h es = Inr ev" "es' = es\<lparr>es_eb := eb\<rparr>"
    "live eb = live (es_eb es)" "active eb = active (es_eb es) - {ev}"
    "armed eb = (armed (es_eb es))(ev := None)"
proof -
  from assms(2) obtain ev where ev: "event_of h es = Inr ev"
    "check_ne (le_del L (es_eb es) ev) es = Inr es'"
    by (auto simp: stop_def bind_outcome_Inr_iff)
  from assms(1) ev(1) have "live (es_eb es) ev \<noteq> None" by (rule es_inv_event) auto
  then show thesis
    using that [of ev "fst (le_del L (es_eb es) ev)"] ev
      del_live [of "es_eb es" ev "fst (le_del L (es_eb es) ev)" "snd (le_del L (es_eb es) ev)"]
    by (simp add: check_ne_Inr)
qed

lemma remove_cases:
  assumes "es_inv live active es" and "remove L h es = Inr es'"
  obtains ev eb where "event_of h es = Inr ev"
    "es' = es\<lparr>es_eb := eb, es_handles := (es_handles es)(h := None)\<rparr>"
    "live eb = (live (es_eb es))(ev := None)" "active eb = active (es_eb es) - {ev}"
proof -
  from assms(2) obtain ev where ev: "event_of h es = Inr ev"
    and rc: "snd (le_del L (es_eb es) ev) \<noteq> -1"
    and es': "es' = es\<lparr>es_eb := le_free L (fst (le_del L (es_eb es) ev)) ev,
      es_handles := (es_handles es)(h := None)\<rparr>"
    by (auto simp: remove_def bind_outcome_Inr_iff check_ne_Inr)
  obtain eb rc where del: "le_del L (es_eb es) ev = (eb, rc)" by (cases "le_del L (es_eb es) ev")
  from assms(1) ev have "live (es_eb es) ev \<noteq> None" by (rule es_inv_event) auto
  then show thesis
    using that [OF ev, of "le_free L eb ev"] del_live [OF _ del] free_live [of eb ev] rc del es' by simp
qed

lemma inv_start:
  assumes inv: "es_inv live active es" and "start L h ms es = Inr es'" "h \<noteq> es_async_handle es"
  shows "es_inv live active es'"
proof -
  obtain ev eb where ev: "event_of h es = Inr ev" "es' = es\<lparr>es_eb := eb\<rparr>"
    "live eb = live (es_eb es)" "active eb = active (es_eb es)"
    using inv assms(2) by (rule start_cases)
  show ?thesis using es_inv_base [OF inv ev(3,1) assms(3)] ev(2,4) by simp
qed

lemma inv_stop:
  assumes inv: "es_inv live active es" and "stop L h es = Inr es'" "h \<noteq> es_async_handle es"
  shows "es_inv live active es'"
proof -
  obtain ev eb where ev: "event_of h es = Inr ev" "es' = es\<lparr>es_eb := eb\<rparr>"
    "live eb = live (es_eb es)" "active eb = active (es_eb es) - {ev}"
    using inv assms(2) by (rule stop_cases)
  show ?thesis using es_inv_base [OF inv ev(3,1) assms(3)] ev(2,4) by simp
qed

end

text \<open>What the callback of an event does, by the handle it belongs to.\<close>

lemma ev_cb_drain:
  assumes "es_handles es arg = Some hh" and "drains hh"
  shows "ev_cb fd fl arg es = Inr (es\<lparr>es_async_callbacks := []\<rparr>, map AsyncCall (es_async_callbacks es))"
  using assms by (simp add: ev_cb_def drains_def)

lemma ev_cb_client:
  assumes "es_handles es arg = Some hh" and "\<not> drains hh" and "handle_ok live eb arg hh"
  shows "\<exists>cb. ev_cb fd fl arg es = Inr (es, [TimerCall cb]) \<or> ev_cb fd fl arg es = Inr (es, [FdCall cb fd fl])"
  using assms
  by (cases "h_type hh"; cases "the (h_timer_cb hh)")
    (auto simp: ev_cb_def drains_def handle_ok_def)

lemma async_calls_simps [simp]:
  "async_calls [] = []" "async_calls [TimerCall cb] = []" "async_calls [FdCall cb fd fl] = []"
  "async_calls (map AsyncCall cbs) = cbs"
  by (induction cbs) (simp_all add: async_calls_def)

context libevent
begin

lemma inv_remove:
  assumes inv: "es_inv live active es" and "remove L h es = Inr es'" "h \<noteq> es_async_handle es"
  shows "es_inv live active es'"
proof -
  obtain ev eb where ev: "event_of h es = Inr ev"
    and es': "es' = es\<lparr>es_eb := eb, es_handles := (es_handles es)(h := None)\<rparr>"
    and eb: "live eb = (live (es_eb es))(ev := None)" "active eb = active (es_eb es) - {ev}"
    using inv assms(2) by (rule remove_cases)
  from inv ev obtain fd flags hh where l: "live (es_eb es) ev = Some (fd, flags, h)"
    and hh: "es_handles es h = Some hh" "h_ev hh = Some ev" by (rule es_inv_event)
  have other: "ek \<noteq> ev" if "es_handles es k = Some hk" "k \<noteq> h" "h_ev hk = Some ek" for k hk ek
    using es_inv_handle [OF inv that(1)] that(2,3) l unfolding handle_ok_def by auto
  have "handle_ok live eb k hk" if "es_handles es k = Some hk" "k \<noteq> h" for k hk
    using es_inv_handle [OF inv that(1)] other [OF that] unfolding handle_ok_def eb by simp
  moreover have "\<exists>hk. ((es_handles es)(h := None)) k = Some hk \<and> h_ev hk = Some e"
    if "live eb e = Some (fd', fl, k)" for e fd' fl k
  proof -
    from that have e: "e \<noteq> ev" "live (es_eb es) e = Some (fd', fl, k)"
      by (auto simp: eb split: if_splits)
    from es_inv_live [OF inv e(2)] obtain hk where hk: "es_handles es k = Some hk" "h_ev hk = Some e" by blast
    with hh e(1) have "k \<noteq> h" by auto
    with hk show ?thesis by simp
  qed
  moreover from es_inv_async [OF inv] obtain ha where ha: "es_handles es (es_async_handle es) = Some ha"
    "es_async_callbacks es \<noteq> [] \<longrightarrow> (\<exists>ev. h_ev ha = Some ev \<and> ev \<in> active (es_eb es))" by blast
  have "es_async_callbacks es \<noteq> [] \<longrightarrow> (\<exists>e. h_ev ha = Some e \<and> e \<in> active eb)"
    using ha other [OF ha(1)] assms(3) unfolding eb by fastforce
  ultimately show ?thesis
    using ha(1) assms(3) es_inv_handle [OF inv] unfolding es_inv_def es' by auto
qed

lemma inv_fire:
  assumes inv: "es_inv live active es" and l: "live (es_eb es) ev = Some (fd, flags, arg)"
    and cb: "ev_cb fd fl arg (es\<lparr>es_eb := le_take L (es_eb es) ev\<rparr>) = Inr (es', calls)"
  shows "es_inv live active es' \<and> async_calls calls @ es_async_callbacks es' = es_async_callbacks es"
proof -
  let ?eb = "le_take L (es_eb es) ev"
  have eb: "live ?eb = live (es_eb es)" "active ?eb = active (es_eb es) - {ev}"
    using take_live [OF l] by simp_all
  obtain hh where hh: "es_handles es arg = Some hh" "h_ev hh = Some ev"
    using es_inv_live [OF inv l] by blast
  note ok = es_inv_handle [OF inv hh(1)]
  show ?thesis
  proof (cases "arg = es_async_handle es")
    case True
    with ok have "drains hh" by simp
    then have "es' = es\<lparr>es_eb := ?eb, es_async_callbacks := []\<rparr>" "async_calls calls = es_async_callbacks es"
      using cb hh(1) by (auto simp: ev_cb_drain)
    moreover have "es_inv live active (es\<lparr>es_eb := ?eb, es_async_callbacks := []\<rparr>)"
      using inv by (simp add: es_inv_def handle_ok_def eb) blast
    ultimately show ?thesis by simp
  next
    case False
    with ok have "\<not> drains hh" "handle_ok live (es_eb es) arg hh" by auto
    then have "es' = es\<lparr>es_eb := ?eb\<rparr>" "async_calls calls = []"
      using cb hh(1) ev_cb_client [of "es\<lparr>es_eb := ?eb\<rparr>" arg hh live "es_eb es" fd fl] by auto
    moreover have "es_inv live active (es\<lparr>es_eb := ?eb\<rparr>)"
      using es_inv_base [OF inv eb(1) _ False, of ev] hh eb(2) by (simp add: event_of_Inr)
    ultimately show ?thesis by simp
  qed
qed

lemma inv_exit:
  assumes inv: "es_inv live active es" and "exit_loop L ms es = Inr es'"
  shows "es_inv live active es' \<and> es_async_callbacks es' = es_async_callbacks es"
proof -
  obtain eb where eb: "es' = es\<lparr>es_eb := eb\<rparr>" "live eb = live (es_eb es)" "active eb = active (es_eb es)"
    using assms(2) exit_live by (auto simp: exit_loop_def check_ne_Inr prod_eq_iff)
  with inv show ?thesis by (simp add: es_inv_def handle_ok_def)
qed

lemma inv_step:
  assumes "es_step L live es es' reg called" and inv: "es_inv live active es"
  shows "es_inv live active es' \<and> called @ es_async_callbacks es' = es_async_callbacks es @ reg"
  using assms(1)
proof cases
  case (es_async cb)
  then show ?thesis using inv_add_async [OF inv] by simp
next
  case (es_timer cb flags h)
  then show ?thesis using inv_new_handle [OF inv] by (simp add: add_timer_def drains_def)
next
  case (es_fd fd flags cb h)
  then show ?thesis using inv_new_handle [OF inv] by (simp add: add_fd_def drains_def)
next
  case (es_start h ms)
  then show ?thesis using inv_start [OF inv] start_cases [OF inv] by (metis append_Nil append_Nil2
      event_server.select_convs(5) event_server.surjective event_server.update_convs(1))
next
  case (es_stop h)
  then show ?thesis using inv_stop [OF inv] stop_cases [OF inv] by (metis append_Nil append_Nil2
      event_server.select_convs(5) event_server.surjective event_server.update_convs(1))
next
  case (es_remove h)
  then obtain eb where "es' = es\<lparr>es_eb := eb, es_handles := (es_handles es)(h := None)\<rparr>"
    using remove_cases [OF inv] by metis
  then show ?thesis using inv_remove [OF inv] es_remove by simp
next
  case (es_exit ms)
  then show ?thesis using inv_exit [OF inv] by simp
next
  case (es_fire ev fd flags arg fl calls)
  then show ?thesis using inv_fire [OF inv] by simp
qed

lemma inv_init:
  assumes "EventServer L = Inr es"
  shows "es_inv live active es \<and> es_async_callbacks es = []"
proof -
  obtain eb ev where eb: "le_new L (le_base_new L) (-1) 0 1 = (eb, ev)"
    by (cases "le_new L (le_base_new L) (-1) 0 1")
  have live: "live eb e = (if ev = Some e then Some (-1, 0, 1) else None)" for e
    using new_some [of "le_base_new L" "-1" 0 1 eb] new_none [of "le_base_new L" "-1" 0 1 eb] eb base_new
    by (cases ev) auto
  with assms eb show ?thesis
    by (auto simp: EventServer_def add_timer_def new_handle_def Let_def es_inv_def handle_ok_def
        drains_def split: if_splits)
qed

end

sublocale libevent < queue: fifo_service "es_step L live" "es_inv live active" es_async_callbacks
  using inv_step by unfold_locales blast+

context libevent
begin

lemma reach_fifo:
  assumes "run_of (es_step L live) s t reg called" and "es_inv live active s"
  shows "es_inv live active t \<and> called @ es_async_callbacks t = es_async_callbacks s @ reg"
  using queue.run_inv [OF assms] queue.run_fifo [OF assms] ..

end

section \<open>The interface of the handles\<close>

text \<open>
  What a client relies on that owns some handles and knows nothing of libevent: new handles are
  distinct, and an owned handle may be started, stopped and removed; removing gives it up.
\<close>

locale handle_server =
  fixes inv :: "'s \<Rightarrow> bool"
    and owned :: "'s \<Rightarrow> nat set"
    and new_fd :: "int \<Rightarrow> int \<Rightarrow> 'cb \<Rightarrow> 's \<Rightarrow> 's \<times> nat"
    and new_timer :: "'cb \<Rightarrow> int \<Rightarrow> 's \<Rightarrow> 's \<times> nat"
    and start_h :: "nat \<Rightarrow> int64 \<Rightarrow> 's \<Rightarrow> 's outcome"
    and stop_h :: "nat \<Rightarrow> 's \<Rightarrow> 's outcome"
    and remove_h :: "nat \<Rightarrow> 's \<Rightarrow> 's outcome"
  assumes new_fd: "inv s \<Longrightarrow> new_fd fd flags cb s = (s', h) \<Longrightarrow>
      inv s' \<and> h \<notin> owned s \<and> owned s' = insert h (owned s)"
    and new_timer: "inv s \<Longrightarrow> new_timer cb flags s = (s', h) \<Longrightarrow>
      inv s' \<and> h \<notin> owned s \<and> owned s' = insert h (owned s)"
    and start_owned: "inv s \<Longrightarrow> h \<in> owned s \<Longrightarrow>
      \<exists>s'. start_h h ms s = Inr s' \<and> inv s' \<and> owned s' = owned s"
    and stop_owned: "inv s \<Longrightarrow> h \<in> owned s \<Longrightarrow>
      \<exists>s'. stop_h h s = Inr s' \<and> inv s' \<and> owned s' = owned s"
    and remove_owned: "inv s \<Longrightarrow> h \<in> owned s \<Longrightarrow>
      \<exists>s'. remove_h h s = Inr s' \<and> inv s' \<and> owned s' = owned s - {h}"
begin

text \<open>The pairs of calls a client with a read and a write handle makes.\<close>

lemma start_stop:
  assumes "inv s" "a \<in> owned s" "b \<in> owned s"
  shows "\<exists>s'. bind_outcome (start_h a ms s) (stop_h b) = Inr s' \<and> inv s' \<and> owned s' = owned s"
  using start_owned [OF assms(1,2), of ms] stop_owned assms(3) by fastforce

lemma start_start:
  assumes "inv s" "a \<in> owned s" "b \<in> owned s"
  shows "\<exists>s'. bind_outcome (start_h a ms s) (start_h b ms') = Inr s' \<and> inv s' \<and> owned s' = owned s"
  using start_owned [OF assms(1,2), of ms] start_owned [of _ b ms'] assms(3) by fastforce

lemma remove_remove:
  assumes "inv s" "a \<in> owned s" "b \<in> owned s" "a \<noteq> b"
  shows "\<exists>s'. bind_outcome (remove_h a s) (remove_h b) = Inr s' \<and> inv s' \<and> owned s' = owned s - {a, b}"
proof -
  obtain s1 where s1: "remove_h a s = Inr s1" "inv s1" "owned s1 = owned s - {a}"
    using remove_owned [OF assms(1,2)] by blast
  then have "b \<in> owned s1" using assms(3,4) by simp
  from remove_owned [OF s1(2) this] show ?thesis by (auto simp: s1)
qed

lemma new_pair:
  assumes "inv s" "new_fd fd fl cb s = (s1, a)" "new_fd fd fl' cb s1 = (s2, b)"
  shows "inv s2 \<and> a \<noteq> b \<and> a \<notin> owned s \<and> b \<notin> owned s \<and> owned s2 = insert a (insert b (owned s))"
  using new_fd [OF assms(1,2)] new_fd [OF _ assms(3)] by auto

end

text \<open>The event server provides it, for every handle but the private one of the queue.\<close>

definition es_owned :: "('cb, 'eb) event_server \<Rightarrow> nat set" where
  "es_owned es = dom (es_handles es) - {es_async_handle es}"

definition es_sound ::
  "('eb \<Rightarrow> nat \<rightharpoonup> registration) \<Rightarrow> ('eb \<Rightarrow> nat set) \<Rightarrow> ('cb, 'eb) event_server \<Rightarrow> bool" where
  "es_sound live active es \<longleftrightarrow> es_inv live active es \<and>
     (\<forall>h hh. es_handles es h = Some hh \<longrightarrow> h_ev hh \<noteq> None)"

lemma es_sound_event:
  "es_sound live active es \<Longrightarrow> h \<in> dom (es_handles es) \<Longrightarrow> \<exists>ev. event_of h es = Inr ev"
  unfolding es_sound_def event_of_Inr by blast

context libevent_total
begin

lemma sound_new_handle:
  assumes s: "es_sound live active es" and new: "new_handle L fd flags hh es = (es', h)"
    and "\<not> drains hh" and "case h_type hh of kTimer \<Rightarrow> h_timer_cb hh \<noteq> None | kFd \<Rightarrow> h_fd_cb hh \<noteq> None"
  shows "es_sound live active es' \<and> h \<notin> es_owned es \<and> es_owned es' = insert h (es_owned es)"
proof -
  have inv: "es_inv live active es" using s by (simp add: es_sound_def)
  note n = inv_new_handle [OF inv new assms(3,4)]
  obtain eb ev where "le_new L (es_eb es) fd flags (es_next es) = (eb, Some ev)"
    using new_total [of "es_eb es" fd flags "es_next es"] by (metis not_None_eq prod.collapse)
  with new have "es_handles es' = (es_handles es)(h \<mapsto> hh\<lparr>h_ev := Some ev\<rparr>)"
    by (auto simp: new_handle_def Let_def)
  with n s show ?thesis by (auto simp: es_sound_def es_owned_def)
qed

lemma sound_event_live:
  assumes "es_sound live active es" and "h \<in> es_owned es"
  obtains ev where "event_of h es = Inr ev" "live (es_eb es) ev \<noteq> None" "h \<noteq> es_async_handle es"
proof -
  obtain ev where "event_of h es = Inr ev"
    using es_sound_event [OF assms(1)] assms(2) unfolding es_owned_def by blast
  moreover from this assms(1) have "live (es_eb es) ev \<noteq> None"
    unfolding es_sound_def by (metis es_inv_event option.distinct(1))
  ultimately show thesis using that assms(2) unfolding es_owned_def by blast
qed

lemma sound_start:
  assumes s: "es_sound live active es" and "h \<in> es_owned es"
  shows "\<exists>es'. start L h ms es = Inr es' \<and> es_sound live active es' \<and> es_owned es' = es_owned es"
proof -
  obtain ev where ev: "event_of h es = Inr ev" "live (es_eb es) ev \<noteq> None" "h \<noteq> es_async_handle es"
    using assms by (rule sound_event_live)
  obtain eb where "start L h ms es = Inr (es\<lparr>es_eb := eb\<rparr>)"
    by (simp add: start_def ev(1) check_ne_def add_total [OF ev(2)])
  moreover from this s ev(3) have "es_inv live active (es\<lparr>es_eb := eb\<rparr>)"
    unfolding es_sound_def by (blast intro: inv_start)
  ultimately show ?thesis using s by (simp add: es_sound_def es_owned_def)
qed

lemma sound_stop:
  assumes s: "es_sound live active es" and "h \<in> es_owned es"
  shows "\<exists>es'. stop L h es = Inr es' \<and> es_sound live active es' \<and> es_owned es' = es_owned es"
proof -
  obtain ev where ev: "event_of h es = Inr ev" "live (es_eb es) ev \<noteq> None" "h \<noteq> es_async_handle es"
    using assms by (rule sound_event_live)
  obtain eb where "stop L h es = Inr (es\<lparr>es_eb := eb\<rparr>)"
    by (simp add: stop_def ev(1) check_ne_def del_total [OF ev(2)])
  moreover from this s ev(3) have "es_inv live active (es\<lparr>es_eb := eb\<rparr>)"
    unfolding es_sound_def by (blast intro: inv_stop)
  ultimately show ?thesis using s by (simp add: es_sound_def es_owned_def)
qed

lemma sound_remove:
  assumes s: "es_sound live active es" and "h \<in> es_owned es"
  shows "\<exists>es'. remove L h es = Inr es' \<and> es_sound live active es' \<and> es_owned es' = es_owned es - {h}"
proof -
  obtain ev where ev: "event_of h es = Inr ev" "live (es_eb es) ev \<noteq> None" "h \<noteq> es_async_handle es"
    using assms by (rule sound_event_live)
  obtain eb where es': "remove L h es = Inr (es\<lparr>es_eb := eb, es_handles := (es_handles es)(h := None)\<rparr>)"
    by (simp add: remove_def ev(1) check_ne_def del_total [OF ev(2)])
  moreover from this s ev(3)
  have "es_inv live active (es\<lparr>es_eb := eb, es_handles := (es_handles es)(h := None)\<rparr>)"
    unfolding es_sound_def by (blast intro: inv_remove)
  ultimately show ?thesis using s by (auto simp: es_sound_def es_owned_def)
qed

end

sublocale libevent_total < handles: handle_server "es_sound live active" es_owned
  "\<lambda>fd flags cb. add_fd L fd flags cb" "\<lambda>cb flags. add_timer L (ClientTimer cb) flags"
  "start L" "stop L" "remove L"
proof unfold_locales
  fix s :: "('b, 'a) event_server" and s' fd flags cb h
  assume "es_sound live active s" "add_fd L fd flags cb s = (s', h)"
  then show "es_sound live active s' \<and> h \<notin> es_owned s \<and> es_owned s' = insert h (es_owned s)"
    unfolding add_fd_def by (rule sound_new_handle) (simp_all add: drains_def)
next
  fix s :: "('b, 'a) event_server" and s' flags cb h
  assume "es_sound live active s" "add_timer L (ClientTimer cb) flags s = (s', h)"
  then show "es_sound live active s' \<and> h \<notin> es_owned s \<and> es_owned s' = insert h (es_owned s)"
    unfolding add_timer_def by (rule sound_new_handle) (simp_all add: drains_def)
qed (rule sound_start sound_stop sound_remove; assumption)+

text \<open>Whole runs keep every handle's event.\<close>

lemma ev_cb_handles: "ev_cb fd fl arg es = Inr (es', calls) \<Longrightarrow> es_handles es' = es_handles es"
  by (auto simp: ev_cb_def split: option.splits handle_type.splits timer_cb.splits)

context libevent_total
begin

lemma sound_step:
  assumes "es_step L live es es' reg called" and s: "es_sound live active es"
  shows "es_sound live active es'"
proof -
  have inv: "es_inv live active es" using s by (simp add: es_sound_def)
  have inv': "es_inv live active es'" using inv_step [OF assms(1) inv] by blast
  have keep: "es_sound live active es'" if "es_handles es' \<subseteq>\<^sub>m es_handles es"
    unfolding es_sound_def
  proof (intro conjI allI impI inv')
    fix h hh assume h: "es_handles es' h = Some hh"
    then have "h \<in> dom (es_handles es')" by blast
    with that have "es_handles es' h = es_handles es h" unfolding map_le_def by blast
    with h s show "h_ev hh \<noteq> None" unfolding es_sound_def by simp
  qed
  show ?thesis
    using assms(1)
  proof cases
    case (es_async cb)
    then show ?thesis by (intro keep) (auto simp: add_async_def Let_def es_simps)
  next
    case (es_timer cb flags h)
    then show ?thesis using sound_new_handle [OF s] by (simp add: add_timer_def drains_def)
  next
    case (es_fd fd flags cb h)
    then show ?thesis using sound_new_handle [OF s] by (simp add: add_fd_def drains_def)
  next
    case (es_start h ms)
    then show ?thesis by (intro keep) (auto simp: start_def es_simps)
  next
    case (es_stop h)
    then show ?thesis by (intro keep) (auto simp: stop_def es_simps)
  next
    case (es_remove h)
    then show ?thesis by (intro keep) (auto simp: remove_def es_simps map_le_def split: if_splits)
  next
    case (es_exit ms)
    then show ?thesis by (intro keep) (auto simp: exit_loop_def es_simps)
  next
    case (es_fire ev fd flags arg fl calls)
    then show ?thesis by (intro keep) (auto dest: ev_cb_handles)
  qed
qed

lemma sound_init: "EventServer L = Inr es \<Longrightarrow> es_sound live active es"
  using inv_init [of es] new_total [of "le_base_new L" "-1" 0 1]
  by (auto simp: es_sound_def EventServer_def add_timer_def new_handle_def Let_def split: if_splits prod.splits)

lemma sound_run:
  "run_of (es_step L live) s t reg called \<Longrightarrow> es_sound live active s \<Longrightarrow> es_sound live active t"
  by (induction rule: run_of.induct) (auto intro: sound_step)

lemma sound_add_async:
  assumes "es_sound live active es"
  shows "\<exists>es'. add_async L cb es = Inr es'"
proof -
  obtain hh where "es_handles es (es_async_handle es) = Some hh" "h_ev hh \<noteq> None"
    using assms es_inv_async [of live active es] unfolding es_sound_def by blast
  then show ?thesis by (auto simp: add_async_def event_of_def)
qed

lemma sound_fire:
  assumes s: "es_sound live active es" and l: "live (es_eb es) ev = Some (fd, flags, arg)"
  shows "\<exists>es' calls. ev_cb fd fl arg (es\<lparr>es_eb := eb\<rparr>) = Inr (es', calls)"
proof -
  have inv: "es_inv live active es" using s by (simp add: es_sound_def)
  obtain hh where hh: "es_handles es arg = Some hh" using es_inv_live [OF inv l] by blast
  note ok = es_inv_handle [OF inv hh]
  show ?thesis
  proof (cases "drains hh")
    case True
    with hh show ?thesis by (simp add: ev_cb_drain)
  next
    case False
    with ok hh show ?thesis
      using ev_cb_client [of "es\<lparr>es_eb := eb\<rparr>" arg hh live "es_eb es" fd fl] by auto
  qed
qed

end

section \<open>An event base as a record\<close>

text \<open>
  A base that satisfies the laws, with its registrations in a list and a new event numbered
  above all of them; witnesses run the server on it.
\<close>

record lbase =
  lb_events :: "(nat \<times> registration) list"
  lb_active :: "nat set"
  lb_armed :: "nat \<rightharpoonup> timeval option"

definition lb_live :: "lbase \<Rightarrow> nat \<rightharpoonup> registration" where
  "lb_live b = map_of (lb_events b)"

definition lb_fresh :: "lbase \<Rightarrow> nat" where
  "lb_fresh b = Suc (foldr max (map fst (lb_events b)) 0)"

definition lb :: "lbase libevent" where
  "lb = \<lparr>le_use_pthreads = 0,
     le_base_new = \<lparr>lb_events = [], lb_active = {}, lb_armed = Map.empty\<rparr>,
     le_new = (\<lambda>b fd flags arg.
       (b\<lparr>lb_events := (lb_fresh b, fd, flags, arg) # lb_events b\<rparr>, Some (lb_fresh b))),
     le_add = (\<lambda>b ev tv. (b\<lparr>lb_armed := (lb_armed b)(ev \<mapsto> tv)\<rparr>, 0)),
     le_del = (\<lambda>b ev. (b\<lparr>lb_armed := (lb_armed b)(ev := None), lb_active := lb_active b - {ev}\<rparr>, 0)),
     le_active = (\<lambda>b ev. b\<lparr>lb_active := insert ev (lb_active b)\<rparr>),
     le_free = (\<lambda>b ev. b\<lparr>lb_events := filter (\<lambda>e. fst e \<noteq> ev) (lb_events b),
       lb_active := lb_active b - {ev}, lb_armed := (lb_armed b)(ev := None)\<rparr>),
     le_loopexit = (\<lambda>b tv. (b, 0)), le_base_free = (\<lambda>b. b),
     le_take = (\<lambda>b ev. b\<lparr>lb_active := lb_active b - {ev},
       lb_armed := (case lb_live b ev of
           Some (fd, flags, arg) \<Rightarrow> if flags AND PERSIST \<noteq> 0 then lb_armed b else (lb_armed b)(ev := None)
         | None \<Rightarrow> lb_armed b)\<rparr>)\<rparr>"

lemma lb_fresh_none: "lb_live b (lb_fresh b) = None"
proof -
  have "k \<in> set ks \<Longrightarrow> k \<le> foldr max ks 0" for k :: nat and ks
    by (induction ks) auto
  from this [of "lb_fresh b" "map fst (lb_events b)"] have "lb_fresh b \<notin> fst ` set (lb_events b)"
    by (auto simp: lb_fresh_def)
  then show ?thesis by (simp add: lb_live_def map_of_eq_None_iff)
qed

lemma map_of_filter_ne: "map_of (filter (\<lambda>e. fst e \<noteq> k) xs) = (map_of xs)(k := None)"
  by (induction xs) auto

interpretation lb: libevent_total lb lb_live lb_active lb_armed
proof unfold_locales
  show "le_new lb eb fd flags arg = (eb', Some ev) \<Longrightarrow>
      lb_live eb ev = None \<and> lb_live eb' = (lb_live eb)(ev \<mapsto> (fd, flags, arg)) \<and>
      lb_active eb' = lb_active eb \<and> lb_armed eb' = lb_armed eb" for eb fd flags arg eb' ev
    using lb_fresh_none [of eb] by (auto simp: lb_def lb_live_def)
qed (auto simp: lb_def lb_live_def map_of_filter_ne split: option.splits if_splits)

text \<open>A new server on it, and the same after two callbacks were queued.\<close>

definition server0 :: "(nat, lbase) event_server" where
  "server0 = \<lparr>es_eb = \<lparr>lb_events = [(1, -1, 0, 1)], lb_active = {}, lb_armed = Map.empty\<rparr>,
     es_handles = [1 \<mapsto> \<lparr>h_ev = Some 1, h_type = kTimer, h_timer_cb = Some DrainAsync, h_fd_cb = None\<rparr>],
     es_next = 2, es_async_handle = 1, es_async_callbacks = []\<rparr>"

definition server2 :: "(nat, lbase) event_server" where
  "server2 = server0\<lparr>es_async_callbacks := [5, 6],
     es_eb := (es_eb server0)\<lparr>lb_active := {1}\<rparr>\<rparr>"

lemma server0: "EventServer lb = Inr server0"
  by (simp add: EventServer_def add_timer_def new_handle_def lb_def lb_fresh_def server0_def)

lemma server2: "run_of (es_step lb lb_live) server0 server2 [5, 6] []"
proof -
  let ?s1 = "server0\<lparr>es_async_callbacks := [5], es_eb := (es_eb server0)\<lparr>lb_active := {1}\<rparr>\<rparr>"
  have "es_step lb lb_live server0 ?s1 [5] []"
    by (rule es_async) (simp add: add_async_def server0_def event_of_def lb_def)
  moreover have "es_step lb lb_live ?s1 server2 [6] []"
    by (rule es_async) (simp add: add_async_def server0_def server2_def event_of_def lb_def)
  ultimately show ?thesis
    by (auto intro!: run_stepI [OF run_stepI [OF run_refl]])
qed

section \<open>Properties\<close>

text \<open>C19: Callbacks queued with \<open>add_async\<close> run in the order they were queued, each exactly once:
  in every run the calls made, followed by those still queued, are the callbacks registered, in
  the same order; and as long as any is queued the event of the queue is active, so the loop will
  run them.\<close>

theorem es_async_fifo:
  assumes "libevent L live active armed" and "EventServer L = Inr es0"
    and "run_of (es_step L live) es0 es reg called"
  shows "called @ es_async_callbacks es = reg \<and>
    (es_async_callbacks es \<noteq> [] \<longrightarrow>
      (\<exists>ev. event_of (es_async_handle es) es = Inr ev \<and> ev \<in> active (es_eb es)))"
proof -
  note init = libevent.inv_init [OF assms(1,2)]
  note run = libevent.reach_fifo [OF assms(1,3) conjunct1 [OF init]]
  from es_inv_async [OF conjunct1 [OF run]] run init show ?thesis
    unfolding event_of_Inr by auto
qed

text \<open>The loop running the queue's event calls the whole queue and empties it, so a callback
  that is queued while the batch runs waits for the next one; any other event runs exactly one
  closure, the one its handle was made with, and leaves the queue alone.\<close>

theorem es_dispatch:
  assumes "libevent L live active armed" and "EventServer L = Inr es0"
    and "run_of (es_step L live) es0 es reg called" and "live (es_eb es) ev = Some (fd, flags, h)"
  shows "if h = es_async_handle es
    then ev_cb fd fl h es = Inr (es\<lparr>es_async_callbacks := []\<rparr>, map AsyncCall (es_async_callbacks es))
    else (\<exists>hh cb. es_handles es h = Some hh \<and>
      (h_timer_cb hh = Some (ClientTimer cb) \<and> ev_cb fd fl h es = Inr (es, [TimerCall cb]) \<or>
       h_fd_cb hh = Some cb \<and> ev_cb fd fl h es = Inr (es, [FdCall cb fd fl])))"
proof -
  have inv: "es_inv live active es"
    using libevent.reach_fifo [OF assms(1,3)] libevent.inv_init [OF assms(1,2)] by blast
  obtain hh where hh: "es_handles es h = Some hh"
    using es_inv_live [OF inv assms(4)] by blast
  note ok = es_inv_handle [OF inv hh]
  show ?thesis
  proof (cases "h = es_async_handle es")
    case True
    with ok hh show ?thesis by (simp add: ev_cb_drain)
  next
    case False
    with ok have nd: "\<not> drains hh" "handle_ok live (es_eb es) h hh" by auto
    show ?thesis
    proof (cases "h_type hh")
      case kTimer
      with nd obtain cb where "h_timer_cb hh = Some (ClientTimer cb)"
        by (cases "the (h_timer_cb hh)") (auto simp: drains_def handle_ok_def)
      with kTimer hh False show ?thesis by (simp add: ev_cb_def)
    next
      case kFd
      with nd obtain cb where "h_fd_cb hh = Some cb" by (auto simp: handle_ok_def)
      with kFd hh False show ?thesis by (simp add: ev_cb_def)
    qed
  qed
qed


theorem es_async_fifo_witness:
  "[] @ es_async_callbacks server2 = [5, 6] \<and> (\<exists>ev. ev \<in> lb_active (es_eb server2))"
  using es_async_fifo [OF lb.libevent_axioms server0 server2] by (auto simp: server2_def)

theorem es_dispatch_witness:
  "ev_cb (-1) 0 1 server2 = Inr (server2\<lparr>es_async_callbacks := []\<rparr>, [AsyncCall 5, AsyncCall 6])"
  using es_dispatch [OF lb.libevent_axioms server0 server2, of 1 "-1" 0 1]
  by (simp add: server2_def server0_def lb_live_def)


text \<open>C20: While libevent refuses nothing, no operation of a reachable server fails or touches a
  dangling handle: queueing a callback always succeeds; a handle the client owns can be started,
  stopped and removed, which leaves its other handles alone; a new handle is one it did not own;
  and the callback of every registered event finds its handle.\<close>

theorem es_operations_safe:
  assumes "libevent_total L live active armed" and "EventServer L = Inr es0"
    and "run_of (es_step L live) es0 es reg called"
  shows "(\<exists>es'. add_async L cb es = Inr es') \<and>
    (h \<in> es_owned es \<longrightarrow> (\<exists>es'. start L h ms es = Inr es' \<and> es_owned es' = es_owned es) \<and>
       (\<exists>es'. stop L h es = Inr es' \<and> es_owned es' = es_owned es) \<and>
       (\<exists>es'. remove L h es = Inr es' \<and> es_owned es' = es_owned es - {h})) \<and>
    (let (es', k) = add_fd L fd flags cb es in k \<notin> es_owned es \<and> es_owned es' = insert k (es_owned es)) \<and>
    (live (es_eb es) ev = Some (fd', flags', arg) \<longrightarrow>
       (\<exists>es' calls. ev_cb fd' fl arg (es\<lparr>es_eb := le_take L (es_eb es) ev\<rparr>) = Inr (es', calls)))"
proof -
  have s: "es_sound live active es"
    using libevent_total.sound_run [OF assms(1,3)] libevent_total.sound_init [OF assms(1,2)] .
  obtain es' k where new: "add_fd L fd flags cb es = (es', k)" by (cases "add_fd L fd flags cb es")
  have "k \<notin> es_owned es \<and> es_owned es' = insert k (es_owned es)"
    using libevent_total.sound_new_handle [OF assms(1) s new [unfolded add_fd_def]] by (simp add: drains_def)
  with new have fd: "let (es', k) = add_fd L fd flags cb es in k \<notin> es_owned es \<and> es_owned es' = insert k (es_owned es)"
    by simp
  show ?thesis
  proof (intro conjI impI)
    show "\<exists>es'. add_async L cb es = Inr es'" by (rule libevent_total.sound_add_async [OF assms(1) s])
  next
    assume "h \<in> es_owned es"
    then show "\<exists>es'. start L h ms es = Inr es' \<and> es_owned es' = es_owned es"
      using libevent_total.sound_start [OF assms(1) s] by blast
  next
    assume "h \<in> es_owned es"
    then show "\<exists>es'. stop L h es = Inr es' \<and> es_owned es' = es_owned es"
      using libevent_total.sound_stop [OF assms(1) s] by blast
  next
    assume "h \<in> es_owned es"
    then show "\<exists>es'. remove L h es = Inr es' \<and> es_owned es' = es_owned es - {h}"
      using libevent_total.sound_remove [OF assms(1) s] by blast
  next
    assume "live (es_eb es) ev = Some (fd', flags', arg)"
    then show "\<exists>es' calls. ev_cb fd' fl arg (es\<lparr>es_eb := le_take L (es_eb es) ev\<rparr>) = Inr (es', calls)"
      by (rule libevent_total.sound_fire [OF assms(1) s])
  qed (rule fd)
qed

theorem es_operations_safe_witness:
  "\<exists>es'. add_async lb 7 server2 = Inr es'"
  using es_operations_safe [OF lb.libevent_total_axioms server0 server2] by blast


lemma timeout_of_exact:
  assumes "0 \<le> sint ms"
  shows "sint (tv_sec (timeout_of ms)) = sint ms div 1000"
    and "sint (tv_usec (timeout_of ms)) = sint ms mod 1000 * 1000"
proof -
  show "sint (tv_sec (timeout_of ms)) = sint ms div 1000"
    using assms by (simp add: timeout_of_def sint_div64)
  have "sint ms smod 1000 = sint ms mod 1000"
    using assms by (cases "sint ms = 0") (simp_all add: signed_modulo_int_def sgn_if)
  then have "word_of_int (sint ms smod 1000) * 1000 = (word_of_int (sint ms mod 1000 * 1000) :: int64)"
    by simp
  moreover have "0 \<le> sint ms mod 1000 * 1000 \<and> sint ms mod 1000 * 1000 < 2 ^ 63"
    using pos_mod_bound [of 1000 "sint ms"] by simp
  ultimately show "sint (tv_usec (timeout_of ms)) = sint ms mod 1000 * 1000"
    by (simp only: timeout_of_def timeval.simps) (rule sint_word_of_int64, simp_all)
qed

text \<open>\<open>start\<close> with a negative time arms the event without a timeout, otherwise with a timeout of
  exactly that many milliseconds, its microsecond part in range; it touches no other event.\<close>

theorem es_start_timeout:
  assumes "libevent L live active armed" and "es_inv live active es" and "start L h ms es = Inr es'"
  shows "\<exists>ev tv. event_of h es = Inr ev \<and> armed (es_eb es') = (armed (es_eb es))(ev \<mapsto> tv) \<and>
    live (es_eb es') = live (es_eb es) \<and> active (es_eb es') = active (es_eb es) \<and>
    (case tv of None \<Rightarrow> sint ms < 0
     | Some t \<Rightarrow> sint (tv_sec t) * 1000000 + sint (tv_usec t) = sint ms * 1000 \<and>
         0 \<le> sint (tv_usec t) \<and> sint (tv_usec t) < 1000000)"
proof -
  obtain ev eb where ev: "event_of h es = Inr ev" "es' = es\<lparr>es_eb := eb\<rparr>"
    "live eb = live (es_eb es)" "active eb = active (es_eb es)"
    "armed eb = (armed (es_eb es))(ev \<mapsto> (if sint ms < 0 then None else Some (timeout_of ms)))"
    using assms(2,3) by (rule libevent.start_cases [OF assms(1)])
  have "sint (tv_sec (timeout_of ms)) * 1000000 + sint (tv_usec (timeout_of ms)) = sint ms * 1000 \<and>
      0 \<le> sint (tv_usec (timeout_of ms)) \<and> sint (tv_usec (timeout_of ms)) < 1000000"
    if "0 \<le> sint ms"
    unfolding timeout_of_exact [OF that]
    using pos_mod_bound [of 1000 "sint ms"] pos_mod_sign [of 1000 "sint ms"]
      div_mult_mod_eq [of "sint ms" 1000] by linarith
  then show ?thesis
    by (intro exI [of _ ev] exI [of _ "if sint ms < 0 then None else Some (timeout_of ms)"]) (simp add: ev)
qed

theorem es_start_timeout_witness:
  "\<exists>tv. lb_armed (es_eb (projr (start lb 1 1500 server0))) 1 = Some (Some tv) \<and>
     sint (tv_sec tv) * 1000000 + sint (tv_usec tv) = 1500000"
proof -
  have "es_inv lb_live lb_active server0" using lb.inv_init [OF server0] by blast
  moreover have "\<exists>s. start lb 1 1500 server0 = Inr s"
    by (simp add: start_def event_of_def server0_def check_ne_def lb_def)
  then obtain s where s: "start lb 1 1500 server0 = Inr s" by blast
  ultimately obtain ev tv where "event_of 1 server0 = Inr ev" "lb_armed (es_eb s) ev = Some tv"
    "case tv of None \<Rightarrow> sint (1500 :: int64) < 0
     | Some t \<Rightarrow> sint (tv_sec t) * 1000000 + sint (tv_usec t) = sint (1500 :: int64) * 1000"
    using es_start_timeout [OF lb.libevent_axioms _ s] by (fastforce split: option.splits)
  with s show ?thesis by (auto simp: event_of_def server0_def split: option.splits)
qed

text \<open>After \<open>remove\<close> no event carries the removed handle, so its callback never runs again,
  while the events of all other handles and the queue are as before; using the handle again is
  undefined behaviour, which nothing detects.\<close>

theorem es_remove_final:
  assumes "libevent L live active armed" and "es_inv live active es"
    and "remove L h es = Inr es'" and "h \<noteq> es_async_handle es"
  shows "(\<forall>ev fd flags k. live (es_eb es') ev = Some (fd, flags, k) \<longleftrightarrow>
      live (es_eb es) ev = Some (fd, flags, k) \<and> k \<noteq> h) \<and>
    es_handles es' = (es_handles es)(h := None) \<and> es_async_callbacks es' = es_async_callbacks es \<and>
    start L h ms es' = Inl (Undefined ''dangling Handle'') \<and>
    remove L h es' = Inl (Undefined ''dangling Handle'')"
proof -
  obtain ev eb where ev: "event_of h es = Inr ev"
    and es': "es' = es\<lparr>es_eb := eb, es_handles := (es_handles es)(h := None)\<rparr>"
    and eb: "live eb = (live (es_eb es))(ev := None)"
    using assms(2,3) by (rule libevent.remove_cases [OF assms(1)])
  obtain fd flags hh where l: "live (es_eb es) ev = Some (fd, flags, h)"
    "es_handles es h = Some hh" "h_ev hh = Some ev"
    using assms(2) ev by (rule es_inv_event)
  have only: "e = ev" if "live (es_eb es) e = Some (fd', fl, h)" for e fd' fl
    using es_inv_live [OF assms(2) that] l by auto
  have "live eb e = Some (fd', fl, k) \<longleftrightarrow> live (es_eb es) e = Some (fd', fl, k) \<and> k \<noteq> h"
    for e fd' fl k
  proof (cases "e = ev")
    case True
    with l(1) show ?thesis by (simp add: eb)
  next
    case False
    then have "live (es_eb es) e = Some (fd', fl, k) \<Longrightarrow> k \<noteq> h" using only by blast
    with False show ?thesis by (simp add: eb) blast
  qed
  then show ?thesis by (simp add: es' start_def remove_def event_of_def)
qed

theorem es_remove_final_witness:
  "\<exists>s s'. run_of (es_step lb lb_live) server0 s [] [] \<and> remove lb 2 s = Inr s' \<and>
     start lb 2 0 s' = Inl (Undefined ''dangling Handle'')"
proof -
  let ?s = "fst (add_fd lb 9 READ 7 server0)"
  have "es_step lb lb_live server0 ?s [] []"
    by (rule es_fd [where h = 2]) (simp add: add_fd_def new_handle_def server0_def Let_def lb_def)
  then have run: "run_of (es_step lb lb_live) server0 ?s [] []"
    by (rule run_stepI [OF run_refl]) simp_all
  have "es_inv lb_live lb_active ?s"
    using lb.reach_fifo [OF run] lb.inv_init [OF server0] by blast
  moreover obtain s' where "remove lb 2 ?s = Inr s'"
    by (simp add: remove_def event_of_def add_fd_def new_handle_def server0_def Let_def check_ne_def lb_def
        lb_fresh_def)
  moreover have "2 \<noteq> es_async_handle ?s"
    by (simp add: add_fd_def new_handle_def server0_def Let_def lb_def)
  ultimately show ?thesis
    using es_remove_final [OF lb.libevent_axioms, of ?s 2 s'] run by blast
qed


text \<open>What the destructor keeps while it removes the handles, the queue's included.\<close>

definition es_reg :: "('eb \<Rightarrow> nat \<rightharpoonup> registration) \<Rightarrow> ('cb, 'eb) event_server \<Rightarrow> bool" where
  "es_reg live es \<longleftrightarrow>
     (\<forall>h hh. es_handles es h = Some hh \<longrightarrow>
        (\<exists>ev fd flags. h_ev hh = Some ev \<and> live (es_eb es) ev = Some (fd, flags, h))) \<and>
     (\<forall>ev fd flags h. live (es_eb es) ev = Some (fd, flags, h) \<longrightarrow>
        (\<exists>hh. es_handles es h = Some hh \<and> h_ev hh = Some ev))"

lemma sound_reg:
  assumes "es_sound live active es"
  shows "es_reg live es"
  unfolding es_reg_def
proof (intro conjI allI impI)
  fix h hh assume h: "es_handles es h = Some hh"
  have inv: "es_inv live active es" using assms by (simp add: es_sound_def)
  from h assms obtain ev where "h_ev hh = Some ev" unfolding es_sound_def by blast
  with es_inv_handle [OF inv h] show "\<exists>ev fd flags. h_ev hh = Some ev \<and> live (es_eb es) ev = Some (fd, flags, h)"
    unfolding handle_ok_def by blast
next
  fix ev fd flags h assume "live (es_eb es) ev = Some (fd, flags, h)"
  then show "\<exists>hh. es_handles es h = Some hh \<and> h_ev hh = Some ev"
    using assms es_inv_live unfolding es_sound_def by blast
qed

context libevent_total
begin

lemma reg_remove:
  assumes "es_reg live es" and "h \<in> dom (es_handles es)"
  shows "\<exists>es'. remove L h es = Inr es' \<and> es_reg live es' \<and> dom (es_handles es') = dom (es_handles es) - {h}"
proof -
  obtain hh ev fd flags where hh: "es_handles es h = Some hh" "h_ev hh = Some ev"
    "live (es_eb es) ev = Some (fd, flags, h)"
    using assms unfolding es_reg_def by blast
  obtain eb rc where del: "le_del L (es_eb es) ev = (eb, rc)" by (cases "le_del L (es_eb es) ev")
  with del_total [of "es_eb es" ev] hh(3) have rc: "rc \<noteq> -1" by auto
  let ?es' = "es\<lparr>es_eb := le_free L eb ev, es_handles := (es_handles es)(h := None)\<rparr>"
  have r: "remove L h es = Inr ?es'"
    using hh del rc by (simp add: remove_def event_of_def check_ne_def)
  have live: "live (le_free L eb ev) = (live (es_eb es))(ev := None)"
    using del_live [OF _ del] free_live [of eb ev] hh(3) by simp
  have "es_reg live ?es'"
    unfolding es_reg_def
  proof (intro conjI allI impI)
    fix k hk assume k: "es_handles ?es' k = Some hk"
    then have k: "k \<noteq> h" "es_handles es k = Some hk" by (auto split: if_splits)
    then obtain e fd' fl where "h_ev hk = Some e" "live (es_eb es) e = Some (fd', fl, k)"
      using assms(1) unfolding es_reg_def by blast
    moreover from this hh(3) k(1) have "e \<noteq> ev" by auto
    ultimately show "\<exists>e fd fl. h_ev hk = Some e \<and> live (es_eb ?es') e = Some (fd, fl, k)"
      by (simp add: live)
  next
    fix e fd' fl k assume "live (es_eb ?es') e = Some (fd', fl, k)"
    then have e: "e \<noteq> ev" "live (es_eb es) e = Some (fd', fl, k)" by (auto simp: live split: if_splits)
    then obtain hk where hk: "es_handles es k = Some hk" "h_ev hk = Some e"
      using assms(1) unfolding es_reg_def by blast
    with hh e(1) have "k \<noteq> h" by auto
    with hk show "\<exists>hh. es_handles ?es' k = Some hh \<and> h_ev hh = Some e" by simp
  qed
  with r show ?thesis by auto
qed

lemma remove_all:
  "es_reg live es \<Longrightarrow> distinct hs \<Longrightarrow> set hs = dom (es_handles es) \<Longrightarrow>
   \<exists>es'. fold_outcome (remove L) hs es = Inr es' \<and> live (es_eb es') = Map.empty"
proof (induction hs arbitrary: es)
  case Nil
  have "live (es_eb es) ev = None" for ev
  proof (cases "live (es_eb es) ev")
    case (Some r)
    then obtain fd fl h where "live (es_eb es) ev = Some (fd, fl, h)" by (cases r) auto
    with Nil show ?thesis unfolding es_reg_def by fastforce
  qed
  then show ?case by auto
next
  case (Cons h hs)
  then have "h \<in> dom (es_handles es)" by auto
  from reg_remove [OF Cons.prems(1) this] obtain es1 where es1: "remove L h es = Inr es1"
    "es_reg live es1" "dom (es_handles es1) = dom (es_handles es) - {h}" by blast
  moreover from this Cons.prems have "set hs = dom (es_handles es1)" "distinct hs" by auto
  ultimately show ?case using Cons.IH [of es1] by simp
qed

end

text \<open>The destructor never fails while libevent refuses nothing, whatever order it visits the
  handles in, and frees every event before it frees the base.\<close>

theorem es_destroy_frees_all:
  assumes "libevent_total L live active armed" and "EventServer L = Inr es0"
    and "run_of (es_step L live) es0 es reg called"
    and "distinct hs" and "set hs = dom (es_handles es)"
  shows "\<exists>eb. destroy L hs es = Inr (le_base_free L eb) \<and> live eb = Map.empty"
proof -
  have "es_sound live active es"
    using libevent_total.sound_run [OF assms(1,3)] libevent_total.sound_init [OF assms(1,2)] .
  then show ?thesis
    using libevent_total.remove_all [OF assms(1) sound_reg assms(4,5)] by (fastforce simp: destroy_def)
qed

theorem es_destroy_frees_all_witness:
  "\<exists>eb. destroy lb [1] server2 = Inr eb \<and> lb_live eb = Map.empty"
proof -
  have "set [1] = dom (es_handles server2)" by (simp add: server2_def server0_def)
  then show ?thesis
    using es_destroy_frees_all [OF lb.libevent_total_axioms server0 server2, of "[1]"] by (auto simp: lb_def)
qed

end
