(* ===== verification/Json_Api.thy ===== *)
theory Json_Api
  imports Prelude
begin

text \<open>
  What the code uses of \<open>Json::Value\<close> (jsoncpp, not part of the repository): the fields of the
  parameter \<open>json\<close>. The locale \<open>json_laws\<close> states the documented behaviour: a null value turns
  into an object or an array when it is written to, members are looked up by name with null for
  a missing one, arrays are appended to and iterated in order. A value of another kind is read
  in a way that is left open, or refused with an exception.
\<close>

record 'j json =
  j_null :: 'j                                      \<comment> \<open>\<open>Json::Value()\<close>\<close>
  j_object :: 'j                                    \<comment> \<open>\<open>Json::Value(Json::objectValue)\<close>\<close>
  j_array :: 'j                                     \<comment> \<open>\<open>Json::Value(Json::arrayValue)\<close>\<close>
  j_string :: "string \<Rightarrow> 'j"
  j_int :: "int \<Rightarrow> 'j"
  j_bool :: "bool \<Rightarrow> 'j"
  j_get :: "'j \<Rightarrow> string \<Rightarrow> 'j outcome"              \<comment> \<open>\<open>v[key]\<close>, null when missing\<close>
  j_set :: "'j \<Rightarrow> string \<Rightarrow> 'j \<Rightarrow> 'j outcome"        \<comment> \<open>\<open>v[key] = x\<close>\<close>
  j_is_member :: "'j \<Rightarrow> string \<Rightarrow> bool outcome"
  j_append :: "'j \<Rightarrow> 'j \<Rightarrow> 'j outcome"
  j_elems :: "'j \<Rightarrow> 'j list"                        \<comment> \<open>what \<open>for (auto& x: v)\<close> visits\<close>
  j_size :: "'j \<Rightarrow> nat"
  j_as_string :: "'j \<Rightarrow> string outcome"

locale json_laws =
  fixes J :: "'j json"
    and fields :: "'j \<Rightarrow> (string \<rightharpoonup> 'j) option"
    and items :: "'j \<Rightarrow> 'j list option"
  assumes fields_null: "fields (j_null J) = Some Map.empty"
    and fields_object: "fields (j_object J) = Some Map.empty"
    and items_null: "items (j_null J) = Some []"
    and items_array: "items (j_array J) = Some []"
    and get_field: "fields v = Some m \<Longrightarrow>
      j_get J v k = Inr (case m k of None \<Rightarrow> j_null J | Some x \<Rightarrow> x)"
    and set_field: "fields v = Some m \<Longrightarrow> \<exists>v'. j_set J v k x = Inr v' \<and> fields v' = Some (m(k \<mapsto> x))"
    and member_field: "fields v = Some m \<Longrightarrow> j_is_member J v k = Inr (k \<in> dom m)"
    and append_item: "items v = Some xs \<Longrightarrow> \<exists>v'. j_append J v x = Inr v' \<and> items v' = Some (xs @ [x])"
    and elems_items: "items v = Some xs \<Longrightarrow> j_elems J v = xs"
    and size_items: "items v = Some xs \<Longrightarrow> j_size J v = length xs"
    and as_string: "j_as_string J (j_string J s) = Inr s"
    and get_throws: "j_get J v k = Inl f \<Longrightarrow> \<exists>e. f = Throw e"
    and member_throws: "j_is_member J v k = Inl f \<Longrightarrow> \<exists>e. f = Throw e"
    and string_throws: "j_as_string J v = Inl f \<Longrightarrow> \<exists>e. f = Throw e"

section \<open>JSON values as a datatype\<close>

text \<open>
  The values of RFC 8259 without fractions, with the operations as jsoncpp documents them. They
  satisfy the laws; witnesses use them.
\<close>

datatype jvalue =
    JNull
  | JBool bool
  | JInt int
  | JString string
  | JArray "jvalue list"
  | JObject "string \<Rightarrow> jvalue option"

definition json_error :: fault where
  "json_error = Throw (LibraryError ''Json::LogicError'')"

fun jv_fields :: "jvalue \<Rightarrow> (string \<rightharpoonup> jvalue) option" where
  "jv_fields JNull = Some Map.empty"
| "jv_fields (JObject m) = Some m"
| "jv_fields _ = None"

fun jv_items :: "jvalue \<Rightarrow> jvalue list option" where
  "jv_items JNull = Some []"
| "jv_items (JArray xs) = Some xs"
| "jv_items _ = None"

definition jv :: "jvalue json" where
  "jv = \<lparr>j_null = JNull, j_object = JObject Map.empty, j_array = JArray [], j_string = JString,
     j_int = JInt, j_bool = JBool,
     j_get = (\<lambda>v k. case jv_fields v of None \<Rightarrow> Inl json_error
       | Some m \<Rightarrow> Inr (case m k of None \<Rightarrow> JNull | Some x \<Rightarrow> x)),
     j_set = (\<lambda>v k x. case jv_fields v of None \<Rightarrow> Inl json_error | Some m \<Rightarrow> Inr (JObject (m(k \<mapsto> x)))),
     j_is_member = (\<lambda>v k. case jv_fields v of None \<Rightarrow> Inl json_error | Some m \<Rightarrow> Inr (m k \<noteq> None)),
     j_append = (\<lambda>v x. case jv_items v of None \<Rightarrow> Inl json_error | Some xs \<Rightarrow> Inr (JArray (xs @ [x]))),
     j_elems = (\<lambda>v. case v of JArray xs \<Rightarrow> xs | _ \<Rightarrow> []),
     j_size = (\<lambda>v. case v of JArray xs \<Rightarrow> length xs | _ \<Rightarrow> 0),
     j_as_string = (\<lambda>v. case v of JString s \<Rightarrow> Inr s | JNull \<Rightarrow> Inr []
       | JBool b \<Rightarrow> Inr (if b then ''true'' else ''false'') | JInt i \<Rightarrow> Inr (to_string i)
       | _ \<Rightarrow> Inl json_error)\<rparr>"

lemma jv_simps [simp]:
  "j_null jv = JNull" "j_object jv = JObject Map.empty" "j_array jv = JArray []"
  "j_string jv = JString" "j_int jv = JInt" "j_bool jv = JBool"
  by (simp_all add: jv_def)

lemma jv_items_cases: "jv_items v = Some xs \<longleftrightarrow> v = JNull \<and> xs = [] \<or> v = JArray xs"
  by (cases v) auto

interpretation jv: json_laws jv jv_fields jv_items
  by unfold_locales (auto simp: jv_def jv_items_cases json_error_def split: option.splits jvalue.splits)

end
