(* ===== verification/CrawlContext.thy ===== *)
theory CrawlContext
  imports Json_Api Uri Base64
begin

text \<open>
  \<open>Fetcher/CrawlContext.cpp\<close> and \<open>Fetcher/CrawlContext.h\<close>: the record of one fetch, and its
  translation to and from JSON. The macros \<open>SET_*\<close> and \<open>GET_*\<close> are one definition each.
\<close>

section \<open>The code\<close>

text \<open>
  \<open>FetcherContext\<close> is the only \<open>SubContext\<close>; it holds the two curl string lists. Time stamps
  have no initial value in the class.
\<close>

record fetcher_context =
  fc_req_headers :: "string list"
  fc_resolve_list :: "string list"

record crawl_context =
  c_id :: int
  c_summary :: string
  c_method :: string
  c_uri :: uri
  c_req_headers :: "string list"
  c_resp_code :: int
  c_resp_reason :: string
  c_resp_headers :: "string list"
  c_resp_body :: string
  c_truncated :: bool
  c_error_message :: string
  c_redirect_uri :: uri
  c_start_req_time_ms :: "int option"
  c_end_resolve_time_ms :: "int option"
  c_end_req_time_ms :: "int option"
  c_ip :: string
  c_done :: bool
  c_sub_ctx :: "fetcher_context option"

definition CrawlContext :: crawl_context where
  "CrawlContext = \<lparr>c_id = -1, c_summary = [], c_method = [], c_uri = empty_uri [], c_req_headers = [],
     c_resp_code = -1, c_resp_reason = [], c_resp_headers = [], c_resp_body = [], c_truncated = False,
     c_error_message = [], c_redirect_uri = empty_uri [], c_start_req_time_ms = None,
     c_end_resolve_time_ms = None, c_end_req_time_ms = None, c_ip = [], c_done = False,
     c_sub_ctx = None\<rparr>"

definition SET_LONG :: "'j json \<Rightarrow> string \<Rightarrow> int \<Rightarrow> 'j \<Rightarrow> 'j outcome" where
  "SET_LONG J k v j = (if v \<noteq> -1 then j_set J j k (j_int J v) else Inr j)"

definition SET_BOOL :: "'j json \<Rightarrow> string \<Rightarrow> bool \<Rightarrow> 'j \<Rightarrow> 'j outcome" where
  "SET_BOOL J k v j = j_set J j k (j_bool J v)"

definition SET_STRING :: "'j json \<Rightarrow> string \<Rightarrow> string \<Rightarrow> 'j \<Rightarrow> 'j outcome" where
  "SET_STRING J k v j = (if v \<noteq> [] then j_set J j k (j_string J v) else Inr j)"

definition SET_URI :: "'j json \<Rightarrow> string \<Rightarrow> uri \<Rightarrow> 'j \<Rightarrow> 'j outcome" where
  "SET_URI J k u j = (if u_str u \<noteq> [] then j_set J j k (j_string J (u_str u)) else Inr j)"

fun SET_STRING_LIST :: "'j json \<Rightarrow> string \<Rightarrow> string list \<Rightarrow> 'j \<Rightarrow> 'j outcome" where
  "SET_STRING_LIST J k [] j = Inr j"
| "SET_STRING_LIST J k (v # vs) j =
     bind_outcome (j_get J j k) (\<lambda>a. bind_outcome (j_append J a (j_string J v)) (\<lambda>a'.
       bind_outcome (j_set J j k a') (SET_STRING_LIST J k vs)))"

definition to_json :: "'j json \<Rightarrow> b64 \<Rightarrow> crawl_context \<Rightarrow> 'j outcome" where
  "to_json J B c = fold_outcome (\<lambda>set j. set j)
     [SET_LONG J ''id'' (c_id c),
      SET_STRING J ''summary'' (c_summary c),
      SET_STRING J ''method'' (c_method c),
      SET_URI J ''uri'' (c_uri c),
      SET_STRING_LIST J ''req_headers'' (c_req_headers c),
      SET_LONG J ''resp_code'' (c_resp_code c),
      SET_STRING J ''resp_reason'' (c_resp_reason c),
      SET_STRING_LIST J ''resp_headers'' (c_resp_headers c),
      (\<lambda>j. if c_resp_body c \<noteq> []
         then j_set J j ''resp_body'' (j_string J (base64_encode B (c_resp_body c))) else Inr j),
      SET_BOOL J ''truncated'' (c_truncated c),
      SET_STRING J ''error_message'' (c_error_message c),
      SET_URI J ''redirect_uri'' (c_redirect_uri c)]
     (j_null J)"

definition GET_STRING :: "'j json \<Rightarrow> 'j \<Rightarrow> string \<Rightarrow> string \<Rightarrow> string outcome" where
  "GET_STRING J j k old = bind_outcome (j_is_member J j k) (\<lambda>b.
     if b then bind_outcome (j_get J j k) (j_as_string J) else Inr old)"

definition GET_URI :: "'j json \<Rightarrow> 'j \<Rightarrow> string \<Rightarrow> uri \<Rightarrow> uri outcome" where
  "GET_URI J j k old = bind_outcome (j_is_member J j k) (\<lambda>b.
     if b then bind_outcome (bind_outcome (j_get J j k) (j_as_string J)) Uri else Inr old)"

definition GET_STRING_LIST :: "'j json \<Rightarrow> 'j \<Rightarrow> string \<Rightarrow> string list \<Rightarrow> string list outcome" where
  "GET_STRING_LIST J j k old = bind_outcome (j_is_member J j k) (\<lambda>b.
     if b then bind_outcome (j_get J j k) (\<lambda>a.
       bind_outcome (map_outcome (j_as_string J) (j_elems J a)) (\<lambda>vs. Inr (old @ vs)))
     else Inr old)"

definition from_json :: "'j json \<Rightarrow> 'j \<Rightarrow> crawl_context \<Rightarrow> crawl_context outcome" where
  "from_json J j c =
     bind_outcome (GET_STRING J j ''method'' (c_method c)) (\<lambda>m.
     bind_outcome (GET_URI J j ''uri'' (c_uri c)) (\<lambda>u.
     bind_outcome (GET_STRING_LIST J j ''req_headers'' (c_req_headers c)) (\<lambda>hs.
       Inr (c\<lparr>c_method := m, c_uri := u, c_req_headers := hs\<rparr>))))"

section \<open>Members written one by one\<close>

text \<open>A string list becomes an array member; an empty one writes nothing.\<close>

definition array_of ::
  "'j json \<Rightarrow> ('j \<Rightarrow> 'j list option) \<Rightarrow> string list \<Rightarrow> 'j option \<Rightarrow> bool" where
  "array_of J items vs o' \<longleftrightarrow>
     (if vs = [] then o' = None else \<exists>a. o' = Some a \<and> items a = Some (map (j_string J) vs))"

context json_laws
begin

lemma SET_LONG_fields:
  "fields j = Some m \<Longrightarrow> \<exists>j'. SET_LONG J k v j = Inr j' \<and>
     fields j' = Some (if v = -1 then m else m(k \<mapsto> j_int J v))"
  using set_field [of j m k "j_int J v"] by (auto simp: SET_LONG_def)

lemma SET_BOOL_fields:
  "fields j = Some m \<Longrightarrow> \<exists>j'. SET_BOOL J k v j = Inr j' \<and> fields j' = Some (m(k \<mapsto> j_bool J v))"
  using set_field [of j m k "j_bool J v"] by (simp add: SET_BOOL_def)

lemma SET_STRING_fields:
  "fields j = Some m \<Longrightarrow> \<exists>j'. SET_STRING J k v j = Inr j' \<and>
     fields j' = Some (if v = [] then m else m(k \<mapsto> j_string J v))"
  using set_field [of j m k "j_string J v"] by (auto simp: SET_STRING_def)

lemma SET_URI_fields:
  "fields j = Some m \<Longrightarrow> \<exists>j'. SET_URI J k u j = Inr j' \<and>
     fields j' = Some (if u_str u = [] then m else m(k \<mapsto> j_string J (u_str u)))"
  using set_field [of j m k "j_string J (u_str u)"] by (auto simp: SET_URI_def)

lemma SET_STRING_LIST_append:
  "fields j = Some m \<Longrightarrow> m k = Some a \<Longrightarrow> items a = Some xs \<Longrightarrow>
   \<exists>j' a'. SET_STRING_LIST J k vs j = Inr j' \<and> fields j' = Some (m(k \<mapsto> a')) \<and>
     items a' = Some (xs @ map (j_string J) vs)"
proof (induction vs arbitrary: j m a xs)
  case Nil
  then have "m(k \<mapsto> a) = m" by (simp add: map_upd_triv)
  with Nil show ?case by (intro exI [of _ j] exI [of _ a]) simp
next
  case (Cons v vs)
  obtain a' where a': "j_append J a (j_string J v) = Inr a'" "items a' = Some (xs @ [j_string J v])"
    using append_item [OF Cons.prems(3)] by blast
  obtain j1 where j1: "j_set J j k a' = Inr j1" "fields j1 = Some (m(k \<mapsto> a'))"
    using set_field [OF Cons.prems(1)] by blast
  from Cons.IH [OF j1(2) fun_upd_same a'(2)] show ?case
    by (simp add: get_field [OF Cons.prems(1)] Cons.prems(2) a'(1) j1(1) del: fun_upd_apply)
qed

lemma SET_STRING_LIST_fields:
  assumes "fields j = Some m" and "m k = None"
  shows "\<exists>j' m'. SET_STRING_LIST J k vs j = Inr j' \<and> fields j' = Some m' \<and>
    array_of J items vs (m' k) \<and> (\<forall>k'. k' \<noteq> k \<longrightarrow> m' k' = m k')"
proof (cases vs)
  case Nil
  with assms show ?thesis by (auto simp: array_of_def)
next
  case (Cons v vs')
  obtain a' where a': "j_append J (j_null J) (j_string J v) = Inr a'" "items a' = Some [j_string J v]"
    using append_item [OF items_null] by auto
  obtain j1 where j1: "j_set J j k a' = Inr j1" "fields j1 = Some (m(k \<mapsto> a'))"
    using set_field [OF assms(1)] by blast
  obtain j' a2 where "SET_STRING_LIST J k vs' j1 = Inr j'" "fields j' = Some (m(k \<mapsto> a2))"
    "items a2 = Some (map (j_string J) vs)"
    using SET_STRING_LIST_append [OF j1(2) fun_upd_same a'(2), of vs'] Cons
    by (auto simp del: fun_upd_apply)
  then show ?thesis
    by (auto simp: Cons get_field [OF assms(1)] assms(2) a'(1) j1(1) array_of_def)
qed

end


section \<open>The members of a printed context\<close>

text \<open>What each member of the object must be; every other name is absent.\<close>

definition opt_member :: "bool \<Rightarrow> 'j \<Rightarrow> 'j option" where
  "opt_member present x = (if present then Some x else None)"

definition json_of_context ::
  "'j json \<Rightarrow> ('j \<Rightarrow> 'j list option) \<Rightarrow> b64 \<Rightarrow> crawl_context \<Rightarrow> (string \<rightharpoonup> 'j) \<Rightarrow> bool" where
  "json_of_context J items B c m \<longleftrightarrow>
     m ''id'' = opt_member (c_id c \<noteq> -1) (j_int J (c_id c)) \<and>
     m ''summary'' = opt_member (c_summary c \<noteq> []) (j_string J (c_summary c)) \<and>
     m ''method'' = opt_member (c_method c \<noteq> []) (j_string J (c_method c)) \<and>
     m ''uri'' = opt_member (u_str (c_uri c) \<noteq> []) (j_string J (u_str (c_uri c))) \<and>
     array_of J items (c_req_headers c) (m ''req_headers'') \<and>
     m ''resp_code'' = opt_member (c_resp_code c \<noteq> -1) (j_int J (c_resp_code c)) \<and>
     m ''resp_reason'' = opt_member (c_resp_reason c \<noteq> []) (j_string J (c_resp_reason c)) \<and>
     array_of J items (c_resp_headers c) (m ''resp_headers'') \<and>
     m ''resp_body'' = opt_member (c_resp_body c \<noteq> []) (j_string J (base64_encode B (c_resp_body c))) \<and>
     m ''truncated'' = Some (j_bool J (c_truncated c)) \<and>
     m ''error_message'' = opt_member (c_error_message c \<noteq> []) (j_string J (c_error_message c)) \<and>
     m ''redirect_uri'' = opt_member (u_str (c_redirect_uri c) \<noteq> []) (j_string J (u_str (c_redirect_uri c))) \<and>
     dom m \<subseteq> {''id'', ''summary'', ''method'', ''uri'', ''req_headers'', ''resp_code'', ''resp_reason'',
       ''resp_headers'', ''resp_body'', ''truncated'', ''error_message'', ''redirect_uri''}"

lemma fold_outcome_stepI:
  "f j = Inr j' \<Longrightarrow> fold_outcome (\<lambda>set j. set j) fs j' = r \<Longrightarrow> fold_outcome (\<lambda>set j. set j) (f # fs) j = r"
  by simp

context json_laws
begin

lemma body_fields:
  "fields j = Some m \<Longrightarrow> \<exists>j'. (if b \<noteq> [] then j_set J j k (j_string J (base64_encode B b)) else Inr j) = Inr j' \<and>
     fields j' = Some (if b = [] then m else m(k \<mapsto> j_string J (base64_encode B b)))"
  using set_field [of j m k "j_string J (base64_encode B b)"] by auto

lemma to_json_fields:
  "\<exists>j m. to_json J B c = Inr j \<and> fields j = Some m \<and> json_of_context J items B c m"
proof -
  obtain j1 m1 where 1: "SET_LONG J ''id'' (c_id c) (j_null J) = Inr j1" "fields j1 = Some m1"
    "m1 = (if c_id c = -1 then Map.empty else [''id'' \<mapsto> j_int J (c_id c)])"
    using SET_LONG_fields [OF fields_null] by blast
  obtain j2 m2 where 2: "SET_STRING J ''summary'' (c_summary c) j1 = Inr j2" "fields j2 = Some m2"
    "m2 = (if c_summary c = [] then m1 else m1(''summary'' \<mapsto> j_string J (c_summary c)))"
    using SET_STRING_fields [OF 1(2)] by blast
  obtain j3 m3 where 3: "SET_STRING J ''method'' (c_method c) j2 = Inr j3" "fields j3 = Some m3"
    "m3 = (if c_method c = [] then m2 else m2(''method'' \<mapsto> j_string J (c_method c)))"
    using SET_STRING_fields [OF 2(2)] by blast
  obtain j4 m4 where 4: "SET_URI J ''uri'' (c_uri c) j3 = Inr j4" "fields j4 = Some m4"
    "m4 = (if u_str (c_uri c) = [] then m3 else m3(''uri'' \<mapsto> j_string J (u_str (c_uri c))))"
    using SET_URI_fields [OF 3(2)] by blast
  have "m4 ''req_headers'' = None" by (simp add: 1(3) 2(3) 3(3) 4(3))
  then obtain j5 m5 where 5: "SET_STRING_LIST J ''req_headers'' (c_req_headers c) j4 = Inr j5"
    "fields j5 = Some m5" "array_of J items (c_req_headers c) (m5 ''req_headers'')"
    "\<forall>k. k \<noteq> ''req_headers'' \<longrightarrow> m5 k = m4 k"
    using SET_STRING_LIST_fields [OF 4(2)] by blast
  obtain j6 m6 where 6: "SET_LONG J ''resp_code'' (c_resp_code c) j5 = Inr j6" "fields j6 = Some m6"
    "m6 = (if c_resp_code c = -1 then m5 else m5(''resp_code'' \<mapsto> j_int J (c_resp_code c)))"
    using SET_LONG_fields [OF 5(2)] by blast
  obtain j7 m7 where 7: "SET_STRING J ''resp_reason'' (c_resp_reason c) j6 = Inr j7" "fields j7 = Some m7"
    "m7 = (if c_resp_reason c = [] then m6 else m6(''resp_reason'' \<mapsto> j_string J (c_resp_reason c)))"
    using SET_STRING_fields [OF 6(2)] by blast
  have "m7 ''resp_headers'' = None" by (simp add: 1(3) 2(3) 3(3) 4(3) 5(4) 6(3) 7(3))
  then obtain j8 m8 where 8: "SET_STRING_LIST J ''resp_headers'' (c_resp_headers c) j7 = Inr j8"
    "fields j8 = Some m8" "array_of J items (c_resp_headers c) (m8 ''resp_headers'')"
    "\<forall>k. k \<noteq> ''resp_headers'' \<longrightarrow> m8 k = m7 k"
    using SET_STRING_LIST_fields [OF 7(2)] by blast
  obtain j9 m9 where 9: "(if c_resp_body c \<noteq> [] then j_set J j8 ''resp_body''
      (j_string J (base64_encode B (c_resp_body c))) else Inr j8) = Inr j9" "fields j9 = Some m9"
    "m9 = (if c_resp_body c = [] then m8 else m8(''resp_body'' \<mapsto> j_string J (base64_encode B (c_resp_body c))))"
    using body_fields [OF 8(2)] by blast
  obtain ja ma where a: "SET_BOOL J ''truncated'' (c_truncated c) j9 = Inr ja" "fields ja = Some ma"
    "ma = m9(''truncated'' \<mapsto> j_bool J (c_truncated c))"
    using SET_BOOL_fields [OF 9(2)] by blast
  obtain jb mb where b: "SET_STRING J ''error_message'' (c_error_message c) ja = Inr jb" "fields jb = Some mb"
    "mb = (if c_error_message c = [] then ma else ma(''error_message'' \<mapsto> j_string J (c_error_message c)))"
    using SET_STRING_fields [OF a(2)] by blast
  obtain jc mc where c: "SET_URI J ''redirect_uri'' (c_redirect_uri c) jb = Inr jc" "fields jc = Some mc"
    "mc = (if u_str (c_redirect_uri c) = [] then mb else mb(''redirect_uri'' \<mapsto> j_string J (u_str (c_redirect_uri c))))"
    using SET_URI_fields [OF b(2)] by blast
  have "to_json J B c = Inr jc"
    unfolding to_json_def fold_outcome.simps 1(1) 2(1) 3(1) 4(1) 5(1) 6(1) 7(1) 8(1) 9(1) a(1) b(1) c(1)
      bind_outcome.simps ..
  moreover note maps = 1(3) 2(3) 3(3) 4(3) 5(4) 6(3) 7(3) 8(4) 9(3) a(3) b(3) c(3)
  have "json_of_context J items B c mc"
    unfolding json_of_context_def
  proof (intro conjI)
    show "array_of J items (c_req_headers c) (mc ''req_headers'')"
      using 5(3) by (simp add: maps)
    show "array_of J items (c_resp_headers c) (mc ''resp_headers'')"
      using 8(3) by (simp add: maps)
    show "dom mc \<subseteq> {''id'', ''summary'', ''method'', ''uri'', ''req_headers'', ''resp_code'', ''resp_reason'',
       ''resp_headers'', ''resp_body'', ''truncated'', ''error_message'', ''redirect_uri''}"
    proof
      fix k assume "k \<in> dom mc"
      then show "k \<in> {''id'', ''summary'', ''method'', ''uri'', ''req_headers'', ''resp_code'', ''resp_reason'',
       ''resp_headers'', ''resp_body'', ''truncated'', ''error_message'', ''redirect_uri''}"
        by (rule contrapos_pp) (simp add: domIff maps)
    qed
  qed (simp_all add: maps opt_member_def)
  ultimately show ?thesis using c(2) by blast
qed

end

text \<open>Reading a member that is missing, or a string, or an array of strings.\<close>

definition string_member :: "'j json \<Rightarrow> (string \<rightharpoonup> 'j) \<Rightarrow> string \<Rightarrow> string option \<Rightarrow> bool" where
  "string_member J m k s' \<longleftrightarrow> m k = map_option (j_string J) s'"

definition strings_member ::
  "'j json \<Rightarrow> ('j \<Rightarrow> 'j list option) \<Rightarrow> (string \<rightharpoonup> 'j) \<Rightarrow> string \<Rightarrow> string list option \<Rightarrow> bool" where
  "strings_member J items m k vs' \<longleftrightarrow> (case vs' of None \<Rightarrow> m k = None
     | Some vs \<Rightarrow> \<exists>a. m k = Some a \<and> items a = Some (map (j_string J) vs))"

context json_laws
begin

lemma GET_STRING_member:
  assumes "fields j = Some m" "string_member J m k s'"
  shows "GET_STRING J j k old = Inr (case s' of None \<Rightarrow> old | Some s \<Rightarrow> s)"
  using assms
  by (cases s') (simp_all add: GET_STRING_def string_member_def member_field domIff get_field as_string)

lemma GET_URI_member:
  assumes "fields j = Some m" "string_member J m k s'"
  shows "GET_URI J j k old = (case s' of None \<Rightarrow> Inr old | Some s \<Rightarrow> Uri s)"
  using assms
  by (cases s') (simp_all add: GET_URI_def string_member_def member_field domIff get_field as_string)

lemma map_as_string: "map_outcome (j_as_string J) (map (j_string J) vs) = Inr vs"
  by (induction vs) (simp_all add: as_string)

lemma GET_STRING_LIST_member:
  assumes "fields j = Some m" "strings_member J items m k vs'"
  shows "GET_STRING_LIST J j k old = Inr (old @ (case vs' of None \<Rightarrow> [] | Some vs \<Rightarrow> vs))"
  using assms
  by (cases vs') (auto simp: GET_STRING_LIST_def strings_member_def member_field domIff get_field
      map_as_string dest: elems_items)

lemma from_json_members:
  assumes "fields j = Some m" and "string_member J m ''method'' me'" and "string_member J m ''uri'' u'"
    and "strings_member J items m ''req_headers'' hs'"
  shows "from_json J j c = bind_outcome (case u' of None \<Rightarrow> Inr (c_uri c) | Some s \<Rightarrow> Uri s)
    (\<lambda>u. Inr (c\<lparr>c_method := (case me' of None \<Rightarrow> c_method c | Some s \<Rightarrow> s), c_uri := u,
       c_req_headers := c_req_headers c @ (case hs' of None \<Rightarrow> [] | Some hs \<Rightarrow> hs)\<rparr>))"
  by (simp add: from_json_def GET_STRING_member [OF assms(1,2)] GET_URI_member [OF assms(1,3)]
      GET_STRING_LIST_member [OF assms(1,4)])

lemma printed_members:
  assumes "json_of_context J items B c m"
  shows "string_member J m ''method'' (if c_method c = [] then None else Some (c_method c))"
    and "string_member J m ''uri'' (if u_str (c_uri c) = [] then None else Some (u_str (c_uri c)))"
    and "strings_member J items m ''req_headers''
      (if c_req_headers c = [] then None else Some (c_req_headers c))"
  using assms
  by (auto simp: json_of_context_def string_member_def strings_member_def opt_member_def array_of_def)

end

lemma Uri_str: "Uri s = Inr u \<Longrightarrow> u_str u = s"
  by (auto simp: Uri_def Let_def empty_uri_def bind_outcome_Inr_iff split: option.splits if_splits)

section \<open>Properties\<close>

text \<open>\<open>to_json\<close> never fails, and the object it returns holds exactly the members the record
  calls for: scalars that are not at their default, strings that are not empty, one array per
  string list that is not empty with its strings in order, the body in base64, \<open>truncated\<close>
  always, and nothing else (no time stamp, address or \<open>done\<close> flag).\<close>

theorem to_json_members:
  assumes "json_laws J mems items"
  shows "\<exists>j m. to_json J B c = Inr j \<and> mems j = Some m \<and> json_of_context J items B c m"
  by (rule json_laws.to_json_fields [OF assms])

definition sample_context :: crawl_context where
  "sample_context = CrawlContext\<lparr>c_id := 7, c_method := ''GET'',
     c_uri := (empty_uri ''http://a/b'')\<lparr>u_scheme := ''http'', u_host := ''a'', u_port := 80, u_path := ''/b''\<rparr>,
     c_req_headers := [''A: b'', ''C: d'']\<rparr>"

lemma sample_uri: "Uri ''http://a/b'' = Inr (c_uri sample_context)"
proof -
  let ?p = "\<lparr>p_scheme = ''http'', p_user = None, p_host = ''a'', p_port = None, p_path = Some ''b'',
    p_query = None, p_fragment = None\<rparr>"
  have r: "render ?p = ''http://a/b''" and "wf_parts ?p" and "canonical ?p"
    by (simp_all add: render_def rest_text_def wf_parts_def wf_user_def wf_rest_def canonical_def
        canonical_rest_def lower_def)
  then have "Uri ''http://a/b'' = uri_of_parts ?p"
    using run_canonical Uri_of_match by metis
  then show ?thesis
    by (simp add: uri_of_parts_def port_of_def sample_context_def r empty_uri_def)
qed

theorem to_json_members_witness:
  "\<exists>m. to_json jv rfc4648 sample_context = Inr (JObject m) \<and> m ''id'' = Some (JInt 7) \<and>
     m ''req_headers'' = Some (JArray [JString ''A: b'', JString ''C: d'']) \<and> m ''summary'' = None"
proof -
  obtain j m where j: "to_json jv rfc4648 sample_context = Inr j" "jv_fields j = Some m"
    "json_of_context jv jv_items rfc4648 sample_context m"
    using to_json_members [OF jv.json_laws_axioms] by blast
  have "m ''id'' = Some (JInt 7)" "m ''req_headers'' = Some (JArray [JString ''A: b'', JString ''C: d''])"
    "m ''summary'' = None"
    using j(3) by (auto simp: json_of_context_def sample_context_def CrawlContext_def opt_member_def
        array_of_def jv_items_cases)
  moreover from this j(2) have "j = JObject m" by (cases j) auto
  ultimately show ?thesis using j(1) by blast
qed

text \<open>C28: \<open>from_json\<close> reads back the part of a context it is meant to read: printing any context
  and reading the result into a new one gives its method, its address and its request headers in
  order, and leaves every other field as the constructor set it.\<close>

theorem context_roundtrip:
  assumes "json_laws J mems items"
    and "Uri s = Inr (c_uri c)"
  shows "\<exists>j. to_json J B c = Inr j \<and> from_json J j CrawlContext =
    Inr (CrawlContext\<lparr>c_method := c_method c, c_uri := c_uri c, c_req_headers := c_req_headers c\<rparr>)"
proof -
  obtain j m where j: "to_json J B c = Inr j" "mems j = Some m" "json_of_context J items B c m"
    using json_laws.to_json_fields [OF assms(1)] by blast
  note members = json_laws.printed_members [OF assms(1) j(3)]
  have "u_str (c_uri c) = s" using assms(2) by (rule Uri_str)
  moreover have "c_uri c = empty_uri []" if "s = []"
    using assms(2) that by (simp add: Uri_def)
  ultimately show ?thesis
    using j(1) json_laws.from_json_members [OF assms(1) j(2) members, of CrawlContext] assms(2)
    by (auto simp: CrawlContext_def)
qed

theorem context_roundtrip_witness:
  "\<exists>j. to_json jv rfc4648 sample_context = Inr j \<and> from_json jv j CrawlContext =
     Inr (sample_context\<lparr>c_id := -1\<rparr>)"
  using context_roundtrip [OF jv.json_laws_axioms sample_uri]
  by (simp add: sample_context_def CrawlContext_def)

text \<open>What \<open>from_json\<close> does to any context. Members that are missing leave the field as it
  was, the headers are appended to those already there, and a \<open>uri\<close> that does not parse makes the
  whole call fail with the error of the \<open>Uri\<close> constructor.\<close>

theorem from_json_reads:
  assumes "json_laws J mems items" and "mems j = Some m"
    and "string_member J m ''method'' me'" and "string_member J m ''uri'' u'"
    and "strings_member J items m ''req_headers'' hs'"
  shows "from_json J j c = (case (case u' of None \<Rightarrow> Inr (c_uri c) | Some s \<Rightarrow> Uri s) of
      Inl e \<Rightarrow> Inl e
    | Inr u \<Rightarrow> Inr (c\<lparr>c_method := (case me' of None \<Rightarrow> c_method c | Some s \<Rightarrow> s), c_uri := u,
        c_req_headers := c_req_headers c @ (case hs' of None \<Rightarrow> [] | Some hs \<Rightarrow> hs)\<rparr>))"
  using json_laws.from_json_members [OF assms, of c]
  by (auto split: sum.split simp: bind_outcome_Inr_iff bind_outcome_Inl_iff)

theorem from_json_reads_witness:
  "from_json jv (JObject [''req_headers'' \<mapsto> JArray [JString ''A: b'']]) sample_context =
     Inr (sample_context\<lparr>c_req_headers := [''A: b'', ''C: d'', ''A: b'']\<rparr>)"
  by (subst from_json_reads [OF jv.json_laws_axioms, where m = "[''req_headers'' \<mapsto> JArray [JString ''A: b'']]"
        and me' = None and u' = None and hs' = "Some [''A: b'']"])
    (simp_all add: string_member_def strings_member_def sample_context_def CrawlContext_def)

end
