(* ===== verification/Fetcher.thy ===== *)
theory Fetcher
  imports CrawlContext Resolver EventServer
begin

text \<open>
  \<open>Fetcher/Fetcher.cpp\<close>: accepts fetch tasks, resolves their hosts, runs the transfers with
  libcurl's multi interface on an event server, and hands out the finished ones. This theory
  holds the operations; \<open>Fetcher_Tasks\<close> the steps and invariants of the running program.

  libcurl is not part of the repository. The model keeps what the code stores in it (the options
  of each easy handle, the handles added to the multi handle, the pointer assigned to each
  socket); what it does on its own (the callbacks it makes, the messages it leaves) are inputs.
\<close>

unbundle bit_operations_syntax

section \<open>State\<close>

definition kMaxTasksCnt :: nat where "kMaxTasksCnt = 32768"
definition kMaxBodySize :: nat where "kMaxBodySize = 4096 * 1024"

text \<open>
  The closures handed to the event server. A context, an easy handle and a promise are known by
  their addresses; the closure for a resolver is the address of the context it captures.
\<close>

datatype fetcher_cb =
    StartTransfer nat
  | CollectDone nat
  | SocketEvent nat
  | MultiTimer
  | Stats

text \<open>The options set on an easy handle; the last three pointers are raw.\<close>

record easy =
  e_url :: string
  e_useragent :: string
  e_accept_encoding :: string
  e_content_decoding :: int
  e_timeout :: int
  e_followlocation :: int
  e_maxredirs :: int
  e_httpheader :: "string list"
  e_resolve :: "string list"
  e_private :: nat
  e_headerdata :: nat
  e_writedata :: nat

text \<open>
  \<open>f_ctxs\<close> holds the contexts by address, \<open>f_socks\<close> the \<open>SocketCtx\<close> objects (read and write
  handle). \<open>f_tick\<close> counts the readings of the outside world.
\<close>

record ('j, 'eb) fetcher =
  f_es :: "(fetcher_cb, 'eb) event_server"
  f_resolver :: "nat resolver"
  f_timer :: "nat option"
  f_stats_timer :: "nat option"
  f_tasks :: "nat list"
  f_ctxs :: "nat \<rightharpoonup> crawl_context"
  f_promises :: "nat \<rightharpoonup> 'j"
  f_easys :: "nat \<rightharpoonup> easy"
  f_multi :: "nat list"
  f_socks :: "nat \<rightharpoonup> nat \<times> nat"
  f_next_sock :: nat
  f_assigned :: "int \<rightharpoonup> nat"
  f_tick :: nat

text \<open>
  The outside world: the clock and \<open>rand()\<close> by reading, the allocator of contexts (an address
  not in use), \<open>curl_easy_init\<close> (a handle not in use, or null), whether
  \<open>curl_multi_add_handle\<close> succeeds, and the error texts of libevent and libcurl.
\<close>

record fenv =
  en_clock :: "nat \<Rightarrow> timeval"
  en_rand :: "nat \<Rightarrow> nat"
  en_alloc :: "(nat \<rightharpoonup> crawl_context) \<Rightarrow> nat"
  en_easy_init :: "(nat \<rightharpoonup> easy) \<Rightarrow> nat option"
  en_add_handle :: "nat \<Rightarrow> bool"
  en_dns_error :: "int \<Rightarrow> string"
  en_curl_strerror :: "int \<Rightarrow> string"

definition read_clock :: "fenv \<Rightarrow> ('j, 'eb) fetcher \<Rightarrow> timeval \<times> ('j, 'eb) fetcher" where
  "read_clock E s = (en_clock E (f_tick s), s\<lparr>f_tick := Suc (f_tick s)\<rparr>)"

definition read_ms :: "fenv \<Rightarrow> ('j, 'eb) fetcher \<Rightarrow> int \<times> ('j, 'eb) fetcher" where
  "read_ms E s = (let (tv, s1) = read_clock E s in (sint (now_in_ms tv), s1))"

definition read_rand :: "fenv \<Rightarrow> ('j, 'eb) fetcher \<Rightarrow> nat \<times> ('j, 'eb) fetcher" where
  "read_rand E s = (en_rand E (f_tick s), s\<lparr>f_tick := Suc (f_tick s)\<rparr>)"

definition es_do ::
  "((fetcher_cb, 'eb) event_server \<Rightarrow> (fetcher_cb, 'eb) event_server outcome) \<Rightarrow>
   ('j, 'eb) fetcher \<Rightarrow> ('j, 'eb) fetcher outcome" where
  "es_do f s = bind_outcome (f (f_es s)) (\<lambda>es. Inr (s\<lparr>f_es := es\<rparr>))"

text \<open>
  Access to a context through a shared pointer, and through a raw one: a raw pointer is good
  while \<open>tasks_\<close> owns the context.
\<close>

definition get_ctx :: "nat \<Rightarrow> ('j, 'eb) fetcher \<Rightarrow> crawl_context outcome" where
  "get_ctx p s = (case f_ctxs s p of
      None \<Rightarrow> Inl (Undefined ''dangling CrawlContext'') | Some c \<Rightarrow> Inr c)"

definition set_ctx :: "nat \<Rightarrow> crawl_context \<Rightarrow> ('j, 'eb) fetcher \<Rightarrow> ('j, 'eb) fetcher" where
  "set_ctx p c s = s\<lparr>f_ctxs := (f_ctxs s)(p \<mapsto> c)\<rparr>"

definition raw_ctx :: "nat \<Rightarrow> ('j, 'eb) fetcher \<Rightarrow> crawl_context outcome" where
  "raw_ctx p s =
     (if p \<in> set (f_tasks s) then get_ctx p s else Inl (Undefined ''dangling CrawlContext''))"

section \<open>The callbacks libcurl writes to\<close>

definition write_header_cb ::
  "string \<Rightarrow> 64 word \<Rightarrow> 64 word \<Rightarrow> crawl_context \<Rightarrow> crawl_context \<times> 64 word" where
  "write_header_cb buffer sz nitems c =
     (c\<lparr>c_resp_headers := c_resp_headers c @ [take (unat (sz * nitems)) buffer]\<rparr>, sz * nitems)"

definition write_body_cb ::
  "string \<Rightarrow> 64 word \<Rightarrow> 64 word \<Rightarrow> crawl_context \<Rightarrow> crawl_context \<times> 64 word" where
  "write_body_cb ptr sz nmemb c =
     (if length (c_resp_body c) > kMaxBodySize then c\<lparr>c_truncated := True\<rparr>
      else c\<lparr>c_resp_body := c_resp_body c @ take (unat (sz * nmemb)) ptr\<rparr>, sz * nmemb)"

section \<open>Callbacks of the multi interface\<close>

text \<open>Constants of \<open>curl/multi.h\<close>.\<close>

definition CURL_POLL_IN :: int where "CURL_POLL_IN = 1"
definition CURL_POLL_OUT :: int where "CURL_POLL_OUT = 2"
definition CURL_POLL_INOUT :: int where "CURL_POLL_INOUT = 3"
definition CURL_POLL_REMOVE :: int where "CURL_POLL_REMOVE = 4"
definition CURL_SOCKET_TIMEOUT :: int where "CURL_SOCKET_TIMEOUT = -1"

definition new_socket_ctx ::
  "'eb libevent \<Rightarrow> nat \<Rightarrow> int \<Rightarrow> ('j, 'eb) fetcher \<Rightarrow> ('j, 'eb) fetcher \<times> nat" where
  "new_socket_ctx L h sock s =
     (let a = f_next_sock s;
          (es1, rd) = add_fd L sock (READ OR PERSIST) (SocketEvent h) (f_es s);
          (es2, wr) = add_fd L sock (WRITE OR PERSIST) (SocketEvent h) es1
      in (s\<lparr>f_es := es2, f_socks := (f_socks s)(a \<mapsto> (rd, wr)), f_next_sock := Suc a,
            f_assigned := (f_assigned s)(sock \<mapsto> a)\<rparr>, a))"

definition socket_cb ::
  "'eb libevent \<Rightarrow> nat \<Rightarrow> int \<Rightarrow> int \<Rightarrow> nat option \<Rightarrow> ('j, 'eb) fetcher \<Rightarrow> ('j, 'eb) fetcher outcome" where
  "socket_cb L h sock w socketp s0 =
     (let (s, a) = (case socketp of None \<Rightarrow> new_socket_ctx L h sock s0 | Some a \<Rightarrow> (s0, a)) in
      case f_socks s a of
        None \<Rightarrow> Inl (Undefined ''dangling SocketCtx'')
      | Some (rd, wr) \<Rightarrow>
          if w = CURL_POLL_IN then
            bind_outcome (es_do (start L rd (-1)) s) (es_do (stop L wr))
          else if w = CURL_POLL_OUT then
            bind_outcome (es_do (start L wr (-1)) s) (es_do (stop L rd))
          else if w = CURL_POLL_INOUT then
            bind_outcome (es_do (start L rd (-1)) s) (es_do (start L wr (-1)))
          else if w = CURL_POLL_REMOVE then
            bind_outcome (es_do (remove L rd) s) (\<lambda>s1.
            bind_outcome (es_do (remove L wr) s1) (\<lambda>s2.
              Inr (s2\<lparr>f_socks := (f_socks s2)(a := None), f_assigned := (f_assigned s2)(sock := None)\<rparr>)))
          else Inl CheckFailed)"

definition timer_cb ::
  "'eb libevent \<Rightarrow> int64 \<Rightarrow> ('j, 'eb) fetcher \<Rightarrow> ('j, 'eb) fetcher outcome" where
  "timer_cb L timeout_ms s =
     (if 0 \<le> sint timeout_ms then
        let (s1, h) = (case f_timer s of
            Some h \<Rightarrow> (s, h)
          | None \<Rightarrow> let (es, h) = add_timer L (ClientTimer MultiTimer) 0 (f_es s)
              in (s\<lparr>f_es := es, f_timer := Some h\<rparr>, h))
        in es_do (start L h timeout_ms) s1
      else Inr s)"

text \<open>
  What libcurl may do inside \<open>curl_multi_socket_action\<close>: call back with data for a transfer, with
  a change of the sockets it watches, or with a new timeout; the last two also inside
  \<open>curl_multi_add_handle\<close>, \<open>curl_multi_remove_handle\<close> and \<open>curl_multi_cleanup\<close>. It passes the
  pointers the code stored.
\<close>

datatype curl_action =
    Header nat string
  | Body nat string
  | Socket nat int int
  | Timer int64

fun perform ::
  "'eb libevent \<Rightarrow> curl_action \<Rightarrow> ('j, 'eb) fetcher \<Rightarrow> ('j, 'eb) fetcher outcome" where
  "perform L (Header h b) s = (case f_easys s h of
      None \<Rightarrow> Inl (Undefined ''dangling CURL'')
    | Some e \<Rightarrow> bind_outcome (raw_ctx (e_headerdata e) s) (\<lambda>c.
        Inr (set_ctx (e_headerdata e) (fst (write_header_cb b 1 (of_nat (length b)) c)) s)))"
| "perform L (Body h b) s = (case f_easys s h of
      None \<Rightarrow> Inl (Undefined ''dangling CURL'')
    | Some e \<Rightarrow> bind_outcome (raw_ctx (e_writedata e) s) (\<lambda>c.
        Inr (set_ctx (e_writedata e) (fst (write_body_cb b 1 (of_nat (length b)) c)) s)))"
| "perform L (Socket h sock w) s = socket_cb L h sock w (f_assigned s sock) s"
| "perform L (Timer ms) s = timer_cb L ms s"

section \<open>Adding a task\<close>

definition resolver_cb ::
  "'eb libevent \<Rightarrow> fenv \<Rightarrow> nat \<Rightarrow> string list \<Rightarrow> status \<Rightarrow>
   ('j, 'eb) fetcher \<Rightarrow> ('j, 'eb) fetcher outcome" where
  "resolver_cb L E p addrs st s = bind_outcome (get_ctx p s) (\<lambda>c0.
     let (t, s1) = read_ms E s; c = c0\<lparr>c_end_resolve_time_ms := Some t\<rparr> in
     if \<not> is_ok st then
       let (t2, s2) = read_ms E s1 in
       Inr (set_ctx p (c\<lparr>c_done := True, c_end_req_time_ms := Some t2, c_error_message := st_msg st\<rparr>) s2)
     else if addrs = [] then Inl (Undefined ''division by zero'')
     else
       let (n, s2) = read_rand E s1 in
       es_do (add_async L (StartTransfer p)) (set_ctx p (c\<lparr>c_ip := addrs ! (n mod length addrs)\<rparr>) s2))"

definition add ::
  "'eb libevent \<Rightarrow> fenv \<Rightarrow> nat \<Rightarrow> ('j, 'eb) fetcher \<Rightarrow> ('j, 'eb) fetcher outcome" where
  "add L E p s = bind_outcome (get_ctx p s) (\<lambda>c.
     let (t, s1) = read_ms E s;
         (tv, s2) = read_clock E (set_ctx p (c\<lparr>c_start_req_time_ms := Some t\<rparr>) s1);
         (r, calls) = resolve tv (u_host (c_uri c)) p (f_resolver s2)
     in fold_outcome (\<lambda>(q, addrs, st). resolver_cb L E q addrs st) calls (s2\<lparr>f_resolver := r\<rparr>))"

text \<open>
  The closure that starts a transfer, run by the loop; \<open>acts\<close> are the callbacks libcurl makes
  when the handle is added. Without a handle or when adding fails nothing runs, and the context
  is put into \<open>tasks_\<close> all the same.
\<close>

definition context_lists :: "crawl_context \<Rightarrow> fetcher_context" where
  "context_lists c = \<lparr>
     fc_req_headers = ''Accept-Language: en-US,en;q=0.5'' # map c_str (c_req_headers c),
     fc_resolve_list = map c_str
       [u_host (c_uri c) @ '':80:'' @ c_ip c,
        u_host (c_uri c) @ '':443:'' @ c_ip c,
        u_host (c_uri c) @ '':'' @ to_string (u_port (c_uri c)) @ '':'' @ c_ip c]\<rparr>"

definition easy_options :: "nat \<Rightarrow> crawl_context \<Rightarrow> fetcher_context \<Rightarrow> easy" where
  "easy_options p c fc = \<lparr>e_url = c_str (u_str (c_uri c)),
     e_useragent = ''Mozilla/5.0 (Macintosh; Intel Mac OS X 10.11; rv:43.0) Gecko/20100101 Firefox/43.0'',
     e_accept_encoding = ''gzip, deflate'', e_content_decoding = 1, e_timeout = 90,
     e_followlocation = 1, e_maxredirs = 3, e_httpheader = fc_req_headers fc,
     e_resolve = fc_resolve_list fc, e_private = p, e_headerdata = p, e_writedata = p\<rparr>"

definition start_transfer ::
  "'eb libevent \<Rightarrow> fenv \<Rightarrow> curl_action list \<Rightarrow> nat \<Rightarrow> ('j, 'eb) fetcher \<Rightarrow> ('j, 'eb) fetcher outcome" where
  "start_transfer L E acts p s = bind_outcome (get_ctx p s) (\<lambda>c.
     let fc = context_lists c; s1 = set_ctx p (c\<lparr>c_sub_ctx := Some fc\<rparr>) s in
     bind_outcome (case en_easy_init E (f_easys s1) of
         None \<Rightarrow> Inr s1
       | Some h \<Rightarrow>
           let s2 = s1\<lparr>f_easys := (f_easys s1)(h \<mapsto> easy_options p c fc), f_tick := Suc (f_tick s1)\<rparr> in
           if en_add_handle E (f_tick s1)
           then fold_outcome (perform L) acts (s2\<lparr>f_multi := f_multi s2 @ [h]\<rparr>)
           else Inr s2)
       (\<lambda>s3. Inr (s3\<lparr>f_tasks := f_tasks s3 @ [p]\<rparr>)))"

section \<open>The two requests\<close>

text \<open>
  \<open>create_tasks_req\<close>: the first loop makes the contexts, the second prints and adds them. When
  the first throws, its contexts are gone and nothing else has happened; when printing throws in
  the second, the tasks already added stay. \<open>add\<close> itself throws nothing.
\<close>

fun parse_tasks ::
  "'j json \<Rightarrow> fenv \<Rightarrow> 'j list \<Rightarrow> ('j, 'eb) fetcher \<Rightarrow> (('j, 'eb) fetcher \<times> nat list) outcome" where
  "parse_tasks J E [] s = Inr (s, [])"
| "parse_tasks J E (task # tasks) s =
     (let p = en_alloc E (f_ctxs s) in
      bind_outcome (from_json J task CrawlContext) (\<lambda>c.
      bind_outcome (parse_tasks J E tasks
          (set_ctx p (c\<lparr>c_id := int p, c_summary := c_method c @ '':'' @ u_str (c_uri c)\<rparr>) s))
        (\<lambda>(s', ps). Inr (s', p # ps))))"

definition parse_request ::
  "'j json \<Rightarrow> fenv \<Rightarrow> 'j \<Rightarrow> ('j, 'eb) fetcher \<Rightarrow> (('j, 'eb) fetcher \<times> nat list) outcome" where
  "parse_request J E req s = bind_outcome (j_get J req ''tasks'') (\<lambda>ts.
     if length (f_tasks s) + j_size J ts > kMaxTasksCnt
     then Inl (Throw (LengthError ''Too many pending tasks''))
     else parse_tasks J E (j_elems J ts) s)"

text \<open>\<open>resp["tasks"].append(ctx->to_json())\<close>\<close>

definition append_task :: "'j json \<Rightarrow> b64 \<Rightarrow> crawl_context \<Rightarrow> 'j \<Rightarrow> 'j outcome" where
  "append_task J B c resp = bind_outcome (j_get J resp ''tasks'') (\<lambda>a.
     bind_outcome (to_json J B c) (\<lambda>x. bind_outcome (j_append J a x) (\<lambda>a'. j_set J resp ''tasks'' a')))"

fun add_tasks ::
  "'eb libevent \<Rightarrow> 'j json \<Rightarrow> b64 \<Rightarrow> fenv \<Rightarrow> nat list \<Rightarrow> 'j \<Rightarrow> ('j, 'eb) fetcher \<Rightarrow>
   (('j, 'eb) fetcher \<times> (exn + 'j)) outcome" where
  "add_tasks L J B E [] resp s = Inr (s, Inr resp)"
| "add_tasks L J B E (p # ps) resp s = bind_outcome (get_ctx p s) (\<lambda>c.
     case append_task J B c resp of
       Inl (Throw e) \<Rightarrow> Inr (s, Inl e)
     | Inl f \<Rightarrow> Inl f
     | Inr resp' \<Rightarrow> bind_outcome (add L E p s) (add_tasks L J B E ps resp'))"

definition error_response :: "'j json \<Rightarrow> exn \<Rightarrow> 'j outcome" where
  "error_response J e = j_set J (j_object J) ''error'' (j_string J (what e))"

definition answer_with ::
  "'j json \<Rightarrow> ('j, 'eb) fetcher \<Rightarrow> exn + 'j \<Rightarrow> (('j, 'eb) fetcher \<times> 'j) outcome" where
  "answer_with J s r = (case r of
      Inl e \<Rightarrow> bind_outcome (error_response J e) (\<lambda>resp. Inr (s, resp))
    | Inr resp \<Rightarrow> Inr (s, resp))"

definition create_tasks_req ::
  "'eb libevent \<Rightarrow> 'j json \<Rightarrow> b64 \<Rightarrow> fenv \<Rightarrow> 'j \<Rightarrow> ('j, 'eb) fetcher \<Rightarrow>
   (('j, 'eb) fetcher \<times> 'j) outcome" where
  "create_tasks_req L J B E req s = (case parse_request J E req s of
      Inl (Throw e) \<Rightarrow> answer_with J s (Inl e)
    | Inl f \<Rightarrow> Inl f
    | Inr (s1, ps) \<Rightarrow> (case j_set J (j_object J) ''tasks'' (j_array J) of
          Inl (Throw e) \<Rightarrow> answer_with J s (Inl e)
        | Inl f \<Rightarrow> Inl f
        | Inr resp \<Rightarrow> bind_outcome (add_tasks L J B E ps resp s1) (\<lambda>(s2, r). answer_with J s2 r)))"

text \<open>
  \<open>get_done_tasks_req\<close> queues a closure and waits for the promise it sets. The closure pops the
  tasks from the back: finished ones go into the answer and out of the program, the others are
  kept, now in the opposite order.
\<close>

definition get_done_tasks_req ::
  "'eb libevent \<Rightarrow> nat \<Rightarrow> ('j, 'eb) fetcher \<Rightarrow> ('j, 'eb) fetcher outcome" where
  "get_done_tasks_req L q s = es_do (add_async L (CollectDone q)) s"

fun collect_loop ::
  "'j json \<Rightarrow> b64 \<Rightarrow> nat list \<Rightarrow> 'j \<Rightarrow> nat list \<Rightarrow> ('j, 'eb) fetcher \<Rightarrow>
   (('j, 'eb) fetcher \<times> 'j \<times> nat list) outcome" where
  "collect_loop J B [] resp busy s = Inr (s, resp, busy)"
| "collect_loop J B (p # back) resp busy s = bind_outcome (get_ctx p s) (\<lambda>c.
     if c_done c
     then bind_outcome (append_task J B c resp) (\<lambda>resp'.
       collect_loop J B back resp' busy (s\<lparr>f_ctxs := (f_ctxs s)(p := None)\<rparr>))
     else collect_loop J B back resp (busy @ [p]) s)"

definition collect_done ::
  "'j json \<Rightarrow> b64 \<Rightarrow> nat \<Rightarrow> ('j, 'eb) fetcher \<Rightarrow> ('j, 'eb) fetcher outcome" where
  "collect_done J B q s = bind_outcome (j_set J (j_object J) ''tasks'' (j_array J)) (\<lambda>resp.
     bind_outcome (collect_loop J B (rev (f_tasks s)) resp [] (s\<lparr>f_tasks := []\<rparr>))
       (\<lambda>(s', resp', busy). Inr (s'\<lparr>f_tasks := busy, f_promises := (f_promises s')(q \<mapsto> resp')\<rparr>)))"

text \<open>
  A message of \<open>curl_multi_info_read\<close>: the easy handle, whether it is \<open>CURLMSG_DONE\<close>, its result,
  and the response code \<open>curl_easy_getinfo\<close> gives for the handle.
\<close>

record curl_msg =
  m_easy :: nat
  m_done :: bool
  m_result :: int
  m_code :: int

text \<open>\<open>acts\<close> are the callbacks libcurl makes when the handle is removed.\<close>

definition handle_msg ::
  "'eb libevent \<Rightarrow> fenv \<Rightarrow> curl_action list \<Rightarrow> curl_msg \<Rightarrow> ('j, 'eb) fetcher \<Rightarrow> ('j, 'eb) fetcher outcome" where
  "handle_msg L E acts m s = (case f_easys s (m_easy m) of
      None \<Rightarrow> Inl (Undefined ''dangling CURL'')
    | Some e \<Rightarrow> bind_outcome (raw_ctx (e_private e) s) (\<lambda>c0.
        let c = c0\<lparr>c_resp_code := m_code m\<rparr> in
        if m_done m then
          let c1 = (if m_result m \<noteq> 0 then c\<lparr>c_error_message := en_curl_strerror E (m_result m)\<rparr> else c);
              (t, s1) = read_ms E s;
              s2 = set_ctx (e_private e) (c1\<lparr>c_done := True, c_end_req_time_ms := Some t\<rparr>) s1
          in bind_outcome (fold_outcome (perform L) acts
                 (s2\<lparr>f_multi := List.removeAll (m_easy m) (f_multi s2)\<rparr>))
               (\<lambda>s3. Inr (s3\<lparr>f_easys := (f_easys s3)(m_easy m := None)\<rparr>))
        else Inr (set_ctx (e_private e) c s)))"

text \<open>
  How libcurl reacts to \<open>curl_multi_socket_action\<close>, by socket and event mask: the callbacks it
  makes, the messages it leaves, and the number of transfers still running; and the callbacks it
  makes when a handle is added or removed.
\<close>

record reaction =
  rx_socket_action :: "int \<Rightarrow> int \<Rightarrow> curl_action list \<times> curl_msg list \<times> int"
  rx_add_handle :: "curl_action list"
  rx_remove_handle :: "nat \<Rightarrow> curl_action list"

definition check_multi_info ::
  "'eb libevent \<Rightarrow> fenv \<Rightarrow> reaction \<Rightarrow> curl_msg list \<Rightarrow> ('j, 'eb) fetcher \<Rightarrow> ('j, 'eb) fetcher outcome" where
  "check_multi_info L E react =
     fold_outcome (\<lambda>m. handle_msg L E (rx_remove_handle react (m_easy m)) m)"

section \<open>The closures\<close>

definition socket_what :: "int \<Rightarrow> int" where
  "socket_what events =
     (if events AND READ \<noteq> 0 then CURL_POLL_IN else 0) OR
     (if events AND WRITE \<noteq> 0 then CURL_POLL_OUT else 0)"

definition socket_event ::
  "'eb libevent \<Rightarrow> fenv \<Rightarrow> reaction \<Rightarrow> int \<Rightarrow> int \<Rightarrow> ('j, 'eb) fetcher \<Rightarrow> ('j, 'eb) fetcher outcome" where
  "socket_event L E react sock events s =
     (let (acts, msgs, still_running) = rx_socket_action react sock (socket_what events) in
      bind_outcome (fold_outcome (perform L) acts s) (\<lambda>s1.
      bind_outcome (check_multi_info L E react msgs s1) (\<lambda>s2.
        case f_timer s2 of
          Some h \<Rightarrow> if still_running = 0 then es_do (stop L h) s2 else Inr s2
        | None \<Rightarrow> Inr s2)))"

definition timer_event ::
  "'eb libevent \<Rightarrow> fenv \<Rightarrow> reaction \<Rightarrow> ('j, 'eb) fetcher \<Rightarrow> ('j, 'eb) fetcher outcome" where
  "timer_event L E react s =
     (let (acts, msgs, still_running) = rx_socket_action react CURL_SOCKET_TIMEOUT 0 in
      bind_outcome (fold_outcome (perform L) acts s) (check_multi_info L E react msgs))"

text \<open>A closure run by the loop.\<close>

fun run_call ::
  "'eb libevent \<Rightarrow> 'j json \<Rightarrow> b64 \<Rightarrow> fenv \<Rightarrow> reaction \<Rightarrow> fetcher_cb call \<Rightarrow>
   ('j, 'eb) fetcher \<Rightarrow> ('j, 'eb) fetcher outcome" where
  "run_call L J B E react (AsyncCall (StartTransfer p)) s = start_transfer L E (rx_add_handle react) p s"
| "run_call L J B E react (AsyncCall (CollectDone q)) s = collect_done J B q s"
| "run_call L J B E react (FdCall (SocketEvent h) sock events) s = socket_event L E react sock events s"
| "run_call L J B E react (TimerCall MultiTimer) s = timer_event L E react s"
| "run_call L J B E react (TimerCall Stats) s = Inr s"
| "run_call L J B E react _ s = Inl (Throw (LibraryError ''bad_function_call''))"

section \<open>Construction and destruction\<close>

definition Fetcher :: "'eb libevent \<Rightarrow> ('j, 'eb) fetcher outcome" where
  "Fetcher L = bind_outcome (EventServer L) (\<lambda>es0.
     let (es, h) = add_timer L (ClientTimer Stats) PERSIST es0 in
     bind_outcome (start L h 1000 es) (\<lambda>es1.
       Inr \<lparr>f_es = es1, f_resolver = Resolver, f_timer = None, f_stats_timer = Some h, f_tasks = [],
         f_ctxs = Map.empty, f_promises = Map.empty, f_easys = Map.empty, f_multi = [],
         f_socks = Map.empty, f_next_sock = 0, f_assigned = Map.empty, f_tick = 0\<rparr>))"

text \<open>
  \<open>curl_multi_cleanup\<close> may still call back; then the members go, the event server visiting its
  handles in the order \<open>hs\<close>.
\<close>

definition destroy_fetcher ::
  "'eb libevent \<Rightarrow> curl_action list \<Rightarrow> nat list \<Rightarrow> ('j, 'eb) fetcher \<Rightarrow> 'eb outcome" where
  "destroy_fetcher L acts hs s =
     bind_outcome (es_do (exit_loop L 0) s) (\<lambda>s1.
     bind_outcome (fold_outcome (perform L) acts s1) (\<lambda>s2. destroy L hs (f_es s2)))"

section \<open>Facts on single operations\<close>

lemma write_chunk: "length b < 2 ^ 64 \<Longrightarrow> take (unat (1 * (of_nat (length b) :: 64 word))) b = b"
  by (simp add: unat_of_nat)

lemma write_body_chunk:
  assumes "length b < 2 ^ 64"
  shows "fst (write_body_cb b 1 (of_nat (length b)) c) =
    (if length (c_resp_body c) > kMaxBodySize then c\<lparr>c_truncated := True\<rparr>
     else c\<lparr>c_resp_body := c_resp_body c @ b\<rparr>)"
  using write_chunk [OF assms] by (simp add: write_body_cb_def)

lemma read_clock_sel [simp]:
  "f_tasks (snd (read_clock E s)) = f_tasks s" "f_ctxs (snd (read_clock E s)) = f_ctxs s"
  "f_es (snd (read_clock E s)) = f_es s"
  by (simp_all add: read_clock_def)

lemma es_do_Inr: "es_do f s = Inr s' \<longleftrightarrow> (\<exists>es. f (f_es s) = Inr es \<and> s' = s\<lparr>f_es := es\<rparr>)"
  by (auto simp: es_do_def bind_outcome_Inr_iff)

lemma get_ctx_Inr: "get_ctx p s = Inr c \<longleftrightarrow> f_ctxs s p = Some c"
  by (auto simp: get_ctx_def split: option.split)

lemma raw_ctx_Inr: "raw_ctx p s = Inr c \<longleftrightarrow> p \<in> set (f_tasks s) \<and> f_ctxs s p = Some c"
  by (auto simp: raw_ctx_def get_ctx_Inr)

section \<open>A concrete fetcher\<close>

text \<open>For the witnesses: the smallest address above those in use, a clock that stands still.\<close>

definition fresh_key :: "(nat \<rightharpoonup> 'a) \<Rightarrow> nat" where
  "fresh_key m = Suc (Max (insert 0 (dom m)))"

lemma fresh_key: "finite (dom m) \<Longrightarrow> fresh_key m \<notin> dom m"
proof
  assume "finite (dom m)" "fresh_key m \<in> dom m"
  then have "fresh_key m \<le> Max (insert 0 (dom m))" by (intro Max_ge) auto
  then show False by (simp add: fresh_key_def)
qed

definition env0 :: fenv where
  "env0 = \<lparr>en_clock = (\<lambda>_. epoch), en_rand = (\<lambda>_. 0), en_alloc = fresh_key,
     en_easy_init = (\<lambda>m. Some (fresh_key m)), en_add_handle = (\<lambda>_. True),
     en_dns_error = (\<lambda>_. ''dns error''), en_curl_strerror = (\<lambda>_. ''curl error'')\<rparr>"

definition fetcher0 :: "(jvalue, lbase) fetcher" where
  "fetcher0 = projr (Fetcher lb)"

lemma fetcher0_ok: "Fetcher lb = Inr (fetcher0 :: (jvalue, lbase) fetcher)"
proof -
  have "\<exists>s. Fetcher lb = Inr (s :: (jvalue, lbase) fetcher)"
    by (simp add: Fetcher_def EventServer_def add_timer_def new_handle_def lb_def start_def event_of_def
        check_ne_def Let_def)
  then show ?thesis by (auto simp: fetcher0_def)
qed

lemma fetcher0_sel [simp]:
  "f_tasks fetcher0 = []" "f_ctxs fetcher0 = Map.empty" "f_easys fetcher0 = Map.empty"
  "f_multi fetcher0 = []" "f_resolver fetcher0 = Resolver" "f_timer fetcher0 = None"
  "f_socks fetcher0 = Map.empty" "f_assigned fetcher0 = Map.empty" "f_promises fetcher0 = Map.empty"
  by (simp_all add: fetcher0_def Fetcher_def EventServer_def add_timer_def new_handle_def lb_def start_def
      event_of_def check_ne_def Let_def)

section \<open>Properties\<close>

text \<open>C38: Whatever chunks a transfer delivers, the stored body is the concatenation of the first
  of them, it exceeds \<open>kMaxBodySize\<close> by at most one chunk, and \<open>truncated\<close> is set exactly when
  a chunk was dropped.\<close>

theorem body_bounded_prefix:
  assumes "\<forall>b \<in> set bs. length b \<le> m" and "m < 2 ^ 64"
    and "c_resp_body c = []" and "\<not> c_truncated c"
    and "c' = fold (\<lambda>b c. fst (write_body_cb b 1 (of_nat (length b)) c)) bs c"
  shows "\<exists>k \<le> length bs. c_resp_body c' = concat (take k bs) \<and> (c_truncated c' \<longleftrightarrow> k < length bs) \<and>
    length (c_resp_body c') \<le> kMaxBodySize + m \<and>
    (k < length bs \<longrightarrow> kMaxBodySize < length (c_resp_body c'))"
  using assms(1,5)
proof (induction bs arbitrary: c' rule: rev_induct)
  case Nil
  with assms(3,4) show ?case by simp
next
  case (snoc b bs)
  define c1 where "c1 = fold (\<lambda>b c. fst (write_body_cb b 1 (of_nat (length b)) c)) bs c"
  have "\<forall>b \<in> set bs. length b \<le> m" using snoc.prems(1) by simp
  from snoc.IH [OF this c1_def] obtain k where k: "k \<le> length bs"
    "c_resp_body c1 = concat (take k bs)" "c_truncated c1 \<longleftrightarrow> k < length bs"
    "length (c_resp_body c1) \<le> kMaxBodySize + m"
    "k < length bs \<longrightarrow> kMaxBodySize < length (c_resp_body c1)"
    by blast
  have b: "length b \<le> m" using snoc.prems(1) by simp
  have c': "c' = (if length (c_resp_body c1) > kMaxBodySize then c1\<lparr>c_truncated := True\<rparr>
     else c1\<lparr>c_resp_body := c_resp_body c1 @ b\<rparr>)"
    using b assms(2) by (simp add: snoc.prems(2) c1_def write_body_chunk)
  show ?case
  proof (cases "length (c_resp_body c1) > kMaxBodySize")
    case True
    with k c' show ?thesis by (intro exI [of _ k]) auto
  next
    case False
    with k have kl: "k = length bs" by auto
    with c' False k(2) have body: "c_resp_body c' = concat (bs @ [b])" "c_truncated c' = c_truncated c1"
      by simp_all
    moreover from body(1) have "length (c_resp_body c') = length (c_resp_body c1) + length b"
      using k(2) kl by simp
    ultimately show ?thesis
      using k(3) kl b False by (intro exI [of _ "Suc k"]) simp
  qed
qed

theorem body_bounded_prefix_witness:
  "c_resp_body (fold (\<lambda>b c. fst (write_body_cb b 1 (of_nat (length b)) c)) [''ab'', ''c''] CrawlContext) =
     ''abc''"
proof -
  define c' where "c' = fold (\<lambda>b c. fst (write_body_cb b 1 (of_nat (length b)) c)) [''ab'', ''c''] CrawlContext"
  have "\<forall>b \<in> set [''ab'', ''c'']. length b \<le> 2" "(2 :: nat) < 2 ^ 64"
    "c_resp_body CrawlContext = []" "\<not> c_truncated CrawlContext"
    by (simp_all add: CrawlContext_def)
  from body_bounded_prefix [OF this c'_def] obtain k where
    k: "k \<le> length [''ab'', ''c'']" "c_resp_body c' = concat (take k [''ab'', ''c''])"
      "k < length [''ab'', ''c''] \<longrightarrow> kMaxBodySize < length (c_resp_body c')"
    by blast
  have "length (concat (take k [''ab'', ''c''])) \<le> 3"
    by (cases k; cases "k - 1") auto
  with k have "k = 2" by (auto simp: kMaxBodySize_def)
  with k(2) show ?thesis by (simp add: c'_def)
qed



end
