(* ===== verification/Fetcher_Requests.thy ===== *)
theory Fetcher_Requests
  imports Fetcher
begin

text \<open>
  What the two requests of \<open>Fetcher/Fetcher.cpp\<close> promise: \<open>create_tasks_req\<close> takes all tasks of a
  request or none, and \<open>get_done_tasks_req\<close> hands out exactly the finished ones.
\<close>

section \<open>Making the contexts\<close>

definition task_context :: "nat \<Rightarrow> crawl_context \<Rightarrow> crawl_context" where
  "task_context p c = c\<lparr>c_id := int p, c_summary := c_method c @ '':'' @ u_str (c_uri c)\<rparr>"

definition good_alloc :: "fenv \<Rightarrow> bool" where
  "good_alloc E \<longleftrightarrow> (\<forall>m. finite (dom m) \<longrightarrow> en_alloc E m \<notin> dom m)"

lemma good_alloc_env0: "good_alloc env0"
  using fresh_key by (auto simp: good_alloc_def env0_def)

text \<open>The contexts of a list of parsed tasks, stored at fresh addresses.\<close>

lemma parse_tasks_ok:
  assumes "good_alloc E" and "finite (dom (f_ctxs s))"
    and "list_all2 (\<lambda>t c. from_json J t CrawlContext = Inr c) tasks cs"
  shows "\<exists>ps m. parse_tasks J E tasks s = Inr (s\<lparr>f_ctxs := m\<rparr>, ps) \<and> distinct ps \<and>
    set ps \<inter> dom (f_ctxs s) = {} \<and> length ps = length cs \<and>
    m = f_ctxs s ++ map_of (zip ps (map2 task_context ps cs)) \<and> finite (dom m)"
  using assms(3,2)
proof (induction tasks cs arbitrary: s rule: list_all2_induct)
  case Nil
  then show ?case by (intro exI [of _ "[]"]) simp
next
  case (Cons t ts c cs)
  define p where "p = en_alloc E (f_ctxs s)"
  define s1 where "s1 = set_ctx p (task_context p c) s"
  have p: "p \<notin> dom (f_ctxs s)" using assms(1) Cons.prems by (simp add: good_alloc_def p_def)
  have "finite (dom (f_ctxs s1))" using Cons.prems by (simp add: s1_def set_ctx_def)
  from Cons.IH [OF this] obtain ps m where ps: "parse_tasks J E ts s1 = Inr (s1\<lparr>f_ctxs := m\<rparr>, ps)"
    "distinct ps" "set ps \<inter> dom (f_ctxs s1) = {}" "length ps = length cs"
    "m = f_ctxs s1 ++ map_of (zip ps (map2 task_context ps cs))" "finite (dom m)" by blast
  have dom1: "dom (f_ctxs s1) = insert p (dom (f_ctxs s))" by (simp add: s1_def set_ctx_def)
  have "parse_tasks J E (t # ts) s = Inr (s\<lparr>f_ctxs := m\<rparr>, p # ps)"
    using Cons.hyps(1) ps(1) by (simp add: Let_def task_context_def p_def s1_def set_ctx_def)
  moreover have "distinct (p # ps)" "set (p # ps) \<inter> dom (f_ctxs s) = {}"
    using ps(2,3) p dom1 by auto
  moreover have "p \<notin> dom (map_of (zip ps (map2 task_context ps cs)))"
    using ps(3) dom1 by (auto dest!: map_of_SomeD set_zip_leftD)
  then have "m = f_ctxs s ++ map_of (zip (p # ps) (map2 task_context (p # ps) (c # cs)))"
    by (simp add: ps(5) s1_def set_ctx_def map_add_upd_left)
  moreover have "length (p # ps) = length (c # cs)" using ps(4) by simp
  ultimately show ?case using ps(6) by blast
qed

lemma parse_tasks_fails:
  assumes "list_all2 (\<lambda>t c. from_json J t CrawlContext = Inr c) ts cs"
    and "from_json J t CrawlContext = Inl e"
  shows "parse_tasks J E (ts @ t # ts') s = Inl e"
  using assms
proof (induction ts cs arbitrary: s rule: list_all2_induct)
  case Nil
  then show ?case by (simp add: Let_def)
next
  case (Cons x xs c cs)
  then show ?case by (simp add: Let_def)
qed

section \<open>Adding them\<close>

lemma resolve_calls: "resolve tv name cb r = (r', calls) \<Longrightarrow> fst ` set calls \<subseteq> {cb}"
  by (auto simp: resolve_def Let_def split: rstate.splits)

lemma read_clock_ctx: "read_clock E s = (tv, s') \<Longrightarrow> f_ctxs s' = f_ctxs s \<and> f_tasks s' = f_tasks s"
  by (auto simp: read_clock_def)

lemma resolver_cb_frame:
  assumes "resolver_cb L E p addrs st s = Inr s'"
  shows "f_tasks s' = f_tasks s \<and> (\<forall>q. q \<noteq> p \<longrightarrow> f_ctxs s' q = f_ctxs s q)"
  using assms
  by (auto simp: resolver_cb_def bind_outcome_Inr_iff read_ms_def read_clock_def read_rand_def Let_def
      set_ctx_def es_do_Inr split: if_splits)

lemma add_frame:
  assumes "add L E p s = Inr s'"
  shows "f_tasks s' = f_tasks s \<and> (\<forall>q. q \<noteq> p \<longrightarrow> f_ctxs s' q = f_ctxs s q)"
proof -
  obtain c where c: "get_ctx p s = Inr c" using assms by (auto simp: add_def bind_outcome_Inr_iff)
  define s2 where "s2 = (set_ctx p (c\<lparr>c_start_req_time_ms := Some (fst (read_ms E s))\<rparr>)
    (snd (read_ms E s)))\<lparr>f_tick := Suc (f_tick (snd (read_ms E s)))\<rparr>"
  obtain r calls where res: "resolve (en_clock E (f_tick (snd (read_ms E s)))) (u_host (c_uri c)) p
      (f_resolver s) = (r, calls)" by fastforce
  have run: "fold_outcome (\<lambda>(q, addrs, st). resolver_cb L E q addrs st) calls
      (s2\<lparr>f_resolver := r\<rparr>) = Inr s'"
    using assms res c
    by (simp add: add_def s2_def Let_def read_ms_def read_clock_def set_ctx_def)
  let ?P = "\<lambda>t. f_tasks t = f_tasks s \<and> (\<forall>q. q \<noteq> p \<longrightarrow> f_ctxs t q = f_ctxs s q)"
  show ?thesis
  proof (rule fold_outcome_invariant [OF run, where P = ?P])
    show "?P (s2\<lparr>f_resolver := r\<rparr>)" by (simp add: s2_def read_ms_def read_clock_def set_ctx_def)
  next
    fix x t t' assume x: "x \<in> set calls" "(case x of (q, addrs, st) \<Rightarrow> resolver_cb L E q addrs st) t = Inr t'"
      "?P t"
    obtain q addrs st where q: "x = (q, addrs, st)" by (cases x)
    with x(1) resolve_calls [OF res] have "q = p" by auto
    with x(2,3) q show "?P t'" using resolver_cb_frame [of L E p addrs st t t'] by simp
  qed
qed


context json_laws
begin

lemma append_task_ok:
  assumes "fields resp = Some m" "m ''tasks'' = Some a" "items a = Some xs"
  obtains x resp' a' where "to_json J B c = Inr x" "append_task J B c resp = Inr resp'"
    "fields resp' = Some (m(''tasks'' \<mapsto> a'))" "items a' = Some (xs @ [x])"
proof -
  obtain x where x: "to_json J B c = Inr x" using to_json_fields by blast
  obtain a' where a': "j_append J a x = Inr a'" "items a' = Some (xs @ [x])"
    using append_item [OF assms(3)] by blast
  obtain resp' where r: "j_set J resp ''tasks'' a' = Inr resp'" "fields resp' = Some (m(''tasks'' \<mapsto> a'))"
    using set_field [OF assms(1)] by blast
  show thesis
    by (rule that [OF x _ r(2) a'(2)])
      (simp add: append_task_def get_field [OF assms(1)] assms(2) x a'(1) r(1))
qed

lemma empty_answer:
  obtains resp where "j_set J (j_object J) ''tasks'' (j_array J) = Inr resp"
    "fields resp = Some [''tasks'' \<mapsto> j_array J]"
  using set_field [OF fields_object] by blast

lemma error_answer:
  obtains resp where "error_response J e = Inr resp" "fields resp = Some [''error'' \<mapsto> j_string J (what e)]"
  using set_field [OF fields_object] unfolding error_response_def by blast

lemma add_tasks_ok:
  assumes "add_tasks L J B E ps resp s = Inr (s', r)" and "distinct ps"
    and "fields resp = Some m" "m ''tasks'' = Some a" "items a = Some xs"
  shows "\<exists>resp' a' js. r = Inr resp' \<and> fields resp' = Some (m(''tasks'' \<mapsto> a')) \<and>
    items a' = Some (xs @ js) \<and> list_all2 (\<lambda>p x. to_json J B (the (f_ctxs s p)) = Inr x) ps js \<and>
    f_tasks s' = f_tasks s"
  using assms
proof (induction ps arbitrary: resp s m a xs)
  case Nil
  then have "m(''tasks'' \<mapsto> a) = m" by (simp add: map_upd_triv)
  with Nil have "r = Inr resp \<and> fields resp = Some (m(''tasks'' \<mapsto> a)) \<and> items a = Some (xs @ []) \<and>
      list_all2 (\<lambda>p x. to_json J B (the (f_ctxs s p)) = Inr x) [] [] \<and> f_tasks s' = f_tasks s"
    by simp
  then show ?case by blast
next
  case (Cons p ps)
  obtain c where c: "f_ctxs s p = Some c"
    using Cons.prems(1) by (auto simp: bind_outcome_Inr_iff get_ctx_Inr)
  obtain x resp1 a1 where x: "to_json J B c = Inr x" "append_task J B c resp = Inr resp1"
    "fields resp1 = Some (m(''tasks'' \<mapsto> a1))" "items a1 = Some (xs @ [x])"
    using Cons.prems(3-5) by (rule append_task_ok)
  obtain s1 where s1: "add L E p s = Inr s1" "add_tasks L J B E ps resp1 s1 = Inr (s', r)"
    using Cons.prems(1) c x(2) by (auto simp: get_ctx_def bind_outcome_Inr_iff)
  have frame: "f_tasks s1 = f_tasks s" "\<And>q. q \<noteq> p \<Longrightarrow> f_ctxs s1 q = f_ctxs s q"
    using add_frame [OF s1(1)] by auto
  have "distinct ps" using Cons.prems(2) by simp
  from Cons.IH [OF s1(2) this x(3) fun_upd_same x(4)] obtain resp' a' js where
    r: "r = Inr resp'" "fields resp' = Some ((m(''tasks'' \<mapsto> a1))(''tasks'' \<mapsto> a'))"
      "items a' = Some ((xs @ [x]) @ js)"
      "list_all2 (\<lambda>p x. to_json J B (the (f_ctxs s1 p)) = Inr x) ps js" "f_tasks s' = f_tasks s1"
    by blast
  have "list_all2 (\<lambda>p x. to_json J B (the (f_ctxs s p)) = Inr x) ps js"
  proof (rule list.rel_mono_strong [OF r(4)])
    fix q y assume "q \<in> set ps" "to_json J B (the (f_ctxs s1 q)) = Inr y"
    moreover from this Cons.prems(2) have "q \<noteq> p" by auto
    ultimately show "to_json J B (the (f_ctxs s q)) = Inr y" by (simp add: frame(2))
  qed
  with r c x(1) frame(1) have "r = Inr resp' \<and> fields resp' = Some (m(''tasks'' \<mapsto> a')) \<and>
      items a' = Some (xs @ x # js) \<and>
      list_all2 (\<lambda>p x. to_json J B (the (f_ctxs s p)) = Inr x) (p # ps) (x # js) \<and>
      f_tasks s' = f_tasks s"
    by simp
  then show ?case by blast
qed

end

lemma map_of_zip_contexts:
  assumes "distinct ps" "length ps = length cs" and "i < length ps"
  shows "(m ++ map_of (zip ps (map2 task_context ps cs))) (ps ! i) = Some (task_context (ps ! i) (cs ! i))"
  using assms by (subst map_add_find_right [of _ _ "task_context (ps ! i) (cs ! i)"])
    (simp_all add: map_of_zip_nth)

lemma finite_upd_one:
  assumes "finite (dom m)" and "\<forall>q. q \<noteq> p \<longrightarrow> m' q = m q"
  shows "finite (dom m')"
proof (rule finite_subset)
  show "dom m' \<subseteq> insert p (dom m)"
  proof
    fix q assume "q \<in> dom m'"
    with assms(2) show "q \<in> insert p (dom m)" by (cases "q = p") (simp_all add: domIff)
  qed
qed (use assms(1) in simp)

lemma add_tasks_finite:
  "add_tasks L J B E ps resp s = Inr (s', r) \<Longrightarrow> finite (dom (f_ctxs s)) \<Longrightarrow> finite (dom (f_ctxs s'))"
proof (induction ps arbitrary: resp s)
  case Nil
  then show ?case by simp
next
  case (Cons p ps)
  obtain c where c: "f_ctxs s p = Some c" using Cons.prems(1) by (auto simp: bind_outcome_Inr_iff get_ctx_Inr)
  show ?case
  proof (cases "append_task J B c resp")
    case (Inl f)
    with Cons.prems c show ?thesis by (cases f) (auto simp: get_ctx_def)
  next
    case (Inr resp1)
    then obtain s1 where s1: "add L E p s = Inr s1" "add_tasks L J B E ps resp1 s1 = Inr (s', r)"
      using Cons.prems(1) c by (auto simp: get_ctx_def bind_outcome_Inr_iff)
    show ?thesis
      by (rule Cons.IH [OF s1(2)]) (rule finite_upd_one [OF Cons.prems(2)], use add_frame [OF s1(1)] in blast)
  qed
qed

section \<open>What \<open>create_tasks_req\<close> answers\<close>

lemma parse_tasks_parsed:
  "parse_tasks J E tasks s = Inr (s', ps) \<Longrightarrow> \<exists>cs. list_all2 (\<lambda>t c. from_json J t CrawlContext = Inr c) tasks cs"
proof (induction tasks arbitrary: s ps)
  case (Cons t ts)
  from Cons.prems obtain c u where "from_json J t CrawlContext = Inr c"
    "parse_tasks J E ts u = Inr (s', tl ps)" by (auto simp: Let_def bind_outcome_Inr_iff)
  with Cons.IH show ?case by blast
qed (rule exI [of _ "[]"], simp)

lemma parse_request_distinct:
  assumes "parse_request J E req s = Inr (s1, ps)" and "good_alloc E" "finite (dom (f_ctxs s))"
  shows "distinct ps"
proof -
  obtain ts where p: "parse_tasks J E ts s = Inr (s1, ps)"
    using assms(1) by (auto simp: parse_request_def bind_outcome_Inr_iff split: if_splits)
  obtain cs where "list_all2 (\<lambda>t c. from_json J t CrawlContext = Inr c) ts cs"
    using parse_tasks_parsed [OF p] by blast
  from parse_tasks_ok [OF assms(2,3) this] p show ?thesis by auto
qed

context json_laws
begin

lemma create_tasks_refused:
  assumes "parse_request J E req s = Inl (Throw e)"
  obtains resp where "create_tasks_req L J B E req s = Inr (s, resp)"
    "fields resp = Some [''error'' \<mapsto> j_string J (what e)]"
  by (rule error_answer [of e]) (auto intro!: that simp: create_tasks_req_def assms answer_with_def)

lemma create_tasks_added:
  assumes "parse_request J E req s = Inr (s1, ps)" and "distinct ps"
    and "create_tasks_req L J B E req s = Inr (s', resp)"
  obtains resp0 where "fields resp0 = Some [''tasks'' \<mapsto> j_array J]" "add_tasks L J B E ps resp0 s1 = Inr (s', Inr resp)"
proof -
  obtain resp0 where r0: "j_set J (j_object J) ''tasks'' (j_array J) = Inr resp0"
    "fields resp0 = Some [''tasks'' \<mapsto> j_array J]" by (rule empty_answer)
  obtain s2 r where add: "add_tasks L J B E ps resp0 s1 = Inr (s2, r)" and ans: "answer_with J s2 r = Inr (s', resp)"
    using assms(1,3) r0(1) by (auto simp: create_tasks_req_def bind_outcome_Inr_iff)
  from add_tasks_ok [OF add assms(2) r0(2) fun_upd_same items_array] obtain resp' where "r = Inr resp'" by blast
  with add ans show thesis by (intro that [OF r0(2)]) (simp add: answer_with_def)
qed

lemma create_tasks_accepted:
  assumes "parse_request J E req s = Inr (s1, ps)" and "distinct ps"
    and "create_tasks_req L J B E req s = Inr (s', resp)"
  shows "\<exists>a js. fields resp = Some [''tasks'' \<mapsto> a] \<and> items a = Some js \<and>
    list_all2 (\<lambda>p x. to_json J B (the (f_ctxs s1 p)) = Inr x) ps js"
proof -
  obtain resp0 where r0: "fields resp0 = Some [''tasks'' \<mapsto> j_array J]"
    "add_tasks L J B E ps resp0 s1 = Inr (s', Inr resp)" by (rule create_tasks_added [OF assms])
  from add_tasks_ok [OF r0(2) assms(2) r0(1) fun_upd_same items_array] obtain resp' a js where
    "resp = resp'" "fields resp' = Some ([''tasks'' \<mapsto> j_array J](''tasks'' \<mapsto> a))" "items a = Some ([] @ js)"
    "list_all2 (\<lambda>p x. to_json J B (the (f_ctxs s1 p)) = Inr x) ps js" by blast
  then show ?thesis by simp blast
qed

end

section \<open>Handing out\<close>

definition finished :: "('j, 'eb) fetcher \<Rightarrow> nat \<Rightarrow> bool" where
  "finished s p \<longleftrightarrow> (\<exists>c. f_ctxs s p = Some c \<and> c_done c)"

context json_laws
begin

lemma collect_loop_ok:
  assumes "distinct ps" "set ps \<subseteq> dom (f_ctxs s)"
    and "fields resp = Some m" "m ''tasks'' = Some a" "items a = Some xs"
  shows "\<exists>resp' a' js. collect_loop J B ps resp busy s =
      Inr (s\<lparr>f_ctxs := f_ctxs s |` (- {p \<in> set ps. finished s p})\<rparr>, resp', busy @ filter (\<lambda>p. \<not> finished s p) ps) \<and>
    fields resp' = Some (m(''tasks'' \<mapsto> a')) \<and> items a' = Some (xs @ js) \<and>
    list_all2 (\<lambda>p x. to_json J B (the (f_ctxs s p)) = Inr x) (filter (finished s) ps) js"
  using assms
proof (induction ps arbitrary: resp s m a xs busy)
  case Nil
  then have "m(''tasks'' \<mapsto> a) = m" by (simp add: map_upd_triv)
  with Nil have "collect_loop J B [] resp busy s =
      Inr (s\<lparr>f_ctxs := f_ctxs s |` (- {p \<in> set []. finished s p})\<rparr>, resp, busy @ filter (\<lambda>p. \<not> finished s p) []) \<and>
    fields resp = Some (m(''tasks'' \<mapsto> a)) \<and> items a = Some (xs @ []) \<and>
    list_all2 (\<lambda>p x. to_json J B (the (f_ctxs s p)) = Inr x) (filter (finished s) []) []"
    by (simp add: restrict_map_def)
  then show ?case by blast
next
  case (Cons p ps)
  obtain c where c: "f_ctxs s p = Some c" using Cons.prems(2) by auto
  show ?case
  proof (cases "c_done c")
    case False
    with c have nf: "\<not> finished s p" by (simp add: finished_def)
    have "distinct ps" "set ps \<subseteq> dom (f_ctxs s)" using Cons.prems(1,2) by auto
    from Cons.IH [OF this Cons.prems(3-5), of "busy @ [p]"] obtain resp' a' js where r:
      "collect_loop J B ps resp (busy @ [p]) s = Inr (s\<lparr>f_ctxs := f_ctxs s |` (- {p \<in> set ps. finished s p})\<rparr>,
         resp', (busy @ [p]) @ filter (\<lambda>p. \<not> finished s p) ps)"
      "fields resp' = Some (m(''tasks'' \<mapsto> a'))" "items a' = Some (xs @ js)"
      "list_all2 (\<lambda>p x. to_json J B (the (f_ctxs s p)) = Inr x) (filter (finished s) ps) js"
      by blast
    have same: "{q \<in> set (p # ps). finished s q} = {q \<in> set ps. finished s q}" using nf by auto
    have "collect_loop J B (p # ps) resp busy s =
        Inr (s\<lparr>f_ctxs := f_ctxs s |` (- {q \<in> set (p # ps). finished s q})\<rparr>, resp',
          busy @ filter (\<lambda>p. \<not> finished s p) (p # ps)) \<and>
      list_all2 (\<lambda>p x. to_json J B (the (f_ctxs s p)) = Inr x) (filter (finished s) (p # ps)) js"
      unfolding same using r(1,4) False c nf by (simp add: get_ctx_def)
    with r(2,3) show ?thesis by blast
  next
    case True
    with c have f: "finished s p" by (simp add: finished_def)
    obtain x resp1 a1 where x: "to_json J B c = Inr x" "append_task J B c resp = Inr resp1"
      "fields resp1 = Some (m(''tasks'' \<mapsto> a1))" "items a1 = Some (xs @ [x])"
      using Cons.prems(3-5) by (rule append_task_ok)
    let ?s = "s\<lparr>f_ctxs := (f_ctxs s)(p := None)\<rparr>"
    have fin: "finished ?s q \<longleftrightarrow> finished s q" if "q \<in> set ps" for q
      using that Cons.prems(1) by (auto simp: finished_def)
    have "distinct ps" "set ps \<subseteq> dom (f_ctxs ?s)" using Cons.prems(1,2) by auto
    from Cons.IH [OF this x(3) fun_upd_same x(4)] obtain resp' a' js where
      ih: "collect_loop J B ps resp1 busy ?s = Inr (?s\<lparr>f_ctxs := f_ctxs ?s |` (- {p \<in> set ps. finished ?s p})\<rparr>,
         resp', busy @ filter (\<lambda>p. \<not> finished ?s p) ps)"
      "fields resp' = Some ((m(''tasks'' \<mapsto> a1))(''tasks'' \<mapsto> a'))" "items a' = Some ((xs @ [x]) @ js)"
      "list_all2 (\<lambda>p x. to_json J B (the (f_ctxs ?s p)) = Inr x) (filter (finished ?s) ps) js"
      by blast
    have m': "f_ctxs ?s |` (- {p \<in> set ps. finished ?s p}) = f_ctxs s |` (- {q \<in> set (p # ps). finished s q})"
      using f fin by (auto simp: restrict_map_def fun_eq_iff)
    have flt: "filter (\<lambda>p. \<not> finished ?s p) ps = filter (\<lambda>p. \<not> finished s p) ps"
      "filter (finished ?s) ps = filter (finished s) ps"
      using fin by (auto intro: filter_cong)
    have "list_all2 (\<lambda>p x. to_json J B (the (f_ctxs s p)) = Inr x) (filter (finished s) ps) js"
    proof (rule list.rel_mono_strong [OF ih(4) [unfolded flt]])
      fix q y assume "q \<in> set (filter (finished s) ps)" "to_json J B (the (f_ctxs ?s q)) = Inr y"
      moreover from this Cons.prems(1) have "q \<noteq> p" by auto
      ultimately show "to_json J B (the (f_ctxs s q)) = Inr y" by simp
    qed
    then have "collect_loop J B (p # ps) resp busy s =
        Inr (s\<lparr>f_ctxs := f_ctxs s |` (- {q \<in> set (p # ps). finished s q})\<rparr>, resp',
          busy @ filter (\<lambda>p. \<not> finished s p) (p # ps)) \<and>
      fields resp' = Some (m(''tasks'' \<mapsto> a')) \<and> items a' = Some (xs @ x # js) \<and>
      list_all2 (\<lambda>p x. to_json J B (the (f_ctxs s p)) = Inr x) (filter (finished s) (p # ps)) (x # js)"
      using ih(1-3) x(1,2) c f True m' flt(1) by (simp add: get_ctx_def)
    then show ?thesis by blast
  qed
qed

end

lemma collect_done_ok:
  assumes "json_laws J mems items" and "distinct (f_tasks s)" "set (f_tasks s) \<subseteq> dom (f_ctxs s)"
  shows "\<exists>s' resp a js. collect_done J B q s = Inr s' \<and> f_promises s' = (f_promises s)(q \<mapsto> resp) \<and>
    mems resp = Some [''tasks'' \<mapsto> a] \<and> items a = Some js \<and>
    list_all2 (\<lambda>p x. to_json J B (the (f_ctxs s p)) = Inr x) (rev (filter (finished s) (f_tasks s))) js \<and>
    f_tasks s' = rev (filter (\<lambda>p. \<not> finished s p) (f_tasks s)) \<and>
    f_ctxs s' = f_ctxs s |` (- {p \<in> set (f_tasks s). finished s p})"
proof -
  note laws = assms(1)
  obtain resp0 where r0: "j_set J (j_object J) ''tasks'' (j_array J) = Inr resp0"
    "mems resp0 = Some [''tasks'' \<mapsto> j_array J]"
    by (rule json_laws.empty_answer [OF laws])
  let ?s = "s\<lparr>f_tasks := []\<rparr>"
  have fin: "finished ?s = finished s" by (simp add: finished_def fun_eq_iff)
  have "distinct (rev (f_tasks s))" "set (rev (f_tasks s)) \<subseteq> dom (f_ctxs ?s)" using assms(2,3) by auto
  from json_laws.collect_loop_ok [OF laws this r0(2) fun_upd_same json_laws.items_array [OF laws], of B "[]"]
  obtain resp a js where c:
    "collect_loop J B (rev (f_tasks s)) resp0 [] ?s =
      Inr (?s\<lparr>f_ctxs := f_ctxs ?s |` (- {p \<in> set (rev (f_tasks s)). finished ?s p})\<rparr>, resp,
        [] @ filter (\<lambda>p. \<not> finished ?s p) (rev (f_tasks s)))"
    "mems resp = Some ([''tasks'' \<mapsto> j_array J](''tasks'' \<mapsto> a))" "items a = Some ([] @ js)"
    "list_all2 (\<lambda>p x. to_json J B (the (f_ctxs ?s p)) = Inr x) (filter (finished ?s) (rev (f_tasks s))) js"
    by blast
  have c2: "mems resp = Some [''tasks'' \<mapsto> a]" using c(2) by (simp only: fun_upd_upd)
  have js: "list_all2 (\<lambda>p x. to_json J B (the (f_ctxs s p)) = Inr x) (rev (filter (finished s) (f_tasks s))) js"
    using c(4) by (simp add: fin rev_filter)
  obtain s' where "collect_done J B q s = Inr s'" "f_promises s' = (f_promises s)(q \<mapsto> resp)"
    "f_tasks s' = rev (filter (\<lambda>p. \<not> finished s p) (f_tasks s))"
    "f_ctxs s' = f_ctxs s |` (- {p \<in> set (f_tasks s). finished s p})"
    using c(1) by (simp add: collect_done_def r0(1) fin rev_filter)
  with js c(3) c2 show ?thesis by auto
qed

section \<open>Properties\<close>


text \<open>One task, accepted by a fetcher that has none.\<close>

definition task1 :: jvalue where
  "task1 = JObject [''method'' \<mapsto> JString ''GET'', ''uri'' \<mapsto> JString ''http://a/b'']"

definition context1 :: crawl_context where
  "context1 = CrawlContext\<lparr>c_method := ''GET'', c_uri := c_uri sample_context\<rparr>"

lemma from_json_task1: "from_json jv task1 CrawlContext = Inr context1"
proof -
  let ?m = "[''method'' \<mapsto> JString ''GET'', ''uri'' \<mapsto> JString ''http://a/b'']"
  have m: "jv_fields task1 = Some ?m" "string_member jv ?m ''method'' (Some ''GET'')"
    "string_member jv ?m ''uri'' (Some ''http://a/b'')" "strings_member jv jv_items ?m ''req_headers'' None"
    by (simp_all add: task1_def string_member_def strings_member_def)
  show ?thesis
    by (subst jv.from_json_members [OF m]) (simp add: sample_uri context1_def CrawlContext_def)
qed

lemma jv_ops:
  "j_get jv (JObject m) k = Inr (case m k of None \<Rightarrow> JNull | Some x \<Rightarrow> x)"
  "j_set jv (JObject m) k x = Inr (JObject (m(k \<mapsto> x)))"
  "j_append jv (JArray xs) x = Inr (JArray (xs @ [x]))"
  "j_size jv (JArray xs) = length xs" "j_elems jv (JArray xs) = xs"
  by (simp_all add: jv_def)

lemma create_one:
  "\<exists>s' resp. create_tasks_req lb jv rfc4648 env0 (JObject [''tasks'' \<mapsto> JArray [task1]]) fetcher0 =
     Inr (s', resp)"
proof -
  let ?c = "task_context (Suc 0) context1"
  have parse: "parse_request jv env0 (JObject [''tasks'' \<mapsto> JArray [task1]]) fetcher0 =
      Inr (set_ctx (Suc 0) ?c fetcher0, [Suc 0])"
    by (simp add: parse_request_def jv_ops from_json_task1 kMaxTasksCnt_def Let_def
        task_context_def env0_def fresh_key_def)
  have add: "\<exists>s. add lb env0 (Suc 0) (set_ctx (Suc 0) ?c fetcher0) = Inr s"
    by (simp add: add_def get_ctx_def set_ctx_def read_ms_def read_clock_def Let_def resolve_def
        Resolver_def info_at_def refresh_def new_info_def split_def)
  obtain x where "to_json jv rfc4648 ?c = Inr x" using jv.to_json_fields by blast
  then have app: "append_task jv rfc4648 ?c (JObject [''tasks'' \<mapsto> JArray []]) =
      Inr (JObject [''tasks'' \<mapsto> JArray [x]])"
    by (simp add: append_task_def jv_ops fun_upd_idem_iff)
  have ctx: "get_ctx (Suc 0) (set_ctx (Suc 0) ?c fetcher0) = Inr ?c" by (simp add: get_ctx_def set_ctx_def)
  show ?thesis
    using add by (auto simp: create_tasks_req_def parse jv_ops ctx app answer_with_def)
qed


text \<open>C24: A request that breaks the limit or holds a task that does not parse is refused as a whole:
  no context is made, nothing is added, and the answer holds only \<open>error\<close> with the text of the
  exception.\<close>

theorem create_tasks_atomic:
  assumes "json_laws J mems items" and "mems req = Some m" "m ''tasks'' = Some ts" "items ts = Some tasks"
    and "kMaxTasksCnt < length (f_tasks s) + length tasks \<and> e = LengthError ''Too many pending tasks'' \<or>
      length (f_tasks s) + length tasks \<le> kMaxTasksCnt \<and> tasks = good @ bad # rest \<and>
      list_all2 (\<lambda>t c. from_json J t CrawlContext = Inr c) good cs \<and>
      from_json J bad CrawlContext = Inl (Throw e)"
  shows "\<exists>resp. create_tasks_req L J B E req s = Inr (s, resp) \<and>
    mems resp = Some [''error'' \<mapsto> j_string J (what e)]"
proof -
  note laws = assms(1)
  have get: "j_get J req ''tasks'' = Inr ts" "j_size J ts = length tasks" "j_elems J ts = tasks"
    using json_laws.get_field [OF laws assms(2)] json_laws.size_items [OF laws assms(4)]
      json_laws.elems_items [OF laws assms(4)] assms(3) by simp_all
  have "parse_request J E req s = Inl (Throw e)"
    using assms(5)
  proof
    assume "kMaxTasksCnt < length (f_tasks s) + length tasks \<and> e = LengthError ''Too many pending tasks''"
    with get show ?thesis by (simp add: parse_request_def)
  next
    assume a: "length (f_tasks s) + length tasks \<le> kMaxTasksCnt \<and> tasks = good @ bad # rest \<and>
      list_all2 (\<lambda>t c. from_json J t CrawlContext = Inr c) good cs \<and>
      from_json J bad CrawlContext = Inl (Throw e)"
    then have "parse_tasks J E tasks s = Inl (Throw e)" by (auto intro!: parse_tasks_fails)
    moreover from a have "\<not> kMaxTasksCnt < length (f_tasks s) + length tasks" by linarith
    ultimately show ?thesis using get by (simp add: parse_request_def)
  qed
  moreover obtain resp where "error_response J e = Inr resp"
    "mems resp = Some [''error'' \<mapsto> j_string J (what e)]"
    by (rule json_laws.error_answer [OF laws])
  ultimately show ?thesis by (simp add: create_tasks_req_def answer_with_def)
qed

lemma from_json_bad: "from_json jv (JObject [''uri'' \<mapsto> JString ''x'']) CrawlContext =
  Inl (Throw (InvalidArgument ''Invalid uri [x]''))"
proof -
  let ?m = "[''uri'' \<mapsto> JString ''x'']"
  have m: "jv_fields (JObject ?m) = Some ?m" "string_member jv ?m ''method'' None"
    "string_member jv ?m ''uri'' (Some ''x'')" "strings_member jv jv_items ?m ''req_headers'' None"
    by (simp_all add: string_member_def strings_member_def)
  have "regex_match uri_regex ''x'' = None"
    by code_simp
  then have "Uri ''x'' = Inl (Throw (InvalidArgument ''Invalid uri [x]''))" by (simp add: Uri_def)
  then show ?thesis by (subst jv.from_json_members [OF m]) simp
qed

theorem create_tasks_atomic_witness:
  "\<exists>m. create_tasks_req lb jv rfc4648 env0
      (JObject [''tasks'' \<mapsto> JArray [task1, JObject [''uri'' \<mapsto> JString ''x'']]]) fetcher0 = Inr (fetcher0, JObject m) \<and>
     m ''error'' = Some (JString ''Invalid uri [x]'')"
proof -
  let ?tasks = "[task1, JObject [''uri'' \<mapsto> JString ''x'']]"
  obtain resp where r: "create_tasks_req lb jv rfc4648 env0 (JObject [''tasks'' \<mapsto> JArray ?tasks]) fetcher0 =
      Inr (fetcher0, resp)" "jv_fields resp = Some [''error'' \<mapsto> JString ''Invalid uri [x]'']"
    using create_tasks_atomic [OF jv.json_laws_axioms, of "JObject [''tasks'' \<mapsto> JArray ?tasks]"
        "[''tasks'' \<mapsto> JArray ?tasks]" "JArray ?tasks" ?tasks fetcher0
        "InvalidArgument ''Invalid uri [x]''" "[task1]" "JObject [''uri'' \<mapsto> JString ''x'']" "[]" "[context1]"
        lb rfc4648 env0]
    by (auto simp: from_json_task1 from_json_bad kMaxTasksCnt_def)
  then have "resp = JObject [''error'' \<mapsto> JString ''Invalid uri [x]'']"
    by (cases resp) (auto simp: fun_eq_iff split: if_splits)
  with r(1) show ?thesis by auto
qed

text \<open>The limit counts only tasks whose transfer has started: after a request was accepted, the
  same request passes the check again, however many tasks still wait for their host name.\<close>

theorem create_tasks_limit_misses_waiting:
  assumes "json_laws J mems items" and "good_alloc E" and "finite (dom (f_ctxs s))"
    and "mems req = Some m" "m ''tasks'' = Some ts" "items ts = Some tasks"
    and "length (f_tasks s) + length tasks \<le> kMaxTasksCnt"
    and "list_all2 (\<lambda>t c. from_json J t CrawlContext = Inr c) tasks cs"
    and "create_tasks_req L J B E req s = Inr (s', resp)"
  shows "\<exists>s'' ps. parse_request J E req s' = Inr (s'', ps) \<and> length ps = length tasks"
proof -
  note laws = assms(1)
  have get: "j_get J req ''tasks'' = Inr ts" "j_size J ts = length tasks" "j_elems J ts = tasks"
    using json_laws.get_field [OF laws assms(4)] json_laws.size_items [OF laws assms(6)]
      json_laws.elems_items [OF laws assms(6)] assms(5) by simp_all
  obtain ps m1 where ps: "parse_tasks J E tasks s = Inr (s\<lparr>f_ctxs := m1\<rparr>, ps)" "distinct ps" "finite (dom m1)"
    using parse_tasks_ok [OF assms(2,3,8)] by blast
  have parse: "parse_request J E req s = Inr (s\<lparr>f_ctxs := m1\<rparr>, ps)"
    using get ps(1) assms(7) by (simp add: parse_request_def)
  obtain resp0 where r0: "j_set J (j_object J) ''tasks'' (j_array J) = Inr resp0"
    "mems resp0 = Some [''tasks'' \<mapsto> j_array J]"
    by (rule json_laws.empty_answer [OF laws])
  obtain s2 r where add: "add_tasks L J B E ps resp0 (s\<lparr>f_ctxs := m1\<rparr>) = Inr (s2, r)"
    and ans: "answer_with J s2 r = Inr (s', resp)"
    using assms(9) parse r0(1) by (auto simp: create_tasks_req_def bind_outcome_Inr_iff)
  have "f_tasks s2 = f_tasks (s\<lparr>f_ctxs := m1\<rparr>)"
    using json_laws.add_tasks_ok [OF laws add ps(2) r0(2) fun_upd_same json_laws.items_array [OF laws]] by blast
  then have "f_tasks s2 = f_tasks s" by simp
  moreover have "s' = s2" using ans by (auto simp: answer_with_def bind_outcome_Inr_iff split: sum.splits)
  moreover have "finite (dom (f_ctxs s2))" using add_tasks_finite [OF add] ps(3) by simp
  ultimately show ?thesis
    using get assms(7) parse_tasks_ok [OF assms(2) _ assms(8), of s'] list_all2_lengthD [OF assms(8)]
    by (auto simp: parse_request_def)
qed

theorem create_tasks_limit_misses_waiting_witness:
  "\<exists>s' resp s'' ps. create_tasks_req lb jv rfc4648 env0 (JObject [''tasks'' \<mapsto> JArray [task1]]) fetcher0 =
       Inr (s', resp) \<and>
     parse_request jv env0 (JObject [''tasks'' \<mapsto> JArray [task1]]) s' = Inr (s'', ps) \<and> length ps = 1"
proof -
  obtain s' resp where run:
    "create_tasks_req lb jv rfc4648 env0 (JObject [''tasks'' \<mapsto> JArray [task1]]) fetcher0 = Inr (s', resp)"
    using create_one by blast
  have "\<exists>s'' ps. parse_request jv env0 (JObject [''tasks'' \<mapsto> JArray [task1]]) s' = Inr (s'', ps) \<and>
      length ps = length [task1]"
    by (rule create_tasks_limit_misses_waiting [OF jv.json_laws_axioms good_alloc_env0 _ _ _ _ _ _ run,
          where cs = "[context1]" and m = "[''tasks'' \<mapsto> JArray [task1]]" and ts = "JArray [task1]"])
      (simp_all add: from_json_task1 kMaxTasksCnt_def)
  with run show ?thesis by auto
qed

text \<open>C22: The closure of \<open>get_done_tasks_req\<close> answers with exactly the finished tasks, the youngest
  first, and forgets them; the unfinished ones stay, in the opposite order; it never fails.\<close>

theorem collect_exactly_done:
  assumes "json_laws J mems items" and "distinct (f_tasks s)" "set (f_tasks s) \<subseteq> dom (f_ctxs s)"
  shows "\<exists>s' resp a js. collect_done J B q s = Inr s' \<and> f_promises s' = (f_promises s)(q \<mapsto> resp) \<and>
    mems resp = Some [''tasks'' \<mapsto> a] \<and> items a = Some js \<and>
    list_all2 (\<lambda>p x. to_json J B (the (f_ctxs s p)) = Inr x) (rev (filter (finished s) (f_tasks s))) js \<and>
    f_tasks s' = rev (filter (\<lambda>p. \<not> finished s p) (f_tasks s)) \<and>
    f_ctxs s' = f_ctxs s |` (- {p \<in> set (f_tasks s). finished s p})"
  using collect_done_ok [OF assms] .

theorem collect_exactly_done_witness:
  "\<exists>s' m x. collect_done jv rfc4648 0
      (fetcher0\<lparr>f_tasks := [1, 2], f_ctxs := [1 \<mapsto> sample_context, 2 \<mapsto> sample_context\<lparr>c_done := True\<rparr>]\<rparr>) = Inr s' \<and>
     f_promises s' = [0 \<mapsto> JObject m] \<and> m ''tasks'' = Some (JArray [x]) \<and> f_tasks s' = [1]"
proof -
  let ?s = "fetcher0\<lparr>f_tasks := [1, 2], f_ctxs := [1 \<mapsto> sample_context, 2 \<mapsto> sample_context\<lparr>c_done := True\<rparr>]\<rparr>"
  have f: "\<not> finished ?s 1" "finished ?s 2"
    by (simp_all add: finished_def sample_context_def CrawlContext_def)
  have "distinct (f_tasks ?s)" "set (f_tasks ?s) \<subseteq> dom (f_ctxs ?s)" by auto
  from collect_exactly_done [OF jv.json_laws_axioms this, of rfc4648 0] obtain s' resp a js where
    c: "collect_done jv rfc4648 0 ?s = Inr s'" "f_promises s' = [0 \<mapsto> resp]"
      "jv_fields resp = Some [''tasks'' \<mapsto> a]" "jv_items a = Some js"
      "list_all2 (\<lambda>p x. to_json jv rfc4648 (the (f_ctxs ?s p)) = Inr x) (rev (filter (finished ?s) [1, 2])) js"
      "f_tasks s' = rev (filter (\<lambda>p. \<not> finished ?s p) [1, 2])"
    by auto
  from c(5) f obtain x where js: "js = [x]" by (auto simp: list_all2_Cons1)
  with c(4) have a: "a = JArray [x]" by (auto simp: jv_items_cases)
  from c(3) have "resp = JObject [''tasks'' \<mapsto> a]" by (cases resp) (auto simp: fun_eq_iff split: if_splits)
  with c(1,2,6) f a show ?thesis by auto
qed

end
