(* ===== verification/Fetcher_Handles.thy ===== *)
theory Fetcher_Handles
  imports Fetcher
begin

text \<open>
  The event handles of \<open>Fetcher/Fetcher.cpp\<close>: which part of the fetcher owns which handle of its
  event server, and that the callbacks libcurl makes for sockets and timeouts keep this exact.
\<close>

section \<open>Ownership\<close>

datatype handle_use = UseTimer | UseStats | UseRead nat | UseWrite nat

definition uses_ok :: "(nat \<rightharpoonup> handle_use) \<Rightarrow> ('j, 'eb) fetcher \<Rightarrow> bool" where
  "uses_ok u s \<longleftrightarrow> dom u = es_owned (f_es s) \<and>
     (\<forall>h. u h = Some UseTimer \<longleftrightarrow> f_timer s = Some h) \<and>
     (\<forall>h. u h = Some UseStats \<longleftrightarrow> f_stats_timer s = Some h) \<and>
     (\<forall>h a. u h = Some (UseRead a) \<longleftrightarrow> (\<exists>wr. f_socks s a = Some (h, wr))) \<and>
     (\<forall>h a. u h = Some (UseWrite a) \<longleftrightarrow> (\<exists>rd. f_socks s a = Some (rd, h)))"

text \<open>Each \<open>SocketCtx\<close> is assigned to exactly one socket.\<close>

definition socks_ok :: "('j, 'eb) fetcher \<Rightarrow> bool" where
  "socks_ok s \<longleftrightarrow> (\<forall>a. a \<in> dom (f_socks s) \<longrightarrow> a < f_next_sock s) \<and>
     ran (f_assigned s) = dom (f_socks s) \<and> inj_on (f_assigned s) (dom (f_assigned s))"

definition handles_ok ::
  "('eb \<Rightarrow> nat \<rightharpoonup> registration) \<Rightarrow> ('eb \<Rightarrow> nat set) \<Rightarrow> ('j, 'eb) fetcher \<Rightarrow> bool" where
  "handles_ok live active s \<longleftrightarrow>
     es_sound live active (f_es s) \<and> socks_ok s \<and> (\<exists>u. uses_ok u s)"

lemma es_do_bind: "bind_outcome (es_do f s) (es_do g) = es_do (\<lambda>es. bind_outcome (f es) g) s"
  by (cases "f (f_es s)"; cases "g (projr (f (f_es s)))") (auto simp: es_do_def)

text \<open>Operations that change the event server only, and keep its handles.\<close>

lemma handles_ok_es:
  assumes "handles_ok live active s" and "es_sound live active es" "es_owned es = es_owned (f_es s)"
  shows "handles_ok live active (s\<lparr>f_es := es\<rparr>)"
  using assms by (simp add: handles_ok_def socks_ok_def uses_ok_def)

lemma uses_ok_simps:
  assumes "uses_ok u s"
  shows "dom u = es_owned (f_es s)" "u h = Some UseTimer \<longleftrightarrow> f_timer s = Some h"
    "u h = Some UseStats \<longleftrightarrow> f_stats_timer s = Some h"
    "u h = Some (UseRead a) \<longleftrightarrow> (\<exists>wr. f_socks s a = Some (h, wr))"
    "u h = Some (UseWrite a) \<longleftrightarrow> (\<exists>rd. f_socks s a = Some (rd, h))"
  using assms unfolding uses_ok_def by blast+

lemma uses_ok_sock:
  assumes "uses_ok u s" and "f_socks s a = Some (rd, wr)"
  shows "u rd = Some (UseRead a)" "u wr = Some (UseWrite a)"
    "rd \<in> es_owned (f_es s)" "wr \<in> es_owned (f_es s)" "rd \<noteq> wr"
proof -
  show r: "u rd = Some (UseRead a)" and w: "u wr = Some (UseWrite a)"
    using assms(2) by (simp_all add: uses_ok_simps [OF assms(1)])
  then show "rd \<in> es_owned (f_es s)" "wr \<in> es_owned (f_es s)"
    using uses_ok_simps(1) [OF assms(1)] by blast+
  show "rd \<noteq> wr" using r w by auto
qed

lemma uses_ok_timers:
  assumes "uses_ok u s"
  shows "f_timer s = Some h \<Longrightarrow> h \<in> es_owned (f_es s)" "f_stats_timer s = Some h \<Longrightarrow> h \<in> es_owned (f_es s)"
  using uses_ok_simps [OF assms] by (metis domI)+

text \<open>A handle that is not owned is in no use.\<close>

lemma uses_ok_unused:
  assumes "uses_ok u s" and "h \<notin> es_owned (f_es s)"
  shows "u h = None" "f_timer s \<noteq> Some h" "f_stats_timer s \<noteq> Some h"
    "f_socks s a \<noteq> Some (h, x)" "f_socks s a \<noteq> Some (x, h)"
proof -
  show "u h = None" using uses_ok_simps(1) [OF assms(1)] assms(2) by (cases "u h") auto
  show "f_timer s \<noteq> Some h" using uses_ok_timers(1) [OF assms(1), of h] assms(2) by auto
  show "f_stats_timer s \<noteq> Some h" using uses_ok_timers(2) [OF assms(1), of h] assms(2) by auto
  show "f_socks s a \<noteq> Some (h, x)" using uses_ok_sock(3) [OF assms(1), of a h x] assms(2) by auto
  show "f_socks s a \<noteq> Some (x, h)" using uses_ok_sock(4) [OF assms(1), of a x h] assms(2) by auto
qed

lemma handles_ok_sock:
  assumes "handles_ok live active s" and "f_socks s a = Some (rd, wr)"
  shows "rd \<in> es_owned (f_es s)" "wr \<in> es_owned (f_es s)" "rd \<noteq> wr"
proof -
  from assms(1) obtain u where "uses_ok u s" unfolding handles_ok_def by blast
  from uses_ok_sock [OF this assms(2)]
  show "rd \<in> es_owned (f_es s)" "wr \<in> es_owned (f_es s)" "rd \<noteq> wr" by simp_all
qed

section \<open>What the socket and timer callbacks leave alone\<close>

definition same_tasks :: "('j, 'eb) fetcher \<Rightarrow> ('j, 'eb) fetcher \<Rightarrow> bool" where
  "same_tasks s t \<longleftrightarrow> f_tasks t = f_tasks s \<and> f_ctxs t = f_ctxs s \<and> f_easys t = f_easys s \<and>
     f_multi t = f_multi s \<and> f_resolver t = f_resolver s \<and> f_promises t = f_promises s \<and>
     es_async_callbacks (f_es t) = es_async_callbacks (f_es s)"

lemma same_tasks_trans: "same_tasks s t \<Longrightarrow> same_tasks t u \<Longrightarrow> same_tasks s u"
  by (simp add: same_tasks_def)

lemma queue_same:
  "start L h ms es = Inr es' \<Longrightarrow> es_async_callbacks es' = es_async_callbacks es"
  "stop L h es = Inr es' \<Longrightarrow> es_async_callbacks es' = es_async_callbacks es"
  "remove L h es = Inr es' \<Longrightarrow> es_async_callbacks es' = es_async_callbacks es"
  by (auto simp: start_def stop_def remove_def es_simps)

lemma queue_same_new:
  "add_fd L fd flags cb es = (es', h) \<Longrightarrow> es_async_callbacks es' = es_async_callbacks es"
  "add_timer L tcb flags es = (es', h) \<Longrightarrow> es_async_callbacks es' = es_async_callbacks es"
  by (auto simp: add_fd_def add_timer_def new_handle_def Let_def split: prod.splits)

lemma es_do_same_tasks:
  assumes "es_do f s = Inr t"
    and "\<And>es es'. f es = Inr es' \<Longrightarrow> es_async_callbacks es' = es_async_callbacks es"
  shows "same_tasks s t"
  using assms by (auto simp: es_do_Inr same_tasks_def)

lemma new_socket_same_tasks: "new_socket_ctx L h sock s = (t, a) \<Longrightarrow> same_tasks s t"
  by (auto simp: new_socket_ctx_def Let_def same_tasks_def split: prod.splits dest!: queue_same_new(1))

lemma socket_cb_same_tasks:
  assumes "socket_cb L h sock w socketp s = Inr t"
  shows "same_tasks s t"
proof -
  obtain s1 a where s1: "(case socketp of None \<Rightarrow> new_socket_ctx L h sock s | Some a \<Rightarrow> (s, a)) = (s1, a)"
    by fastforce
  then have st: "same_tasks s s1"
    by (auto simp: same_tasks_def split: option.splits dest!: new_socket_same_tasks)
  from assms s1 obtain rd wr where sk: "f_socks s1 a = Some (rd, wr)"
    by (auto simp: socket_cb_def split: option.splits)
  note run = assms [unfolded socket_cb_def Let_def s1, simplified, unfolded sk, simplified]
  have pair: "same_tasks s t"
    if "bind_outcome (es_do f s1) (es_do g) = Inr t"
      "\<And>es es'. f es = Inr es' \<Longrightarrow> es_async_callbacks es' = es_async_callbacks es"
      "\<And>es es'. g es = Inr es' \<Longrightarrow> es_async_callbacks es' = es_async_callbacks es" for f g t
    using that es_do_same_tasks same_tasks_trans st unfolding bind_outcome_Inr_iff by metis
  consider "w = CURL_POLL_IN" | "w \<noteq> CURL_POLL_IN" "w = CURL_POLL_OUT"
    | "w \<noteq> CURL_POLL_IN" "w \<noteq> CURL_POLL_OUT" "w = CURL_POLL_INOUT"
    | "w \<noteq> CURL_POLL_IN" "w \<noteq> CURL_POLL_OUT" "w \<noteq> CURL_POLL_INOUT" "w = CURL_POLL_REMOVE"
    using run by (auto split: if_splits)
  then show ?thesis
  proof cases
    case 1
    with run show ?thesis by (intro pair [of "start L rd (-1)" "stop L wr"]) (auto intro: queue_same)
  next
    case 2
    with run show ?thesis by (intro pair [of "start L wr (-1)" "stop L rd"]) (auto intro: queue_same)
  next
    case 3
    with run show ?thesis by (intro pair [of "start L rd (-1)" "start L wr (-1)"]) (auto intro: queue_same)
  next
    case 4
    with run obtain u v where uv: "es_do (remove L rd) s1 = Inr u" "es_do (remove L wr) u = Inr v"
      "t = v\<lparr>f_socks := (f_socks v)(a := None), f_assigned := (f_assigned v)(sock := None)\<rparr>"
      by (auto simp: bind_outcome_Inr_iff)
    then have "same_tasks s v"
      by (intro pair [of "remove L rd" "remove L wr"]) (auto intro: queue_same)
    with uv(3) show ?thesis by (simp add: same_tasks_def)
  qed
qed

lemma timer_cb_same_tasks:
  assumes "Fetcher.timer_cb L ms s = Inr t"
  shows "same_tasks s t"
proof (cases "0 \<le> sint ms")
  case False
  with assms show ?thesis by (simp add: timer_cb_def same_tasks_def)
next
  case True
  show ?thesis
  proof (cases "f_timer s")
    case (Some h)
    with assms True have "es_do (start L h ms) s = Inr t" by (simp add: timer_cb_def)
    then show ?thesis by (rule es_do_same_tasks) (rule queue_same)
  next
    case None
    obtain es h where new: "add_timer L (ClientTimer MultiTimer) 0 (f_es s) = (es, h)"
      by (cases "add_timer L (ClientTimer MultiTimer) 0 (f_es s)")
    with assms True None have "es_do (start L h ms) (s\<lparr>f_es := es, f_timer := Some h\<rparr>) = Inr t"
      by (simp add: timer_cb_def)
    then have "same_tasks (s\<lparr>f_es := es, f_timer := Some h\<rparr>) t"
      by (rule es_do_same_tasks) (rule queue_same)
    then show ?thesis using queue_same_new(2) [OF new] by (simp add: same_tasks_def)
  qed
qed

section \<open>The callbacks keep the handles\<close>

context libevent_total
begin

lemma new_socket_ok:
  assumes ok: "handles_ok live active s" and new: "new_socket_ctx L h sock s = (s', a)"
    and "f_assigned s sock = None"
  shows "handles_ok live active s' \<and> (\<exists>rd wr. f_socks s' a = Some (rd, wr)) \<and>
    f_assigned s' = (f_assigned s)(sock \<mapsto> a) \<and> dom (f_socks s') = insert a (dom (f_socks s))"
proof -
  obtain es1 rd where rd: "add_fd L sock (READ OR PERSIST) (SocketEvent h) (f_es s) = (es1, rd)"
    by (cases "add_fd L sock (READ OR PERSIST) (SocketEvent h) (f_es s)")
  obtain es2 wr where wr: "add_fd L sock (WRITE OR PERSIST) (SocketEvent h) es1 = (es2, wr)"
    by (cases "add_fd L sock (WRITE OR PERSIST) (SocketEvent h) es1")
  from new rd wr have s': "a = f_next_sock s" "s' = s\<lparr>f_es := es2, f_socks := (f_socks s)(a \<mapsto> (rd, wr)),
      f_next_sock := Suc a, f_assigned := (f_assigned s)(sock \<mapsto> a)\<rparr>"
    by (auto simp: new_socket_ctx_def Let_def)
  from ok obtain u where sound: "es_sound live active (f_es s)" and socks: "socks_ok s" and u: "uses_ok u s"
    unfolding handles_ok_def by blast
  have p: "es_sound live active es2" "rd \<noteq> wr" "rd \<notin> es_owned (f_es s)" "wr \<notin> es_owned (f_es s)"
    "es_owned es2 = insert rd (insert wr (es_owned (f_es s)))"
    using handles.new_pair [OF sound rd wr] by auto
  have fresh: "a \<notin> dom (f_socks s)" "a \<notin> ran (f_assigned s)"
    using socks s'(1) unfolding socks_ok_def by auto
  note un = uses_ok_unused [OF u p(3)] uses_ok_unused [OF u p(4)]
  let ?u = "u(rd \<mapsto> UseRead a, wr \<mapsto> UseWrite a)"
  have "uses_ok ?u s'"
    unfolding uses_ok_def
  proof (intro conjI allI)
    show "dom ?u = es_owned (f_es s')"
      using p(5) uses_ok_simps(1) [OF u] by (auto simp: s'(2))
  next
    fix k show "?u k = Some UseTimer \<longleftrightarrow> f_timer s' = Some k"
      using un by (auto simp: s'(2) uses_ok_simps [OF u])
  next
    fix k show "?u k = Some UseStats \<longleftrightarrow> f_stats_timer s' = Some k"
      using un by (auto simp: s'(2) uses_ok_simps [OF u])
  next
    fix k b show "?u k = Some (UseRead b) \<longleftrightarrow> (\<exists>wr. f_socks s' b = Some (k, wr))"
      using un p(2) fresh(1) by (cases "b = a") (auto simp: s'(2) uses_ok_simps [OF u])
  next
    fix k b show "?u k = Some (UseWrite b) \<longleftrightarrow> (\<exists>rd. f_socks s' b = Some (rd, k))"
      using un p(2) fresh(1) by (cases "b = a") (auto simp: s'(2) uses_ok_simps [OF u])
  qed
  moreover have "socks_ok s'"
    unfolding socks_ok_def
  proof (intro conjI allI impI)
    fix b assume "b \<in> dom (f_socks s')"
    then show "b < f_next_sock s'"
      using socks unfolding socks_ok_def by (cases "b = a") (auto simp: s' less_SucI)
  next
    show "ran (f_assigned s') = dom (f_socks s')"
      using socks assms(3) unfolding socks_ok_def by (simp add: s'(2) ran_map_upd)
  next
    show "inj_on (f_assigned s') (dom (f_assigned s'))"
    proof (rule inj_onI)
      fix x y assume "x \<in> dom (f_assigned s')" "y \<in> dom (f_assigned s')" "f_assigned s' x = f_assigned s' y"
      with fresh(2) socks show "x = y"
        unfolding socks_ok_def s'(2) by (auto simp: ran_def inj_on_def split: if_splits)
    qed
  qed
  ultimately show ?thesis using p(1) s'(2) by (auto simp: handles_ok_def)
qed

lemma es_do_pair_ok:
  assumes "handles_ok live active s"
    and "\<exists>es. bind_outcome (f (f_es s)) g = Inr es \<and> es_sound live active es \<and> es_owned es = es_owned (f_es s)"
  shows "\<exists>t. bind_outcome (es_do f s) (es_do g) = Inr t \<and> handles_ok live active t \<and>
    f_socks t = f_socks s \<and> f_assigned t = f_assigned s"
  using assms handles_ok_es unfolding es_do_bind by (fastforce simp: es_do_def)

lemma socket_watch_ok:
  assumes ok: "handles_ok live active s" and sk: "f_socks s a = Some (rd, wr)"
    and w: "w \<in> {CURL_POLL_IN, CURL_POLL_OUT, CURL_POLL_INOUT}"
  shows "\<exists>t. socket_cb L h sock w (Some a) s = Inr t \<and> handles_ok live active t \<and>
    f_socks t = f_socks s \<and> f_assigned t = f_assigned s"
proof -
  have sound: "es_sound live active (f_es s)" using ok by (simp add: handles_ok_def)
  note own = handles_ok_sock [OF ok sk]
  note pairs = handles.start_stop [OF sound own(1,2), of "-1"] handles.start_stop [OF sound own(2,1), of "-1"]
    handles.start_start [OF sound own(1,2), of "-1" "-1"]
  from w consider "w = CURL_POLL_IN" | "w = CURL_POLL_OUT" | "w = CURL_POLL_INOUT" by blast
  then show ?thesis
  proof cases
    case 1
    then have "socket_cb L h sock w (Some a) s = bind_outcome (es_do (start L rd (-1)) s) (es_do (stop L wr))"
      by (simp add: socket_cb_def sk)
    with es_do_pair_ok [where f = "start L rd (-1)" and g = "stop L wr", OF ok pairs(1)] show ?thesis by simp
  next
    case 2
    then have "socket_cb L h sock w (Some a) s = bind_outcome (es_do (start L wr (-1)) s) (es_do (stop L rd))"
      by (simp add: socket_cb_def sk CURL_POLL_IN_def CURL_POLL_OUT_def)
    with es_do_pair_ok [where f = "start L wr (-1)" and g = "stop L rd", OF ok pairs(2)] show ?thesis by simp
  next
    case 3
    then have "socket_cb L h sock w (Some a) s = bind_outcome (es_do (start L rd (-1)) s) (es_do (start L wr (-1)))"
      by (simp add: socket_cb_def sk CURL_POLL_IN_def CURL_POLL_OUT_def CURL_POLL_INOUT_def)
    with es_do_pair_ok [where f = "start L rd (-1)" and g = "start L wr (-1)", OF ok pairs(3)] show ?thesis by simp
  qed
qed

lemma socket_remove_ok:
  assumes ok: "handles_ok live active s" and sk: "f_socks s a = Some (rd, wr)" "f_assigned s sock = Some a"
  shows "\<exists>t. socket_cb L h sock CURL_POLL_REMOVE (Some a) s = Inr t \<and> handles_ok live active t \<and>
    f_socks t = (f_socks s)(a := None) \<and> f_assigned t = (f_assigned s)(sock := None)"
proof -
  from ok obtain u where sound: "es_sound live active (f_es s)" and socks: "socks_ok s" and u: "uses_ok u s"
    unfolding handles_ok_def by blast
  note own = uses_ok_sock [OF u sk(1)]
  obtain es where es: "bind_outcome (remove L rd (f_es s)) (remove L wr) = Inr es" "es_sound live active es"
    "es_owned es = es_owned (f_es s) - {rd, wr}"
    using handles.remove_remove [OF sound own(3-5)] by blast
  define t where "t = s\<lparr>f_es := es, f_socks := (f_socks s)(a := None), f_assigned := (f_assigned s)(sock := None)\<rparr>"
  have "socket_cb L h sock CURL_POLL_REMOVE (Some a) s = bind_outcome
      (bind_outcome (es_do (remove L rd) s) (es_do (remove L wr)))
      (\<lambda>s2. Inr (s2\<lparr>f_socks := (f_socks s2)(a := None), f_assigned := (f_assigned s2)(sock := None)\<rparr>))"
    by (cases "es_do (remove L rd) s") (simp_all add: socket_cb_def sk CURL_POLL_IN_def CURL_POLL_OUT_def
        CURL_POLL_INOUT_def CURL_POLL_REMOVE_def)
  then have run: "socket_cb L h sock CURL_POLL_REMOVE (Some a) s = Inr t"
    unfolding es_do_bind using es(1) by (simp add: es_do_def t_def)
  have inj: "a \<notin> ran ((f_assigned s)(sock := None))"
    using socks sk(2) unfolding socks_ok_def inj_on_def ran_def by (auto split: if_splits) (metis domI)
  have rest: "ran ((f_assigned s)(sock := None)) = ran (f_assigned s) - {a}"
    using inj sk(2) by (auto simp: ran_def split: if_splits) (metis option.inject)
  let ?u = "u(rd := None, wr := None)"
  have other: "u k = Some (UseRead a) \<longleftrightarrow> k = rd" "u k = Some (UseWrite a) \<longleftrightarrow> k = wr" for k
    using sk(1) by (auto simp: uses_ok_simps [OF u])
  have "uses_ok ?u t"
    unfolding uses_ok_def
  proof (intro conjI allI)
    show "dom ?u = es_owned (f_es t)"
      using es(3) uses_ok_simps(1) [OF u] by (auto simp: t_def)
  next
    fix k show "?u k = Some UseTimer \<longleftrightarrow> f_timer t = Some k"
      using own(1,2) uses_ok_simps(2) [OF u, of k] by (auto simp: t_def)
  next
    fix k show "?u k = Some UseStats \<longleftrightarrow> f_stats_timer t = Some k"
      using own(1,2) uses_ok_simps(3) [OF u, of k] by (auto simp: t_def)
  next
    fix k b show "?u k = Some (UseRead b) \<longleftrightarrow> (\<exists>wr. f_socks t b = Some (k, wr))"
      using own(1,2) other(1) [of k] uses_ok_simps(4) [OF u, of k b] by (cases "b = a") (auto simp: t_def)
  next
    fix k b show "?u k = Some (UseWrite b) \<longleftrightarrow> (\<exists>rd. f_socks t b = Some (rd, k))"
      using own(1,2) other(2) [of k] uses_ok_simps(5) [OF u, of k b] by (cases "b = a") (auto simp: t_def)
  qed
  moreover have "socks_ok t"
    using socks rest unfolding socks_ok_def t_def by (auto simp: inj_on_def)
  ultimately show ?thesis using run es(2) by (auto simp: handles_ok_def t_def)
qed

lemma socket_cb_new:
  "new_socket_ctx L h sock s = (s1, a) \<Longrightarrow> socket_cb L h sock w None s = socket_cb L h sock w (Some a) s1"
  by (simp add: socket_cb_def)

lemma socket_cb_ok:
  assumes ok: "handles_ok live active s"
    and w: "w \<in> {CURL_POLL_IN, CURL_POLL_OUT, CURL_POLL_INOUT, CURL_POLL_REMOVE}"
  shows "\<exists>t. socket_cb L h sock w (f_assigned s sock) s = Inr t \<and> handles_ok live active t \<and>
    (f_assigned t sock = None \<longleftrightarrow> w = CURL_POLL_REMOVE)"
proof -
  obtain s1 a where s1: "handles_ok live active s1" "f_assigned s1 sock = Some a"
    "\<exists>rd wr. f_socks s1 a = Some (rd, wr)"
    "socket_cb L h sock w (f_assigned s sock) s = socket_cb L h sock w (Some a) s1"
  proof (cases "f_assigned s sock")
    case None
    obtain s1 a where new: "new_socket_ctx L h sock s = (s1, a)" by (cases "new_socket_ctx L h sock s")
    from new_socket_ok [OF ok new None] show thesis
      by (intro that [of s1 a]) (auto simp: None socket_cb_new [OF new])
  next
    case (Some a)
    then have "a \<in> dom (f_socks s)" using ok unfolding handles_ok_def socks_ok_def by (auto intro: ranI)
    with Some ok show thesis by (intro that [of s a]) auto
  qed
  then obtain rd wr where sk: "f_socks s1 a = Some (rd, wr)" by blast
  show ?thesis
  proof (cases "w = CURL_POLL_REMOVE")
    case True
    with socket_remove_ok [OF s1(1) sk s1(2), of h] s1(4) show ?thesis by auto
  next
    case False
    with w have "w \<in> {CURL_POLL_IN, CURL_POLL_OUT, CURL_POLL_INOUT}" by blast
    from socket_watch_ok [OF s1(1) sk this, of h sock] s1(2,4) False show ?thesis by auto
  qed
qed

lemma new_timer_ok:
  assumes ok: "handles_ok live active s" and "f_timer s = None"
    and new: "add_timer L (ClientTimer MultiTimer) 0 (f_es s) = (es, h)"
  shows "handles_ok live active (s\<lparr>f_es := es, f_timer := Some h\<rparr>) \<and> h \<in> es_owned es"
proof -
  from ok obtain u where sound: "es_sound live active (f_es s)" and socks: "socks_ok s" and u: "uses_ok u s"
    unfolding handles_ok_def by blast
  have p: "es_sound live active es" "h \<notin> es_owned (f_es s)" "es_owned es = insert h (es_owned (f_es s))"
    using handles.new_timer [OF sound new] by auto
  note un = uses_ok_unused [OF u p(2)]
  let ?s = "s\<lparr>f_es := es, f_timer := Some h\<rparr>"
  let ?u = "u(h \<mapsto> UseTimer)"
  have "uses_ok ?u ?s"
    unfolding uses_ok_def
  proof (intro conjI allI)
    show "dom ?u = es_owned (f_es ?s)" using p(3) uses_ok_simps(1) [OF u] by simp
  next
    fix k show "?u k = Some UseTimer \<longleftrightarrow> f_timer ?s = Some k"
      using assms(2) uses_ok_simps(2) [OF u, of k] by auto
  next
    fix k show "?u k = Some UseStats \<longleftrightarrow> f_stats_timer ?s = Some k"
      using un uses_ok_simps(3) [OF u, of k] by auto
  next
    fix k b show "?u k = Some (UseRead b) \<longleftrightarrow> (\<exists>wr. f_socks ?s b = Some (k, wr))"
      using un uses_ok_simps(4) [OF u, of k b] by auto
  next
    fix k b show "?u k = Some (UseWrite b) \<longleftrightarrow> (\<exists>rd. f_socks ?s b = Some (rd, k))"
      using un uses_ok_simps(5) [OF u, of k b] by auto
  qed
  with p(1,3) socks show ?thesis by (auto simp: handles_ok_def socks_ok_def)
qed

lemma es_start_ok:
  assumes "handles_ok live active s" and "h \<in> es_owned (f_es s)"
  shows "\<exists>t. es_do (start L h ms) s = Inr t \<and> handles_ok live active t \<and> f_timer t = f_timer s"
proof -
  obtain es where "start L h ms (f_es s) = Inr es" "es_sound live active es" "es_owned es = es_owned (f_es s)"
    using handles.start_owned assms unfolding handles_ok_def by blast
  with assms(1) show ?thesis by (auto simp: es_do_def handles_ok_es)
qed

lemma es_stop_ok:
  assumes "handles_ok live active s" and "h \<in> es_owned (f_es s)"
  shows "\<exists>t. es_do (stop L h) s = Inr t \<and> handles_ok live active t"
proof -
  obtain es where "stop L h (f_es s) = Inr es" "es_sound live active es" "es_owned es = es_owned (f_es s)"
    using handles.stop_owned assms unfolding handles_ok_def by blast
  with assms(1) show ?thesis by (auto simp: es_do_def handles_ok_es)
qed

lemma timer_owned: "handles_ok live active s \<Longrightarrow> f_timer s = Some h \<Longrightarrow> h \<in> es_owned (f_es s)"
  unfolding handles_ok_def using uses_ok_timers(1) by blast

lemma timer_cb_ok:
  assumes ok: "handles_ok live active s"
  shows "\<exists>t. Fetcher.timer_cb L ms s = Inr t \<and> handles_ok live active t"
proof (cases "f_timer s")
  case (Some h)
  with es_start_ok [OF ok timer_owned [OF ok Some], of ms] ok show ?thesis
    by (auto simp: timer_cb_def)
next
  case None
  obtain es h where new: "add_timer L (ClientTimer MultiTimer) 0 (f_es s) = (es, h)"
    by (cases "add_timer L (ClientTimer MultiTimer) 0 (f_es s)")
  let ?s = "s\<lparr>f_es := es, f_timer := Some h\<rparr>"
  have "handles_ok live active ?s" "h \<in> es_owned (f_es ?s)"
    using new_timer_ok [OF ok None new] by auto
  from es_start_ok [OF this, of ms] None new ok show ?thesis by (auto simp: timer_cb_def)
qed

lemma fetcher_init:
  "\<exists>s. Fetcher L = Inr s \<and> handles_ok live active s \<and> f_tasks s = [] \<and> f_ctxs s = Map.empty \<and>
     f_easys s = Map.empty \<and> f_multi s = [] \<and> f_resolver s = Resolver \<and>
     es_async_callbacks (f_es s) = []"
proof -
  obtain es0 :: "(fetcher_cb, 'a) event_server" where es0: "EventServer L = Inr es0"
    using pthreads by (cases "add_timer L DrainAsync 0 \<lparr>es_eb = le_base_new L, es_handles = Map.empty,
      es_next = 1, es_async_handle = 0, es_async_callbacks = [] :: fetcher_cb list\<rparr>") (auto simp: EventServer_def)
  have s0: "es_sound live active es0" using sound_init [OF es0] .
  have o0: "es_owned es0 = {}"
    using es0 by (auto simp: EventServer_def add_timer_def new_handle_def Let_def es_owned_def
        split: if_splits prod.splits)
  obtain es h where new: "add_timer L (ClientTimer Stats) PERSIST es0 = (es, h)"
    by (cases "add_timer L (ClientTimer Stats) PERSIST es0")
  have s1: "es_sound live active es" "es_owned es = {h}"
    using handles.new_timer [OF s0 new] o0 by auto
  obtain es1 where es1: "start L h 1000 es = Inr es1" "es_sound live active es1" "es_owned es1 = {h}"
    using handles.start_owned [OF s1(1), of h 1000] unfolding s1(2) by blast
  define s :: "('b, 'a) fetcher" where "s = \<lparr>f_es = es1, f_resolver = Resolver, f_timer = None,
    f_stats_timer = Some h, f_tasks = [], f_ctxs = Map.empty, f_promises = Map.empty, f_easys = Map.empty,
    f_multi = [], f_socks = Map.empty, f_next_sock = 0, f_assigned = Map.empty, f_tick = 0\<rparr>"
  have "uses_ok [h \<mapsto> UseStats] s" using es1(3) by (auto simp: uses_ok_def s_def)
  then have "handles_ok live active s"
    using es1(2) by (auto simp: handles_ok_def socks_ok_def s_def)
  moreover have "Fetcher L = Inr s" using es0 new es1(1) by (simp add: Fetcher_def s_def)
  moreover have "es_async_callbacks es1 = []"
    using queue_same(1) [OF es1(1)] queue_same_new(2) [OF new] inv_init [OF es0] by simp
  ultimately show ?thesis by (auto simp: s_def)
qed

end

section \<open>Properties\<close>

text \<open>The calls libcurl makes for sockets and timeouts.\<close>

definition event_action :: "curl_action \<Rightarrow> bool" where
  "event_action act \<longleftrightarrow> (case act of
      Socket h sock w \<Rightarrow> w \<in> {CURL_POLL_IN, CURL_POLL_OUT, CURL_POLL_INOUT, CURL_POLL_REMOVE}
    | Timer ms \<Rightarrow> True
    | _ \<Rightarrow> False)"

lemma perform_event_same: "event_action act \<Longrightarrow> perform L act s = Inr t \<Longrightarrow> same_tasks s t"
  by (cases act) (auto simp: event_action_def intro: socket_cb_same_tasks timer_cb_same_tasks)

lemma performs_events_same:
  "list_all event_action acts \<Longrightarrow> fold_outcome (perform L) acts s = Inr t \<Longrightarrow> same_tasks s t"
proof (induction acts arbitrary: s)
  case Nil
  then show ?case by (simp add: same_tasks_def)
next
  case (Cons act acts)
  then obtain u where "perform L act s = Inr u" "fold_outcome (perform L) acts u = Inr t"
    by (auto simp: bind_outcome_Inr_iff)
  with Cons show ?case by (auto intro: same_tasks_trans perform_event_same)
qed

context libevent_total
begin

lemma perform_event_ok:
  "handles_ok live active s \<Longrightarrow> event_action act \<Longrightarrow>
   \<exists>t. perform L act s = Inr t \<and> handles_ok live active t"
  using socket_cb_ok timer_cb_ok by (cases act) (auto simp: event_action_def; blast)+

lemma perform_events_ok:
  "handles_ok live active s \<Longrightarrow> list_all event_action acts \<Longrightarrow>
   \<exists>t. fold_outcome (perform L) acts s = Inr t \<and> handles_ok live active t"
proof (induction acts arbitrary: s)
  case Nil
  then show ?case by simp
next
  case (Cons act acts)
  then obtain t where t: "perform L act s = Inr t" "handles_ok live active t"
    using perform_event_ok by fastforce
  with Cons show ?case by simp
qed

end

text \<open>C21: Whatever socket and timeout callbacks libcurl makes, in whatever order, none fails or
  touches a freed \<open>SocketCtx\<close> or handle, and no handle is lost: the event server owns exactly the
  statistics timer, the timer of the multi handle once one was asked for, and a read and a write
  handle for each socket that has been announced and not removed.\<close>

theorem fetcher_handles_exact:
  fixes s0 :: "('j, 'eb) fetcher"
  assumes "libevent_total L live active armed" and "Fetcher L = Inr s0" and "list_all event_action acts"
  shows "\<exists>s. fold_outcome (perform L) acts s0 = Inr s \<and>
    es_owned (f_es s) = {h. f_stats_timer s = Some h} \<union> {h. f_timer s = Some h} \<union>
      {h. \<exists>sock a rd wr. f_assigned s sock = Some a \<and> f_socks s a = Some (rd, wr) \<and> (h = rd \<or> h = wr)} \<and>
    ran (f_assigned s) = dom (f_socks s)"
proof -
  obtain s1 :: "('j, 'eb) fetcher" where "Fetcher L = Inr s1" "handles_ok live active s1"
    using libevent_total.fetcher_init [OF assms(1)] by blast
  with assms(2) have "handles_ok live active s0" by simp
  then obtain s where s: "fold_outcome (perform L) acts s0 = Inr s" "handles_ok live active s"
    using libevent_total.perform_events_ok [OF assms(1) _ assms(3)] by blast
  then obtain u where u: "uses_ok u s" and socks: "ran (f_assigned s) = dom (f_socks s)"
    unfolding handles_ok_def socks_ok_def by blast
  have own: "h \<in> es_owned (f_es s) \<longleftrightarrow> f_stats_timer s = Some h \<or> f_timer s = Some h \<or>
      (\<exists>a rd wr. f_socks s a = Some (rd, wr) \<and> (h = rd \<or> h = wr))" for h
  proof
    assume "h \<in> es_owned (f_es s)"
    then obtain x where "u h = Some x" using uses_ok_simps(1) [OF u] by blast
    then show "f_stats_timer s = Some h \<or> f_timer s = Some h \<or>
        (\<exists>a rd wr. f_socks s a = Some (rd, wr) \<and> (h = rd \<or> h = wr))"
      using uses_ok_simps(2-5) [OF u, of h] by (cases x) blast+
  qed (use uses_ok_timers [OF u] uses_ok_sock(3,4) [OF u] in blast)
  have sock: "\<exists>sock. f_assigned s sock = Some a" if "f_socks s a = Some (rd, wr)" for a rd wr
  proof -
    from that have "a \<in> ran (f_assigned s)" unfolding socks by blast
    then show ?thesis by (auto simp: ran_def)
  qed
  have "(\<exists>a rd wr. f_socks s a = Some (rd, wr) \<and> (h = rd \<or> h = wr)) \<longleftrightarrow>
      (\<exists>sock a rd wr. f_assigned s sock = Some a \<and> f_socks s a = Some (rd, wr) \<and> (h = rd \<or> h = wr))" for h
    using sock by blast
  then have "es_owned (f_es s) = {h. f_stats_timer s = Some h} \<union> {h. f_timer s = Some h} \<union>
      {h. \<exists>sock a rd wr. f_assigned s sock = Some a \<and> f_socks s a = Some (rd, wr) \<and> (h = rd \<or> h = wr)}"
    by (intro set_eqI) (simp add: own)
  with s(1) socks show ?thesis by blast
qed

theorem fetcher_handles_exact_witness:
  "\<exists>s. fold_outcome (perform lb) [Socket 1 7 3, Timer 100, Socket 1 7 4] fetcher0 = Inr s \<and>
     ran (f_assigned s) = dom (f_socks s)"
proof -
  have "list_all event_action [Socket 1 7 3, Timer 100, Socket 1 7 4]"
    by (simp add: event_action_def CURL_POLL_INOUT_def CURL_POLL_REMOVE_def)
  from fetcher_handles_exact [OF lb.libevent_total_axioms fetcher0_ok this] show ?thesis by blast
qed

end
