(* ===== verification/Fetcher_Tasks.thy ===== *)
theory Fetcher_Tasks
  imports Fetcher_Requests Fetcher_Handles
begin

text \<open>
  The life of a task in \<open>Fetcher/Fetcher.cpp\<close>, across its three threads: the request threads
  make and add contexts, the resolver thread answers, the loop runs the closures. The steps are
  the atomic sections of the code; the invariant says where every context is, and that it is in
  one place only.
\<close>

section \<open>The running program\<close>

text \<open>
  Beside the fetcher: the names evdns was asked for, the contexts a request thread has made and
  not added yet, the calls the resolver thread has still to make for an answer (it holds the
  resolver's mutex until they are made), the closures of the batch the loop is running, and, for
  the statements only, the contexts given up after a failed resolution and those handed out.
\<close>

record ('j, 'eb) sys =
  y_fetch :: "('j, 'eb) fetcher"
  y_flight :: "string list"
  y_new :: "nat list"
  y_dns :: "(nat \<times> string list \<times> status) list"
  y_batch :: "fetcher_cb call list"
  y_failed :: "nat list"
  y_reported :: "nat list"

definition sys0 :: "('j, 'eb) fetcher \<Rightarrow> ('j, 'eb) sys" where
  "sys0 s = \<lparr>y_fetch = s, y_flight = [], y_new = [], y_dns = [], y_batch = [], y_failed = [],
     y_reported = []\<rparr>"

text \<open>What libcurl promises about its callbacks: data and messages for transfers that were added.\<close>

definition legal_action :: "('j, 'eb) fetcher \<Rightarrow> curl_action \<Rightarrow> bool" where
  "legal_action s act \<longleftrightarrow> (case act of
      Header h b \<Rightarrow> h \<in> set (f_multi s)
    | Body h b \<Rightarrow> h \<in> set (f_multi s)
    | _ \<Rightarrow> event_action act)"

definition legal_socket_action ::
  "('j, 'eb) fetcher \<Rightarrow> curl_action list \<times> curl_msg list \<times> int \<Rightarrow> bool" where
  "legal_socket_action s r \<longleftrightarrow> list_all (legal_action s) (fst r) \<and>
     distinct (map m_easy (fst (snd r))) \<and> list_all (\<lambda>m. m_easy m \<in> set (f_multi s)) (fst (snd r))"

definition legal_reaction :: "('j, 'eb) fetcher \<Rightarrow> reaction \<Rightarrow> bool" where
  "legal_reaction s react \<longleftrightarrow> (\<forall>sock w. legal_socket_action s (rx_socket_action react sock w)) \<and>
     list_all event_action (rx_add_handle react) \<and>
     (\<forall>h. list_all event_action (rx_remove_handle react h))"

definition no_reaction :: reaction where
  "no_reaction = \<lparr>rx_socket_action = (\<lambda>_ _. ([], [], 0)), rx_add_handle = [], rx_remove_handle = (\<lambda>_. [])\<rparr>"

lemma no_reaction_simps [simp]:
  "rx_socket_action no_reaction = (\<lambda>_ _. ([], [], 0))" "rx_add_handle no_reaction = []"
  "rx_remove_handle no_reaction = (\<lambda>_. [])" "legal_reaction s no_reaction"
  by (simp_all add: legal_reaction_def legal_socket_action_def no_reaction_def)

text \<open>The contexts a closure or a step hands out or gives up.\<close>

definition handed_out :: "fetcher_cb call \<Rightarrow> ('j, 'eb) fetcher \<Rightarrow> nat list" where
  "handed_out c s = (case c of AsyncCall (CollectDone q) \<Rightarrow> filter (finished s) (f_tasks s) | _ \<Rightarrow> [])"

definition given_up :: "nat \<Rightarrow> ('j, 'eb) fetcher \<Rightarrow> nat list" where
  "given_up p s = (if finished s p then [p] else [])"

lemma given_up_set [simp]:
  "q \<in> set (given_up p s) \<longleftrightarrow> q = p \<and> finished s p" "set (given_up p s) \<subseteq> {p}"
  "length (given_up p s) \<le> Suc 0"
  by (auto simp: given_up_def)

declare resolver_inv.simps [simp del] resolver_pending.simps [simp del]

inductive fetch_step ::
  "'eb libevent \<Rightarrow> ('eb \<Rightarrow> nat \<rightharpoonup> registration) \<Rightarrow> 'j json \<Rightarrow> b64 \<Rightarrow> fenv \<Rightarrow>
   ('j, 'eb) sys \<Rightarrow> ('j, 'eb) sys \<Rightarrow> nat list \<Rightarrow> nat list \<Rightarrow> bool"
  for L live J B E
where
  f_make: "from_json J t CrawlContext = Inr c \<Longrightarrow> p = en_alloc E (f_ctxs (y_fetch y)) \<Longrightarrow>
     fetch_step L live J B E y (y\<lparr>y_fetch := set_ctx p (task_context p c) (y_fetch y),
       y_new := y_new y @ [p]\<rparr>) [p] []"
| f_add: "p \<in> set (y_new y) \<Longrightarrow> y_dns y = [] \<Longrightarrow> add L E p (y_fetch y) = Inr s' \<Longrightarrow>
     fetch_step L live J B E y (y\<lparr>y_fetch := s', y_new := remove1 p (y_new y),
       y_failed := y_failed y @ given_up p s'\<rparr>) [] (given_up p s')"
| f_notify: "y_dns y = [] \<Longrightarrow> Resolver.ev_cb accepts (f_resolver (y_fetch y)) = Inr (r', qs) \<Longrightarrow>
     fetch_step L live J B E y (y\<lparr>y_fetch := (y_fetch y)\<lparr>f_resolver := r'\<rparr>,
       y_flight := y_flight y @ r_tasks (f_resolver (y_fetch y))\<rparr>) [] []"
| f_reply: "y_dns y = [] \<Longrightarrow> name \<in> set (y_flight y) \<Longrightarrow>
     res_cb (en_dns_error E) tv a name (f_resolver (y_fetch y)) = Inr (r', calls) \<Longrightarrow>
     fetch_step L live J B E y (y\<lparr>y_fetch := (y_fetch y)\<lparr>f_resolver := r'\<rparr>,
       y_flight := remove1 name (y_flight y), y_dns := calls\<rparr>) [] []"
| f_dns: "y_dns y = (p, addrs, st) # rest \<Longrightarrow> resolver_cb L E p addrs st (y_fetch y) = Inr s' \<Longrightarrow>
     fetch_step L live J B E y (y\<lparr>y_fetch := s', y_dns := rest,
       y_failed := y_failed y @ given_up p s'\<rparr>) [] (given_up p s')"
| f_result: "get_done_tasks_req L q (y_fetch y) = Inr s' \<Longrightarrow>
     fetch_step L live J B E y (y\<lparr>y_fetch := s'\<rparr>) [] []"
| f_fire: "y_batch y = [] \<Longrightarrow> live (es_eb (f_es (y_fetch y))) ev = Some (fd, flags, h) \<Longrightarrow>
     EventServer.ev_cb fd fl h ((f_es (y_fetch y))\<lparr>es_eb := le_take L (es_eb (f_es (y_fetch y))) ev\<rparr>) =
       Inr (es', calls) \<Longrightarrow>
     fetch_step L live J B E y (y\<lparr>y_fetch := (y_fetch y)\<lparr>f_es := es'\<rparr>, y_batch := calls\<rparr>) [] []"
| f_call: "y_batch y = c # rest \<Longrightarrow> run_call L J B E react c (y_fetch y) = Inr s' \<Longrightarrow>
     legal_reaction (y_fetch y) react \<Longrightarrow> out = handed_out c (y_fetch y) \<Longrightarrow>
     fetch_step L live J B E y (y\<lparr>y_fetch := s', y_batch := rest,
       y_reported := y_reported y @ out\<rparr>) [] out"

section \<open>Where the contexts are\<close>

definition starts :: "fetcher_cb list \<Rightarrow> nat list" where
  "starts cbs = concat (map (\<lambda>c. case c of StartTransfer p \<Rightarrow> [p] | _ \<Rightarrow> []) cbs)"

lemma starts_simps [simp]:
  "starts [] = []" "starts (cbs @ cbs') = starts cbs @ starts cbs'"
  "starts (StartTransfer p # cbs) = p # starts cbs" "starts (CollectDone q # cbs) = starts cbs"
  by (simp_all add: starts_def)

definition waiting :: "('j, 'eb) sys \<Rightarrow> nat multiset" where
  "waiting y = mset (y_new y) + resolver_pending (f_resolver (y_fetch y), y_flight y) +
     mset (map fst (y_dns y)) + mset (starts (es_async_callbacks (f_es (y_fetch y)))) +
     mset (starts (async_calls (y_batch y)))"

definition sys_pending :: "('j, 'eb) sys \<Rightarrow> nat multiset" where
  "sys_pending y = waiting y + mset (f_tasks (y_fetch y))"

text \<open>
  The transfers libcurl runs: each easy handle points to a context that \<open>tasks_\<close> owns and that is
  not finished, and no two to the same.
\<close>

definition transfers_ok :: "('j, 'eb) fetcher \<Rightarrow> bool" where
  "transfers_ok s \<longleftrightarrow> distinct (f_multi s) \<and> finite (dom (f_easys s)) \<and>
     (\<forall>h \<in> set (f_multi s). \<exists>e. f_easys s h = Some e \<and> e_headerdata e = e_private e \<and>
        e_writedata e = e_private e \<and> e_private e \<in> set (f_tasks s) \<and> \<not> finished s (e_private e)) \<and>
     inj_on (\<lambda>h. map_option e_private (f_easys s h)) (set (f_multi s))"

definition sys_inv :: "('j, 'eb) sys \<Rightarrow> bool" where
  "sys_inv y \<longleftrightarrow> resolver_inv (f_resolver (y_fetch y), y_flight y) \<and>
     finite (dom (f_ctxs (y_fetch y))) \<and>
     sys_pending y + mset (y_failed y) = mset_set (dom (f_ctxs (y_fetch y))) \<and>
     (\<forall>p \<in># waiting y. \<not> finished (y_fetch y) p) \<and>
     (\<forall>p \<in> set (y_failed y). finished (y_fetch y) p) \<and>
     transfers_ok (y_fetch y)"

definition good_env :: "fenv \<Rightarrow> bool" where
  "good_env E \<longleftrightarrow> good_alloc E \<and> 
     (\<forall>m h. finite (dom m) \<longrightarrow> en_easy_init E m = Some h \<longrightarrow> h \<notin> dom m)"

lemma good_env0: "good_env env0"
  using good_alloc_env0 fresh_key by (auto simp: good_env_def env0_def)

section \<open>The life of a task\<close>

text \<open>
  The specification: a task waits for its address, runs, ends and is reported once, after which
  its address is free; or its resolution fails. Where the program is in this life is read off the
  places of the context.
\<close>

datatype phase = Absent | Waiting | Running | Done | Failed

inductive phase_step :: "(nat \<Rightarrow> phase) \<Rightarrow> (nat \<Rightarrow> phase) \<Rightarrow> nat list \<Rightarrow> nat list \<Rightarrow> bool" where
  a_make: "a p = Absent \<Longrightarrow> phase_step a (a(p := Waiting)) [p] []"
| a_start: "a p = Waiting \<Longrightarrow> phase_step a (a(p := Running)) [] []"
| a_fail: "a p = Waiting \<Longrightarrow> phase_step a (a(p := Failed)) [] [p]"
| a_finish: "(\<forall>p. b p = a p \<or> a p = Running \<and> b p = Done) \<Longrightarrow> phase_step a b [] []"
| a_report: "distinct ps \<Longrightarrow> set ps = {p. a p = Done} \<Longrightarrow>
     phase_step a (\<lambda>p. if a p = Done then Absent else a p) [] ps"

inductive_cases phase_stepE: "phase_step a b reg called"

definition phase :: "('j, 'eb) sys \<Rightarrow> nat \<Rightarrow> phase" where
  "phase y p = (if p \<notin> dom (f_ctxs (y_fetch y)) then Absent
     else if p \<in> set (y_failed y) then Failed
     else if p \<in> set (f_tasks (y_fetch y)) then (if finished (y_fetch y) p then Done else Running)
     else Waiting)"

lemma phase_same: "a = b \<Longrightarrow> phase_step a b [] []"
  by (simp add: a_finish)

section \<open>What the operations change\<close>

text \<open>The parts of the fetcher that only transfers change.\<close>

definition same_transfers :: "('j, 'eb) fetcher \<Rightarrow> ('j, 'eb) fetcher \<Rightarrow> bool" where
  "same_transfers s t \<longleftrightarrow> f_tasks t = f_tasks s \<and> f_easys t = f_easys s \<and> f_multi t = f_multi s"

lemma async_queue: "add_async L cb es = Inr es' \<Longrightarrow> es_async_callbacks es' = es_async_callbacks es @ [cb]"
  by (auto simp: add_async_def Let_def es_simps)

lemma resolver_cb_effect:
  assumes "resolver_cb L E p addrs st s = Inr t"
  obtains c where "p \<in> dom (f_ctxs s)" "f_ctxs t = (f_ctxs s)(p \<mapsto> c)" "same_transfers s t"
    "f_resolver t = f_resolver s"
    "is_ok st \<Longrightarrow> (finished t p \<longleftrightarrow> finished s p) \<and>
      es_async_callbacks (f_es t) = es_async_callbacks (f_es s) @ [StartTransfer p]"
    "\<not> is_ok st \<Longrightarrow> finished t p \<and> es_async_callbacks (f_es t) = es_async_callbacks (f_es s)"
proof -
  from assms obtain c where c: "f_ctxs s p = Some c"
    by (auto simp: resolver_cb_def bind_outcome_Inr_iff get_ctx_Inr)
  show thesis
  proof (cases "is_ok st")
    case False
    let ?c = "c\<lparr>c_end_resolve_time_ms := Some (fst (read_ms E s)), c_done := True,
      c_end_req_time_ms := Some (fst (read_ms E (snd (read_ms E s)))), c_error_message := st_msg st\<rparr>"
    from False assms c have "t = set_ctx p ?c (snd (read_ms E (snd (read_ms E s))))"
      by (simp add: resolver_cb_def get_ctx_def Let_def split_def)
    with False c show thesis
      by (intro that [of ?c])
        (auto simp: set_ctx_def read_ms_def read_clock_def same_transfers_def finished_def)
  next
    case True
    let ?n = "fst (read_rand E (snd (read_ms E s)))"
    let ?c = "c\<lparr>c_end_resolve_time_ms := Some (fst (read_ms E s)), c_ip := addrs ! (?n mod length addrs)\<rparr>"
    from True assms c have "addrs \<noteq> []" and run: "es_do (add_async L (StartTransfer p))
        (set_ctx p ?c (snd (read_rand E (snd (read_ms E s))))) = Inr t"
      by (auto simp: resolver_cb_def get_ctx_def Let_def split_def split: if_splits)
    from run obtain es where es: "add_async L (StartTransfer p) (f_es s) = Inr es"
      "t = (set_ctx p ?c (snd (read_rand E (snd (read_ms E s)))))\<lparr>f_es := es\<rparr>"
      by (auto simp: es_do_Inr set_ctx_def read_ms_def read_clock_def read_rand_def)
    with True c async_queue [OF es(1)] show thesis
      by (intro that [of ?c])
        (auto simp: set_ctx_def read_ms_def read_clock_def read_rand_def same_transfers_def finished_def)
  qed
qed

text \<open>\<open>add\<close> asks the resolver, which either keeps the callback or calls it at once.\<close>

lemma resolve_calls_one:
  "resolve tv name cb r = (r', calls) \<Longrightarrow> calls = [] \<or> (\<exists>addrs st. calls = [(cb, addrs, st)])"
  by (auto simp: resolve_def Let_def split: rstate.splits)

lemma add_cases:
  assumes "add L E p s = Inr t"
  obtains c c' r calls tv s1 where "f_ctxs s p = Some c" "c_done c' \<longleftrightarrow> c_done c"
    "resolve tv (u_host (c_uri c)) p (f_resolver s) = (r, calls)"
    "f_ctxs s1 = (f_ctxs s)(p \<mapsto> c')" "same_transfers s s1" "f_resolver s1 = r" "f_es s1 = f_es s"
    "calls = [] \<and> t = s1 \<or> (\<exists>addrs st. calls = [(p, addrs, st)] \<and> resolver_cb L E p addrs st s1 = Inr t)"
proof -
  obtain c where c: "f_ctxs s p = Some c" using assms by (auto simp: add_def bind_outcome_Inr_iff get_ctx_Inr)
  let ?s = "snd (read_clock E (set_ctx p (c\<lparr>c_start_req_time_ms := Some (fst (read_ms E s))\<rparr>) (snd (read_ms E s))))"
  let ?tv = "fst (read_clock E (set_ctx p (c\<lparr>c_start_req_time_ms := Some (fst (read_ms E s))\<rparr>) (snd (read_ms E s))))"
  obtain r calls where res: "resolve ?tv (u_host (c_uri c)) p (f_resolver s) = (r, calls)" by fastforce
  have rs: "f_resolver ?s = f_resolver s"
    by (simp add: read_clock_def read_ms_def set_ctx_def)
  have "fold_outcome (\<lambda>(q, addrs, st). resolver_cb L E q addrs st) calls (?s\<lparr>f_resolver := r\<rparr>) = Inr t"
    using assms c res by (simp add: add_def get_ctx_def Let_def split_def rs)
  with resolve_calls_one [OF res]
  have "calls = [] \<and> t = ?s\<lparr>f_resolver := r\<rparr> \<or>
      (\<exists>addrs st. calls = [(p, addrs, st)] \<and> resolver_cb L E p addrs st (?s\<lparr>f_resolver := r\<rparr>) = Inr t)"
    by (auto simp: bind_outcome_Inr_iff)
  then show thesis
    by (intro that [OF c _ res, of "c\<lparr>c_start_req_time_ms := Some (fst (read_ms E s))\<rparr>" "?s\<lparr>f_resolver := r\<rparr>"])
      (simp_all add: read_clock_def read_ms_def set_ctx_def same_transfers_def)
qed

section \<open>The invariant, step by step\<close>

lemma sys_inv_simps:
  assumes "sys_inv y"
  shows "resolver_inv (f_resolver (y_fetch y), y_flight y)" "finite (dom (f_ctxs (y_fetch y)))"
    "sys_pending y + mset (y_failed y) = mset_set (dom (f_ctxs (y_fetch y)))"
    "transfers_ok (y_fetch y)"
  using assms unfolding sys_inv_def by blast+

lemma sys_inv_waiting: "sys_inv y \<Longrightarrow> p \<in># waiting y \<Longrightarrow> \<not> finished (y_fetch y) p"
  and sys_inv_failed: "sys_inv y \<Longrightarrow> p \<in> set (y_failed y) \<Longrightarrow> finished (y_fetch y) p"
  unfolding sys_inv_def by blast+

text \<open>Every context is in one place.\<close>

lemma sys_inv_once:
  assumes "sys_inv y"
  shows "count (waiting y) p + count_list (f_tasks (y_fetch y)) p + count_list (y_failed y) p =
    (if p \<in> dom (f_ctxs (y_fetch y)) then 1 else 0)"
proof -
  have "count (sys_pending y + mset (y_failed y)) p = count (mset_set (dom (f_ctxs (y_fetch y)))) p"
    using sys_inv_simps(3) [OF assms] by simp
  then show ?thesis
    using sys_inv_simps(2) [OF assms] by (simp add: sys_pending_def count_mset_set' count_mset)
qed

lemma one_place: "a + b + c = (if P then 1 else 0) \<Longrightarrow> 0 < a \<Longrightarrow> b = 0 \<and> c = 0 \<and> P \<and> a = (1 :: nat)"
  by (auto split: if_splits)

lemma sys_inv_waiting_only:
  assumes "sys_inv y" and "p \<in># waiting y"
  shows "p \<notin> set (f_tasks (y_fetch y))" "p \<notin> set (y_failed y)" "p \<in> dom (f_ctxs (y_fetch y))"
    "count (waiting y) p = 1"
proof -
  have "0 < count (waiting y) p" using assms(2) by simp
  from one_place [OF sys_inv_once [OF assms(1), of p] this] show "p \<notin> set (f_tasks (y_fetch y))" "p \<notin> set (y_failed y)" "p \<in> dom (f_ctxs (y_fetch y))"
    "count (waiting y) p = 1"
    by (simp_all add: count_list_0_iff)
qed

lemma sys_inv_tasks:
  assumes "sys_inv y"
  shows "distinct (f_tasks (y_fetch y))" "set (f_tasks (y_fetch y)) \<subseteq> dom (f_ctxs (y_fetch y))"
    "set (f_tasks (y_fetch y)) \<inter> set (y_failed y) = {}"
proof -
  have le: "count_list (f_tasks (y_fetch y)) p + count_list (y_failed y) p \<le>
      (if p \<in> dom (f_ctxs (y_fetch y)) then 1 else 0)" for p
    using sys_inv_once [OF assms, of p] by linarith
  show "distinct (f_tasks (y_fetch y))"
    unfolding distinct_count_atmost_1
  proof
    fix p
    show "count (mset (f_tasks (y_fetch y))) p = (if p \<in> set (f_tasks (y_fetch y)) then 1 else 0)"
      using le [of p] count_list_0_iff [of "f_tasks (y_fetch y)" p]
      by (auto simp: count_mset split: if_splits)
  qed
  show "set (f_tasks (y_fetch y)) \<subseteq> dom (f_ctxs (y_fetch y))"
  proof
    fix p assume "p \<in> set (f_tasks (y_fetch y))"
    then have "count_list (f_tasks (y_fetch y)) p \<noteq> 0" by (simp add: count_list_0_iff)
    with le [of p] show "p \<in> dom (f_ctxs (y_fetch y))" by (auto split: if_splits)
  qed
  show "set (f_tasks (y_fetch y)) \<inter> set (y_failed y) = {}"
  proof (rule ccontr)
    assume "set (f_tasks (y_fetch y)) \<inter> set (y_failed y) \<noteq> {}"
    then obtain p where "p \<in> set (f_tasks (y_fetch y))" "p \<in> set (y_failed y)" by blast
    then have "count_list (f_tasks (y_fetch y)) p \<noteq> 0" "count_list (y_failed y) p \<noteq> 0"
      by (simp_all add: count_list_0_iff)
    with le [of p] show False by (simp split: if_splits)
  qed
qed

text \<open>Transfers stay in order when the running contexts keep their state.\<close>

lemma transfers_keep:
  assumes "transfers_ok s" and "same_transfers s t"
    and "\<And>p. p \<in> set (f_tasks s) \<Longrightarrow> finished t p \<Longrightarrow> finished s p"
  shows "transfers_ok t"
  using assms unfolding transfers_ok_def same_transfers_def by (simp; blast)

lemma phase_waiting: "sys_inv y \<Longrightarrow> p \<in># waiting y \<Longrightarrow> phase y p = Waiting"
  using sys_inv_waiting_only(1-3) [of y p] by (simp add: phase_def)

lemma phase_move:
  assumes inv: "sys_inv y" and "same_transfers (y_fetch y) (y_fetch z)"
    and "dom (f_ctxs (y_fetch z)) = dom (f_ctxs (y_fetch y))"
    and fin: "\<And>q. q \<notin> Q \<Longrightarrow> finished (y_fetch z) q \<longleftrightarrow> finished (y_fetch y) q"
    and "Q \<subseteq> set_mset (waiting y)" and new: "waiting z + mset new = waiting y"
    and "y_failed z = y_failed y @ new" and "length new \<le> 1"
  shows "phase_step (phase y) (phase z) [] new"
proof -
  have tasks: "f_tasks (y_fetch z) = f_tasks (y_fetch y)" using assms(2) by (simp add: same_transfers_def)
  have keep: "finished (y_fetch z) q \<longleftrightarrow> finished (y_fetch y) q" if "q \<in> set (f_tasks (y_fetch y))" for q
    using that fin assms(5) sys_inv_waiting_only(1) [OF inv] by blast
  have same: "phase z q = phase y q" if "q \<notin> set new" for q
    using that keep [of q] by (auto simp: phase_def tasks assms(3,7))
  show ?thesis
  proof (cases new)
    case Nil
    with same have "phase y = phase z" by (simp add: fun_eq_iff)
    with Nil show ?thesis by (simp add: phase_same)
  next
    case (Cons p ps)
    with assms(8) have n: "new = [p]" by simp
    with new have p: "p \<in># waiting y" by (metis mset_single_iff union_iff union_single_eq_member mset.simps(1,2))
    then have "phase z p = Failed"
      using sys_inv_waiting_only(3) [OF inv p] by (simp add: phase_def assms(3,7) n)
    with same n have "phase z = (phase y)(p := Failed)" by (simp add: fun_eq_iff)
    with phase_waiting [OF inv p] n show ?thesis by (simp add: a_fail)
  qed
qed

text \<open>A step that changes no more than the places of contexts that are not running.\<close>

lemma sys_inv_moveI:
  assumes inv: "sys_inv y" and "resolver_inv (f_resolver (y_fetch z), y_flight z)"
    and "same_transfers (y_fetch y) (y_fetch z)" "dom (f_ctxs (y_fetch z)) = dom (f_ctxs (y_fetch y))"
    and fin: "\<And>q. q \<notin> Q \<Longrightarrow> finished (y_fetch z) q \<longleftrightarrow> finished (y_fetch y) q"
    and "Q \<subseteq> set_mset (waiting y)"
    and "waiting z + mset new = waiting y" and "y_failed z = y_failed y @ new"
    and "\<And>q. q \<in> Q \<Longrightarrow> q \<in> set new \<longleftrightarrow> finished (y_fetch z) q" and "set new \<subseteq> Q"
    and "length new \<le> 1"
  shows "sys_inv z \<and> sys_pending z + mset new = sys_pending y \<and> phase_step (phase y) (phase z) [] new"
proof -
  have ph: "phase_step (phase y) (phase z) [] new"
    by (rule phase_move [OF inv assms(3-7,8,11)])
  have tasks: "f_tasks (y_fetch z) = f_tasks (y_fetch y)" using assms(3) by (simp add: same_transfers_def)
  have pend: "sys_pending z + mset new = sys_pending y"
    using assms(7) tasks by (simp add: sys_pending_def add_ac)
  have "q \<notin> Q" if "q \<in> set (f_tasks (y_fetch y)) \<or> q \<in> set (y_failed y)" for q
    using that assms(6) sys_inv_waiting_only(1,2) [OF inv] by blast
  then have keep: "finished (y_fetch z) q \<longleftrightarrow> finished (y_fetch y) q"
    if "q \<in> set (f_tasks (y_fetch y)) \<or> q \<in> set (y_failed y)" for q
    using that fin by blast
  have "\<not> finished (y_fetch z) q" if q: "q \<in># waiting z" for q
  proof (cases "q \<in> Q")
    case False
    moreover have "q \<in># waiting y" using q assms(7) by (metis union_iff)
    ultimately show ?thesis using fin sys_inv_waiting [OF inv] by blast
  next
    case True
    have "q \<notin> set new"
    proof
      assume "q \<in> set new"
      then have "2 \<le> count (waiting z + mset new) q"
        using q by (metis Suc_1 Suc_leI add_Suc_right add_le_mono count_greater_zero_iff
            count_union plus_1_eq_Suc set_mset_mset One_nat_def)
      then show False
        using sys_inv_waiting_only(4) [OF inv, of q] True assms(6,7) by auto
    qed
    with assms(9) True show ?thesis by blast
  qed
  moreover have "transfers_ok (y_fetch z)"
    using sys_inv_simps(4) [OF inv] assms(3) keep by (blast intro: transfers_keep)
  moreover have "sys_pending z + mset (y_failed z) = mset_set (dom (f_ctxs (y_fetch z)))"
  proof -
    have "sys_pending z + mset (y_failed z) = (sys_pending z + mset new) + mset (y_failed y)"
      using assms(8) by (simp add: add_ac)
    then show ?thesis using pend sys_inv_simps(3) [OF inv] assms(4) by simp
  qed
  moreover have "\<forall>q \<in> set (y_failed z). finished (y_fetch z) q"
    using assms(8-10) keep sys_inv_failed [OF inv] by auto
  ultimately show ?thesis
    using assms(2,4) sys_inv_simps(2) [OF inv] pend ph unfolding sys_inv_def by auto
qed

lemma finished_upd: "f_ctxs t = (f_ctxs s)(p \<mapsto> c) \<Longrightarrow> q \<noteq> p \<Longrightarrow> finished t q \<longleftrightarrow> finished s q"
  by (simp add: finished_def)

lemma from_json_done: "from_json J t CrawlContext = Inr c \<Longrightarrow> \<not> c_done c"
  by (auto simp: from_json_def bind_outcome_Inr_iff CrawlContext_def)

lemma make_step:
  assumes inv: "sys_inv y" and E: "good_env E" and c: "from_json J t CrawlContext = Inr c"
    and p: "p = en_alloc E (f_ctxs (y_fetch y))"
    and z: "z = y\<lparr>y_fetch := set_ctx p (task_context p c) (y_fetch y), y_new := y_new y @ [p]\<rparr>"
  shows "sys_inv z \<and> sys_pending z = sys_pending y + {#p#} \<and> phase_step (phase y) (phase z) [p] []"
proof -
  let ?D = "dom (f_ctxs (y_fetch y))"
  have fin: "finite ?D" using sys_inv_simps(2) [OF inv] .
  have fresh: "p \<notin> ?D" using E fin p by (auto simp: good_env_def good_alloc_def)
  have ctxs: "f_ctxs (y_fetch z) = (f_ctxs (y_fetch y))(p \<mapsto> task_context p c)"
    by (simp add: z set_ctx_def)
  have same: "same_transfers (y_fetch y) (y_fetch z)" by (simp add: z set_ctx_def same_transfers_def)
  have pend: "sys_pending z = sys_pending y + {#p#}" and wait: "waiting z = waiting y + {#p#}"
    by (simp_all add: sys_pending_def waiting_def z set_ctx_def)
  have "\<not> finished (y_fetch z) p"
    using from_json_done [OF c] by (simp add: finished_def ctxs task_context_def)
  moreover have keep: "finished (y_fetch z) q \<longleftrightarrow> finished (y_fetch y) q" if "q \<in> ?D" for q
    using finished_upd [OF ctxs, of q] that fresh by blast
  have "\<not> finished (y_fetch z) q" if "q \<in># waiting y" for q
    using keep sys_inv_waiting_only(3) [OF inv that] sys_inv_waiting [OF inv that] by blast
  ultimately have "\<forall>q \<in># waiting z. \<not> finished (y_fetch z) q" by (simp add: wait)
  moreover have "\<forall>q \<in> set (y_failed z). finished (y_fetch z) q"
  proof
    fix q assume "q \<in> set (y_failed z)"
    then have "finished (y_fetch y) q" using sys_inv_failed [OF inv] by (simp add: z)
    moreover from this have "q \<in> ?D" by (auto simp: finished_def)
    ultimately show "finished (y_fetch z) q" using keep by blast
  qed
  moreover have "transfers_ok (y_fetch z)"
    using sys_inv_simps(4) [OF inv] same keep sys_inv_tasks(2) [OF inv] by (blast intro: transfers_keep)
  moreover have "sys_pending z + mset (y_failed z) = mset_set (dom (f_ctxs (y_fetch z)))"
  proof -
    have "sys_pending z + mset (y_failed z) = (sys_pending y + mset (y_failed y)) + {#p#}"
      by (simp add: pend) (simp add: z)
    also have "\<dots> = mset_set (insert p ?D)"
      using sys_inv_simps(3) [OF inv] fin fresh by simp
    finally show ?thesis by (simp add: ctxs)
  qed
  moreover have "resolver_inv (f_resolver (y_fetch z), y_flight z)" "finite (dom (f_ctxs (y_fetch z)))"
    using sys_inv_simps(1,2) [OF inv] by (simp_all add: z set_ctx_def)
  moreover have "phase z = (phase y)(p := Waiting)"
  proof
    fix q
    have "p \<notin> set (y_failed y)" using fresh sys_inv_failed [OF inv, of p] by (auto simp: finished_def)
    with fresh sys_inv_tasks(2) [OF inv] keep [of q] same show "phase z q = ((phase y)(p := Waiting)) q"
      by (auto simp: phase_def ctxs same_transfers_def) (auto simp: z)
  qed
  moreover have "phase y p = Absent" using fresh by (simp add: phase_def)
  ultimately show ?thesis unfolding sys_inv_def using pend a_make [of "phase y" p] by auto
qed

text \<open>What a call of the resolver does to the place of its context.\<close>

lemma resolver_cb_place:
  assumes "resolver_cb L E p addrs st s = Inr t" and "\<not> finished s p"
  shows "same_transfers s t \<and> f_resolver t = f_resolver s \<and> dom (f_ctxs t) = dom (f_ctxs s) \<and>
    (\<forall>q. q \<noteq> p \<longrightarrow> (finished t q \<longleftrightarrow> finished s q)) \<and>
    mset (starts (es_async_callbacks (f_es t))) + mset (given_up p t) =
      mset (starts (es_async_callbacks (f_es s))) + {#p#}"
  using assms(1)
proof (rule resolver_cb_effect)
  fix c
  assume c: "p \<in> dom (f_ctxs s)" "f_ctxs t = (f_ctxs s)(p \<mapsto> c)" "same_transfers s t"
    "f_resolver t = f_resolver s"
    "is_ok st \<Longrightarrow> (finished t p \<longleftrightarrow> finished s p) \<and>
      es_async_callbacks (f_es t) = es_async_callbacks (f_es s) @ [StartTransfer p]"
    "\<not> is_ok st \<Longrightarrow> finished t p \<and> es_async_callbacks (f_es t) = es_async_callbacks (f_es s)"
  have "mset (starts (es_async_callbacks (f_es t))) + mset (given_up p t) =
      mset (starts (es_async_callbacks (f_es s))) + {#p#}"
    using c(5,6) assms(2) by (cases "is_ok st") (simp_all add: given_up_def)
  with c show ?thesis using finished_upd [OF c(2)] by auto
qed

lemma add_step:
  assumes inv: "sys_inv y" and p: "p \<in> set (y_new y)" and add: "add L E p (y_fetch y) = Inr t"
    and z: "z = y\<lparr>y_fetch := t, y_new := remove1 p (y_new y), y_failed := y_failed y @ given_up p t\<rparr>"
  shows "sys_inv z \<and> sys_pending z + mset (given_up p t) = sys_pending y \<and>
    phase_step (phase y) (phase z) [] (given_up p t)"
  using add
proof (rule add_cases)
  fix c c' r calls tv s1
  let ?s = "y_fetch y"
  assume a0: "f_ctxs ?s p = Some c" "c_done c' \<longleftrightarrow> c_done c"
    and a2: "resolve tv (u_host (c_uri c)) p (f_resolver ?s) = (r, calls)"
    "f_ctxs s1 = (f_ctxs ?s)(p \<mapsto> c')"
    "same_transfers ?s s1" "f_resolver s1 = r" "f_es s1 = f_es ?s"
    "calls = [] \<and> t = s1 \<or> (\<exists>addrs st. calls = [(p, addrs, st)] \<and> resolver_cb L E p addrs st s1 = Inr t)"
  note a = a0(1) a2
  have pw: "p \<in># waiting y" using p by (simp add: waiting_def)
  then have nf: "\<not> finished ?s p" by (rule sys_inv_waiting [OF inv])
  have nf1: "finished s1 q \<longleftrightarrow> finished ?s q" for q
  proof (cases "q = p")
    case True
    then show ?thesis using a0 by (simp add: finished_def a(3))
  next
    case False
    then show ?thesis by (rule finished_upd [OF a(3)])
  qed
  have dom1: "dom (f_ctxs s1) = dom (f_ctxs ?s)" using a(1) by (auto simp: a(3))
  have res: "resolver_inv (r, y_flight y)"
    "resolver_pending (r, y_flight y) + mset (map fst calls) = resolver_pending (f_resolver ?s, y_flight y) + {#p#}"
    using resolve_step [OF sys_inv_simps(1) [OF inv] a(2)] by auto
  have split: "mset (y_new y) = mset (remove1 p (y_new y)) + {#p#}"
    using p by (simp add: insert_DiffM2)
  have "same_transfers ?s t \<and> f_resolver t = r \<and> dom (f_ctxs t) = dom (f_ctxs ?s) \<and>
    (\<forall>q. q \<noteq> p \<longrightarrow> (finished t q \<longleftrightarrow> finished ?s q)) \<and>
    resolver_pending (r, y_flight y) + mset (starts (es_async_callbacks (f_es t))) + mset (given_up p t) =
      resolver_pending (f_resolver ?s, y_flight y) + mset (starts (es_async_callbacks (f_es ?s))) + {#p#}"
    using a(7)
  proof
    assume "calls = [] \<and> t = s1"
    moreover from this have "given_up p t = []" using nf nf1 by (simp add: given_up_def)
    ultimately show ?thesis using a(4-6) dom1 nf1 res(2) by (simp add: add_ac)
  next
    assume "\<exists>addrs st. calls = [(p, addrs, st)] \<and> resolver_cb L E p addrs st s1 = Inr t"
    then obtain addrs st where call: "calls = [(p, addrs, st)]" "resolver_cb L E p addrs st s1 = Inr t" by blast
    from resolver_cb_place [OF call(2)] nf nf1 have r: "same_transfers s1 t" "f_resolver t = f_resolver s1"
      "dom (f_ctxs t) = dom (f_ctxs s1)" "\<forall>q. q \<noteq> p \<longrightarrow> (finished t q \<longleftrightarrow> finished s1 q)"
      "mset (starts (es_async_callbacks (f_es t))) + mset (given_up p t) =
        mset (starts (es_async_callbacks (f_es s1))) + {#p#}" by auto
    have "resolver_pending (r, y_flight y) = resolver_pending (f_resolver ?s, y_flight y)"
      using res(2) call(1) by simp
    then show ?thesis using r a(4-6) dom1 nf1 by (simp add: same_transfers_def add_ac)
  qed
  then have t: "same_transfers ?s t" "f_resolver t = r" "dom (f_ctxs t) = dom (f_ctxs ?s)"
    "\<And>q. q \<noteq> p \<Longrightarrow> finished t q \<longleftrightarrow> finished ?s q"
    "resolver_pending (r, y_flight y) + mset (starts (es_async_callbacks (f_es t))) + mset (given_up p t) =
      resolver_pending (f_resolver ?s, y_flight y) + mset (starts (es_async_callbacks (f_es ?s))) + {#p#}"
    by blast+
  have wait: "waiting z + mset (given_up p t) = waiting y"
  proof -
    have "waiting z + mset (given_up p t) = (resolver_pending (r, y_flight y) +
        mset (starts (es_async_callbacks (f_es t))) + mset (given_up p t)) + mset (remove1 p (y_new y)) +
        mset (map fst (y_dns y)) + mset (starts (async_calls (y_batch y)))"
      by (simp add: waiting_def z t(2) add_ac del: mset_remove1)
    also have "\<dots> = waiting y"
      unfolding t(5) waiting_def split by (simp add: add_ac del: mset_remove1)
    finally show ?thesis .
  qed
  show ?thesis
    by (rule sys_inv_moveI [OF inv, where Q = "{p}"])
      (use res(1) t pw wait in \<open>auto simp: z\<close>)
qed

text \<open>Steps that move contexts between the waiting places only.\<close>

lemma sys_inv_shiftI:
  assumes "sys_inv y" and "resolver_inv (f_resolver (y_fetch z), y_flight z)"
    and "same_transfers (y_fetch y) (y_fetch z)" "f_ctxs (y_fetch z) = f_ctxs (y_fetch y)"
    and "waiting z = waiting y" and "y_failed z = y_failed y"
  shows "sys_inv z \<and> sys_pending z = sys_pending y \<and> phase_step (phase y) (phase z) [] []"
  using sys_inv_moveI [OF assms(1-3), where Q = "{}" and new = "[]"] assms(4-6)
  by (simp add: finished_def)

lemma notify_step:
  assumes inv: "sys_inv y" and ev: "Resolver.ev_cb accepts (f_resolver (y_fetch y)) = Inr (r', qs)"
    and z: "z = y\<lparr>y_fetch := (y_fetch y)\<lparr>f_resolver := r'\<rparr>,
      y_flight := y_flight y @ r_tasks (f_resolver (y_fetch y))\<rparr>"
  shows "sys_inv z \<and> sys_pending z = sys_pending y \<and> phase_step (phase y) (phase z) [] []"
  using ev_cb_step [OF sys_inv_simps(1) [OF inv] ev]
  by (intro sys_inv_shiftI [OF inv]) (auto simp: z same_transfers_def waiting_def)

lemma reply_step:
  assumes inv: "sys_inv y" and "y_dns y = []" "name \<in> set (y_flight y)"
    and res: "res_cb es tv a name (f_resolver (y_fetch y)) = Inr (r', calls)"
    and z: "z = y\<lparr>y_fetch := (y_fetch y)\<lparr>f_resolver := r'\<rparr>, y_flight := remove1 name (y_flight y),
      y_dns := calls\<rparr>"
  shows "sys_inv z \<and> sys_pending z = sys_pending y \<and> phase_step (phase y) (phase z) [] []"
proof -
  note r = res_cb_step [OF sys_inv_simps(1) [OF inv] assms(3) res]
  have "waiting z = waiting y"
    unfolding waiting_def z using conjunct2 [OF r, symmetric] assms(2) by (simp add: add_ac)
  with r show ?thesis by (intro sys_inv_shiftI [OF inv]) (auto simp: z same_transfers_def)
qed

lemma dns_step:
  assumes inv: "sys_inv y" and dns: "y_dns y = (p, addrs, st) # rest"
    and cb: "resolver_cb L E p addrs st (y_fetch y) = Inr t"
    and z: "z = y\<lparr>y_fetch := t, y_dns := rest, y_failed := y_failed y @ given_up p t\<rparr>"
  shows "sys_inv z \<and> sys_pending z + mset (given_up p t) = sys_pending y \<and>
    phase_step (phase y) (phase z) [] (given_up p t)"
proof -
  have pw: "p \<in># waiting y" using dns by (simp add: waiting_def)
  from resolver_cb_place [OF cb sys_inv_waiting [OF inv pw]] have t:
    "same_transfers (y_fetch y) t" "f_resolver t = f_resolver (y_fetch y)"
    "dom (f_ctxs t) = dom (f_ctxs (y_fetch y))"
    "\<And>q. q \<noteq> p \<Longrightarrow> finished t q \<longleftrightarrow> finished (y_fetch y) q"
    "mset (starts (es_async_callbacks (f_es t))) + mset (given_up p t) =
      mset (starts (es_async_callbacks (f_es (y_fetch y)))) + {#p#}"
    by blast+
  have "waiting z + mset (given_up p t) = (mset (starts (es_async_callbacks (f_es t))) + mset (given_up p t)) +
      mset (y_new y) + resolver_pending (f_resolver (y_fetch y), y_flight y) + mset (map fst rest) +
      mset (starts (async_calls (y_batch y)))"
    by (simp add: waiting_def z t(2) add_ac)
  also have "\<dots> = waiting y" unfolding t(5) waiting_def dns by (simp add: add_ac)
  finally have "waiting z + mset (given_up p t) = waiting y" .
  with t pw sys_inv_simps(1) [OF inv] show ?thesis
    by (intro sys_inv_moveI [OF inv, where Q = "{p}"]) (auto simp: z)
qed

lemma result_step:
  assumes inv: "sys_inv y" and "get_done_tasks_req L q (y_fetch y) = Inr t"
  shows "sys_inv (y\<lparr>y_fetch := t\<rparr>) \<and> sys_pending (y\<lparr>y_fetch := t\<rparr>) = sys_pending y \<and>
    phase_step (phase y) (phase (y\<lparr>y_fetch := t\<rparr>)) [] []"
proof -
  from assms(2) obtain es where es: "add_async L (CollectDone q) (f_es (y_fetch y)) = Inr es"
    "t = (y_fetch y)\<lparr>f_es := es\<rparr>" by (auto simp: get_done_tasks_req_def es_do_Inr)
  then have "starts (es_async_callbacks es) = starts (es_async_callbacks (f_es (y_fetch y)))"
    using async_queue [OF es(1)] by simp
  with es(2) sys_inv_simps(1) [OF inv] show ?thesis
    by (intro sys_inv_shiftI [OF inv]) (simp_all add: same_transfers_def waiting_def)
qed

lemma ev_cb_queue:
  "EventServer.ev_cb fd fl h es = Inr (es', calls) \<Longrightarrow>
   async_calls calls @ es_async_callbacks es' = es_async_callbacks es"
  by (auto simp: EventServer.ev_cb_def split: option.splits handle_type.splits timer_cb.splits)

lemma fire_step:
  assumes inv: "sys_inv y" and "y_batch y = []"
    and ev: "EventServer.ev_cb fd fl h ((f_es (y_fetch y))\<lparr>es_eb := eb\<rparr>) = Inr (es', calls)"
    and z: "z = y\<lparr>y_fetch := (y_fetch y)\<lparr>f_es := es'\<rparr>, y_batch := calls\<rparr>"
  shows "sys_inv z \<and> sys_pending z = sys_pending y \<and> phase_step (phase y) (phase z) [] []"
proof -
  have "es_async_callbacks (f_es (y_fetch y)) = async_calls calls @ es_async_callbacks es'"
    using ev_cb_queue [OF ev] by simp
  then have "waiting z = waiting y" using assms(2) by (simp add: waiting_def z add_ac)
  with sys_inv_simps(1) [OF inv] show ?thesis
    by (intro sys_inv_shiftI [OF inv]) (simp_all add: z same_transfers_def)
qed

section \<open>Closures\<close>

text \<open>A change of the fetcher that keeps every context in its place and state.\<close>

definition same_places :: "('j, 'eb) fetcher \<Rightarrow> ('j, 'eb) fetcher \<Rightarrow> bool" where
  "same_places s t \<longleftrightarrow> f_tasks t = f_tasks s \<and> f_resolver t = f_resolver s \<and>
     dom (f_ctxs t) = dom (f_ctxs s) \<and>
     es_async_callbacks (f_es t) = es_async_callbacks (f_es s) \<and>
     (\<forall>q. q \<notin> set (f_tasks s) \<longrightarrow> (finished t q \<longleftrightarrow> finished s q)) \<and>
     (\<forall>q. finished s q \<longrightarrow> finished t q)"

lemma same_places_refl: "same_places s s"
  by (simp add: same_places_def)

lemma same_places_trans: "same_places s t \<Longrightarrow> same_places t u \<Longrightarrow> same_places s u"
  by (simp add: same_places_def)

lemma same_tasks_places: "same_tasks s t \<Longrightarrow> same_places s t"
  by (simp add: same_tasks_def same_places_def finished_def)

lemma same_tasks_transfers: "same_tasks s t \<Longrightarrow> transfers_ok s \<Longrightarrow> transfers_ok t"
  by (simp add: same_tasks_def transfers_ok_def finished_def)

text \<open>A closure that keeps the places keeps the invariant.\<close>

lemma sys_inv_runI:
  assumes inv: "sys_inv y" and pl: "same_places (y_fetch y) t" and "transfers_ok t"
    and batch: "y_batch y = c # rest" "async_calls [c] = []"
  shows "sys_inv (y\<lparr>y_fetch := t, y_batch := rest, y_reported := y_reported y @ []\<rparr>) \<and>
    sys_pending (y\<lparr>y_fetch := t, y_batch := rest, y_reported := y_reported y @ []\<rparr>) = sys_pending y \<and>
    phase_step (phase y) (phase (y\<lparr>y_fetch := t, y_batch := rest, y_reported := y_reported y @ []\<rparr>)) [] []"
proof -
  let ?z = "y\<lparr>y_fetch := t, y_batch := rest, y_reported := y_reported y @ []\<rparr>"
  have "async_calls (c # rest) = async_calls rest"
    using batch(2) by (simp add: async_calls_def)
  then have wait: "waiting ?z = waiting y"
    using pl by (simp add: waiting_def same_places_def batch(1))
  then have pend: "sys_pending ?z = sys_pending y"
    using pl by (simp add: sys_pending_def same_places_def)
  have keep: "finished t q \<longleftrightarrow> finished (y_fetch y) q" if "q \<notin> set (f_tasks (y_fetch y))" for q
    using pl that by (simp add: same_places_def)
  have "\<forall>q \<in># waiting ?z. \<not> finished t q"
    using wait keep sys_inv_waiting_only(1) [OF inv] sys_inv_waiting [OF inv] by auto
  moreover have "\<forall>q \<in> set (y_failed y). finished t q"
    using keep sys_inv_failed [OF inv] sys_inv_tasks(3) [OF inv] by blast
  moreover have "phase_step (phase y) (phase ?z) [] []"
    by (rule a_finish) (use pl in \<open>auto simp: phase_def same_places_def\<close>)
  ultimately show ?thesis
    using assms(3) pend pl sys_inv_simps [OF inv] unfolding sys_inv_def same_places_def by simp
qed

lemma write_cb_done:
  "c_done (fst (write_header_cb b x n c)) = c_done c" "c_done (fst (write_body_cb b x n c)) = c_done c"
  by (simp_all add: write_header_cb_def write_body_cb_def)

lemma set_ctx_places:
  assumes "f_ctxs s p = Some c" and "c_done c' = c_done c"
  shows "same_places s (set_ctx p c' s)" "finished (set_ctx p c' s) q \<longleftrightarrow> finished s q"
    "same_transfers s (set_ctx p c' s)"
  using assms by (auto simp: same_places_def finished_def set_ctx_def same_transfers_def)

lemma perform_places:
  assumes "perform L act s = Inr t"
  shows "same_places s t \<and> (transfers_ok s \<longrightarrow> transfers_ok t) \<and> f_multi t = f_multi s"
proof -
  have data: "same_places s (set_ctx p c' s) \<and> (transfers_ok s \<longrightarrow> transfers_ok (set_ctx p c' s)) \<and>
      f_multi (set_ctx p c' s) = f_multi s"
    if "raw_ctx p s = Inr c" "c_done c' = c_done c" for p c c'
    using set_ctx_places [of s p c c'] that transfers_keep [of s "set_ctx p c' s"]
    by (auto simp: raw_ctx_Inr same_transfers_def)
  show ?thesis
  proof (cases act)
    case (Header h b)
    with assms obtain e where e: "f_easys s h = Some e" by (auto split: option.splits)
    with assms Header obtain c where "raw_ctx (e_headerdata e) s = Inr c"
      "t = set_ctx (e_headerdata e) (fst (write_header_cb b 1 (of_nat (length b)) c)) s"
      by (auto simp: bind_outcome_Inr_iff)
    with data [OF this(1) write_cb_done(1)] show ?thesis by simp
  next
    case (Body h b)
    with assms obtain e where e: "f_easys s h = Some e" by (auto split: option.splits)
    with assms Body obtain c where "raw_ctx (e_writedata e) s = Inr c"
      "t = set_ctx (e_writedata e) (fst (write_body_cb b 1 (of_nat (length b)) c)) s"
      by (auto simp: bind_outcome_Inr_iff)
    with data [OF this(1) write_cb_done(2)] show ?thesis by simp
  next
    case (Socket h sock w)
    with assms have "same_tasks s t" by (auto intro: socket_cb_same_tasks)
    then show ?thesis using same_tasks_places same_tasks_transfers by (auto simp: same_tasks_def)
  next
    case (Timer ms)
    with assms have "same_tasks s t" by (auto intro: timer_cb_same_tasks)
    then show ?thesis using same_tasks_places same_tasks_transfers by (auto simp: same_tasks_def)
  qed
qed

lemma performs_places:
  "fold_outcome (perform L) acts s = Inr t \<Longrightarrow>
   same_places s t \<and> (transfers_ok s \<longrightarrow> transfers_ok t) \<and> f_multi t = f_multi s"
proof (induction acts arbitrary: s)
  case Nil
  then show ?case by (simp add: same_places_refl)
next
  case (Cons act acts)
  then obtain u where u: "perform L act s = Inr u" "fold_outcome (perform L) acts u = Inr t"
    by (auto simp: bind_outcome_Inr_iff)
  from perform_places [OF u(1)] Cons.IH [OF u(2)] show ?case by (auto intro: same_places_trans)
qed

text \<open>A message ends one transfer; the others point to other contexts.\<close>

lemma handle_msg_places:
  assumes run: "handle_msg L E acts m s = Inr t" and acts: "list_all event_action acts"
    and ok: "transfers_ok s" and h: "m_easy m \<in> set (f_multi s)"
  shows "same_places s t \<and> transfers_ok t \<and> set (f_multi s) - {m_easy m} \<subseteq> set (f_multi t)"
proof -
  from ok h obtain e where e: "f_easys s (m_easy m) = Some e" "e_private e \<in> set (f_tasks s)"
    unfolding transfers_ok_def by blast
  then obtain c0 where c0: "f_ctxs s (e_private e) = Some c0"
    using run by (auto simp: handle_msg_def bind_outcome_Inr_iff raw_ctx_Inr)
  then have raw: "raw_ctx (e_private e) s = Inr c0" using e(2) by (simp add: raw_ctx_Inr)
  show ?thesis
  proof (cases "m_done m")
    case False
    with run e raw have t: "t = set_ctx (e_private e) (c0\<lparr>c_resp_code := m_code m\<rparr>) s"
      by (simp add: handle_msg_def Let_def)
    have "c_done (c0\<lparr>c_resp_code := m_code m\<rparr>) = c_done c0" by simp
    note pl = set_ctx_places [OF c0 this]
    with t ok transfers_keep [OF ok pl(3)] show ?thesis by (auto simp: same_transfers_def)
  next
    case True
    obtain t1 s1 where s1: "read_ms E s = (t1, s1)" by (cases "read_ms E s")
    then have same: "f_multi s1 = f_multi s" "f_easys s1 = f_easys s" "f_ctxs s1 = f_ctxs s"
      "f_tasks s1 = f_tasks s" "f_resolver s1 = f_resolver s" "f_es s1 = f_es s"
      by (auto simp: read_ms_def read_clock_def)
    define c1 where "c1 = (if m_result m \<noteq> 0
      then c0\<lparr>c_resp_code := m_code m, c_error_message := en_curl_strerror E (m_result m)\<rparr>
      else c0\<lparr>c_resp_code := m_code m\<rparr>)\<lparr>c_done := True, c_end_req_time_ms := Some t1\<rparr>"
    let ?u = "(set_ctx (e_private e) c1 s1)\<lparr>f_multi := List.removeAll (m_easy m) (f_multi s)\<rparr>"
    define t0 where t: "t0 = set_ctx (e_private e) c1 (s1\<lparr>f_multi := List.removeAll (m_easy m) (f_multi s),
        f_easys := (f_easys s)(m_easy m := None)\<rparr>)"
    obtain s3 where s3: "fold_outcome (perform L) acts ?u = Inr s3" "t = s3\<lparr>f_easys := (f_easys s3)(m_easy m := None)\<rparr>"
      using run e raw True by (auto simp: handle_msg_def Let_def s1 c1_def same set_ctx_def bind_outcome_Inr_iff)
    have st: "same_tasks t0 t"
      using performs_events_same [OF acts s3(1)] by (simp add: same_tasks_def t s3(2) set_ctx_def same)
    have fin: "finished t0 q \<longleftrightarrow> finished s q" if "q \<noteq> e_private e" for q
      using that by (simp add: t finished_def set_ctx_def same)
    have "finished t0 q \<longleftrightarrow> finished s q" if "q \<notin> set (f_tasks s)" for q
      using fin [of q] e(2) that by blast
    moreover have "dom (f_ctxs t0) = dom (f_ctxs s)" using c0 by (auto simp: t set_ctx_def same)
    moreover have "finished t0 q" if "finished s q" for q
      using fin [of q] that by (cases "q = e_private e") (simp_all add: t finished_def set_ctx_def c1_def)
    ultimately have pl: "same_places s t0"
      by (simp add: same_places_def) (simp add: t set_ctx_def same)
    have "transfers_ok t0"
      unfolding transfers_ok_def
    proof (intro conjI ballI)
      show "distinct (f_multi t0)" using ok by (simp add: t set_ctx_def transfers_ok_def distinct_removeAll)
      show "finite (dom (f_easys t0))" using ok by (simp add: t set_ctx_def transfers_ok_def)
      show "inj_on (\<lambda>h. map_option e_private (f_easys t0 h)) (set (f_multi t0))"
        using ok unfolding transfers_ok_def t set_ctx_def by (auto simp: inj_on_def)
      fix h' assume h': "h' \<in> set (f_multi t0)"
      then have ne: "h' \<noteq> m_easy m" "h' \<in> set (f_multi s)" by (auto simp: t set_ctx_def)
      with ok obtain e' where e': "f_easys s h' = Some e'" "e_headerdata e' = e_private e'"
        "e_writedata e' = e_private e'" "e_private e' \<in> set (f_tasks s)" "\<not> finished s (e_private e')"
        unfolding transfers_ok_def by blast
      have "e_private e' \<noteq> e_private e"
      proof
        assume "e_private e' = e_private e"
        with e'(1) e(1) have "map_option e_private (f_easys s h') = map_option e_private (f_easys s (m_easy m))"
          by simp
        with ok h ne show False unfolding transfers_ok_def inj_on_def by blast
      qed
      with e' ne fin show "\<exists>e. f_easys t0 h' = Some e \<and> e_headerdata e = e_private e \<and>
          e_writedata e = e_private e \<and> e_private e \<in> set (f_tasks t0) \<and> \<not> finished t0 (e_private e)"
        by (simp add: t set_ctx_def same)
    qed
    with pl have "same_places s t0 \<and> transfers_ok t0 \<and> set (f_multi s) - {m_easy m} \<subseteq> set (f_multi t0)"
      by (auto simp: t set_ctx_def)
    with same_tasks_places [OF st] same_tasks_transfers [OF st] st show ?thesis
      by (auto simp: same_tasks_def intro: same_places_trans)
  qed
qed

lemma check_multi_info_places:
  "check_multi_info L E react msgs s = Inr t \<Longrightarrow> \<forall>h. list_all event_action (rx_remove_handle react h) \<Longrightarrow> transfers_ok s \<Longrightarrow> distinct (map m_easy msgs) \<Longrightarrow>
   m_easy ` set msgs \<subseteq> set (f_multi s) \<Longrightarrow> same_places s t \<and> transfers_ok t"
proof (induction msgs arbitrary: s)
  case Nil
  then show ?case by (simp add: check_multi_info_def same_places_refl)
next
  case (Cons m msgs)
  then obtain u where u: "handle_msg L E (rx_remove_handle react (m_easy m)) m s = Inr u"
    "check_multi_info L E react msgs u = Inr t"
    by (auto simp: check_multi_info_def bind_outcome_Inr_iff)
  have "m_easy m \<in> set (f_multi s)" using Cons.prems(5) by simp
  note hm = handle_msg_places [OF u(1) spec [OF Cons.prems(2)] Cons.prems(3) this]
  have "m_easy m \<notin> m_easy ` set msgs" using Cons.prems(4) by simp
  moreover have "m_easy ` set msgs \<subseteq> set (f_multi s)" using Cons.prems(5) by simp
  ultimately have "m_easy ` set msgs \<subseteq> set (f_multi s) - {m_easy m}" by (simp add: subset_Diff_insert)
  with hm have "m_easy ` set msgs \<subseteq> set (f_multi u)" by blast
  moreover have "distinct (map m_easy msgs)" using Cons.prems(4) by simp
  ultimately have "same_places u t \<and> transfers_ok t" using Cons.IH [OF u(2) Cons.prems(2)] hm by blast
  with hm show ?case using same_places_trans by blast
qed

lemma reaction_places:
  assumes "legal_reaction s react" and "rx_socket_action react sock w = (acts, msgs, n)" and "transfers_ok s"
    and "fold_outcome (perform L) acts s = Inr u" "check_multi_info L E react msgs u = Inr t"
  shows "same_places s t \<and> transfers_ok t"
proof -
  have legal: "legal_socket_action s (acts, msgs, n)"
    "\<forall>h. list_all event_action (rx_remove_handle react h)"
    using assms(1,2) unfolding legal_reaction_def by metis+
  note pf = performs_places [OF assms(4)]
  have "m_easy ` set msgs \<subseteq> set (f_multi u)"
    using legal(1) pf by (auto simp: legal_socket_action_def list_all_iff)
  moreover have "distinct (map m_easy msgs)" using legal(1) by (simp add: legal_socket_action_def)
  ultimately have "same_places u t \<and> transfers_ok t"
    using check_multi_info_places [OF assms(5) legal(2)] pf assms(3) by blast
  with pf show ?thesis using same_places_trans by blast
qed

lemma socket_event_places:
  assumes "socket_event L E react sock events s = Inr t" and "legal_reaction s react"
    and "transfers_ok s"
  shows "same_places s t \<and> transfers_ok t"
proof -
  obtain acts msgs n where r: "rx_socket_action react sock (socket_what events) = (acts, msgs, n)"
    by (cases "rx_socket_action react sock (socket_what events)")
  with assms(1) obtain u v where uv: "fold_outcome (perform L) acts s = Inr u" "check_multi_info L E react msgs u = Inr v"
    "t = v \<or> (\<exists>h. es_do (stop L h) v = Inr t)"
    by (auto simp: socket_event_def bind_outcome_Inr_iff split: option.splits if_splits)
  from reaction_places [OF assms(2) r assms(3) uv(1,2)] have v: "same_places s v" "transfers_ok v" by auto
  from uv(3) show ?thesis
  proof
    assume "\<exists>h. es_do (stop L h) v = Inr t"
    then obtain h where "es_do (stop L h) v = Inr t" by blast
    then have "same_tasks v t" by (rule es_do_same_tasks) (rule queue_same(2))
    with v show ?thesis using same_tasks_places same_tasks_transfers same_places_trans by blast
  qed (use v in simp)
qed

lemma timer_event_places:
  assumes "timer_event L E react s = Inr t" and "legal_reaction s react"
    and "transfers_ok s"
  shows "same_places s t \<and> transfers_ok t"
proof -
  obtain acts msgs n where r: "rx_socket_action react CURL_SOCKET_TIMEOUT 0 = (acts, msgs, n)"
    by (cases "rx_socket_action react CURL_SOCKET_TIMEOUT 0")
  with assms(1) obtain u where "fold_outcome (perform L) acts s = Inr u" "check_multi_info L E react msgs u = Inr t"
    by (auto simp: timer_event_def bind_outcome_Inr_iff)
  with reaction_places [OF assms(2) r assms(3)] show ?thesis by blast
qed

lemma async_calls_Cons: "async_calls (c # cs) = async_calls [c] @ async_calls cs"
  by (simp add: async_calls_def)

lemma async_calls_one [simp]: "async_calls [AsyncCall cb] = [cb]"
  by (simp add: async_calls_def)

lemma start_transfer_silent:
  assumes "start_transfer L E acts p s = Inr t" and "list_all event_action acts"
  shows "\<exists>t0. start_transfer L E [] p s = Inr t0 \<and> same_tasks t0 t"
proof -
  obtain c where c: "f_ctxs s p = Some c" using assms(1) by (auto simp: start_transfer_def bind_outcome_Inr_iff get_ctx_Inr)
  from assms(1) c show ?thesis
    by (auto simp: start_transfer_def get_ctx_def Let_def bind_outcome_Inr_iff set_ctx_def same_tasks_def
        split: option.splits if_splits dest!: performs_events_same [OF assms(2)])
qed

lemma start_transfer_total:
  "f_ctxs s p = Some c \<Longrightarrow> \<exists>t. start_transfer L E [] p s = Inr t \<and> f_promises t = f_promises s"
  by (cases "en_easy_init E (f_easys s)")
    (simp_all add: start_transfer_def get_ctx_def Let_def set_ctx_def)

lemma start_transfer_effect0:
  assumes "start_transfer L E [] p s = Inr t" and E: "good_env E" and ok: "transfers_ok s"
    and "p \<notin> set (f_tasks s)" "\<not> finished s p"
  shows "f_tasks t = f_tasks s @ [p] \<and> f_resolver t = f_resolver s \<and> f_es t = f_es s \<and>
    dom (f_ctxs t) = dom (f_ctxs s) \<and> (\<forall>q. finished t q \<longleftrightarrow> finished s q) \<and> transfers_ok t"
proof -
  obtain c where c: "f_ctxs s p = Some c" using assms(1) by (auto simp: start_transfer_def bind_outcome_Inr_iff get_ctx_Inr)
  let ?fc = "context_lists c"
  let ?s1 = "case en_easy_init E (f_easys s) of None \<Rightarrow> s
    | Some h \<Rightarrow> s\<lparr>f_easys := (f_easys s)(h \<mapsto> easy_options p c ?fc),
        f_multi := (if en_add_handle E (f_tick s) then f_multi s @ [h] else f_multi s), f_tick := Suc (f_tick s)\<rparr>"
  have t: "t = set_ctx p (c\<lparr>c_sub_ctx := Some ?fc\<rparr>) (?s1\<lparr>f_tasks := f_tasks ?s1 @ [p]\<rparr>)"
    using assms(1) c by (auto simp: start_transfer_def get_ctx_def Let_def set_ctx_def split: option.splits)
  have s1: "f_tasks ?s1 = f_tasks s" "f_resolver ?s1 = f_resolver s" "f_es ?s1 = f_es s" "f_ctxs ?s1 = f_ctxs s"
    by (simp_all split: option.split)
  have fin: "finished t q \<longleftrightarrow> finished s q" for q
    using c by (auto simp: t finished_def set_ctx_def s1)
  have tt: "f_tasks t = f_tasks s @ [p]" "f_multi t = f_multi ?s1" "f_easys t = f_easys ?s1"
    by (simp_all add: t set_ctx_def s1)
  have old: "\<exists>e. f_easys s h = Some e \<and> e_headerdata e = e_private e \<and> e_writedata e = e_private e \<and>
      e_private e \<in> set (f_tasks s) \<and> \<not> finished s (e_private e)" if "h \<in> set (f_multi s)" for h
    using ok that unfolding transfers_ok_def by blast
  have dist: "distinct (f_multi s)" "finite (dom (f_easys s))"
    "inj_on (\<lambda>h. map_option e_private (f_easys s h)) (set (f_multi s))"
    using ok unfolding transfers_ok_def by blast+
  have "transfers_ok t"
  proof (cases "en_easy_init E (f_easys s)")
    case None
    then have "f_multi t = f_multi s" "f_easys t = f_easys s" using tt by simp_all
    with old dist show ?thesis unfolding transfers_ok_def by (simp add: tt(1) fin) (meson UnI1 set_append)
  next
    case (Some h)
    have h: "f_easys s h = None" using E Some dist(2) by (auto simp: good_env_def)
    have hm: "h \<notin> set (f_multi s)" using old [of h] h by auto
    have easys: "f_easys t = (f_easys s)(h \<mapsto> easy_options p c ?fc)" using tt(3) Some by simp
    have multi: "f_multi t = f_multi s @ [h] \<or> f_multi t = f_multi s" using tt(2) Some by auto
    then have sub: "set (f_multi t) \<subseteq> insert h (set (f_multi s))" "distinct (f_multi t)"
      using hm dist(1) by auto
    have at: "f_easys t k = f_easys s k" if "k \<in> set (f_multi s)" for k
      using that hm by (auto simp: easys)
    have priv: "map_option e_private (f_easys t h) = Some p" by (simp add: easys easy_options_def)
    have other: "map_option e_private (f_easys s k) \<noteq> Some p" if "k \<in> set (f_multi s)" for k
      using old [OF that] assms(4) by auto
    have "inj_on (\<lambda>h. map_option e_private (f_easys t h)) (insert h (set (f_multi s)))"
    proof (rule inj_onI)
      fix x y assume xy: "x \<in> insert h (set (f_multi s))" "y \<in> insert h (set (f_multi s))"
        "map_option e_private (f_easys t x) = map_option e_private (f_easys t y)"
      show "x = y"
      proof (cases "x = h \<or> y = h")
        case True
        with xy priv other at show ?thesis by (metis insertE)
      next
        case False
        with xy at dist(3) show ?thesis unfolding inj_on_def by (metis insertE)
      qed
    qed
    moreover have "\<exists>e. f_easys t k = Some e \<and> e_headerdata e = e_private e \<and> e_writedata e = e_private e \<and>
        e_private e \<in> set (f_tasks t) \<and> \<not> finished t (e_private e)" if "k \<in> set (f_multi t)" for k
    proof (cases "k = h")
      case True
      then show ?thesis using assms(5) fin by (simp add: easys easy_options_def tt(1))
    next
      case False
      with that sub have k: "k \<in> set (f_multi s)" by auto
      from old [OF k] at [OF k] fin show ?thesis by (auto simp: tt(1))
    qed
    moreover have "finite (dom (f_easys t))" using dist(2) by (simp add: easys)
    ultimately show ?thesis
      unfolding transfers_ok_def using sub by (blast intro: inj_on_subset)
  qed
  with fin tt(1) c show ?thesis by (auto simp: t set_ctx_def s1)
qed

lemma start_transfer_effect:
  assumes "start_transfer L E acts p s = Inr t" and "list_all event_action acts" and "good_env E"
    and "transfers_ok s" and "p \<notin> set (f_tasks s)" "\<not> finished s p"
  shows "f_tasks t = f_tasks s @ [p] \<and> f_resolver t = f_resolver s \<and>
    es_async_callbacks (f_es t) = es_async_callbacks (f_es s) \<and>
    dom (f_ctxs t) = dom (f_ctxs s) \<and> (\<forall>q. finished t q \<longleftrightarrow> finished s q) \<and> transfers_ok t"
proof -
  obtain t0 where t0: "start_transfer L E [] p s = Inr t0" "same_tasks t0 t"
    using start_transfer_silent [OF assms(1,2)] by blast
  from start_transfer_effect0 [OF t0(1) assms(3-6)] same_tasks_transfers [OF t0(2)] t0(2)
  show ?thesis by (simp add: same_tasks_def finished_def)
qed

lemma start_step:
  assumes inv: "sys_inv y" and E: "good_env E" and batch: "y_batch y = AsyncCall (StartTransfer p) # rest"
    and run: "start_transfer L E acts p (y_fetch y) = Inr t" and acts: "list_all event_action acts"
    and z: "z = y\<lparr>y_fetch := t, y_batch := rest, y_reported := y_reported y @ []\<rparr>"
  shows "sys_inv z \<and> sys_pending z = sys_pending y \<and> phase_step (phase y) (phase z) [] [] \<and>
    phase z = (phase y)(p := Running)"
proof -
  have batch_starts: "starts (async_calls (y_batch y)) = p # starts (async_calls rest)"
    by (simp add: batch async_calls_Cons [of "AsyncCall (StartTransfer p)"])
  then have pw: "p \<in># waiting y" by (simp add: waiting_def)
  note only = sys_inv_waiting_only [OF inv pw]
  note t = start_transfer_effect [OF run acts E sys_inv_simps(4) [OF inv] only(1) sys_inv_waiting [OF inv pw]]
  have wait: "waiting z + {#p#} = waiting y"
    using t by (simp add: waiting_def z batch_starts)
  then have pend: "sys_pending z = sys_pending y"
    using t by (simp add: sys_pending_def z)
  have "\<forall>q \<in># waiting z. \<not> finished t q"
    using wait t sys_inv_waiting [OF inv] by (metis union_iff)
  moreover have "phase z = (phase y)(p := Running)"
    using t only sys_inv_waiting [OF inv pw] by (auto simp: fun_eq_iff phase_def z)
  moreover note a_start [of "phase y" p, OF phase_waiting [OF inv pw]]
  ultimately show ?thesis
    using t pend sys_inv_simps [OF inv] sys_inv_failed [OF inv] unfolding sys_inv_def by (simp add: z)
qed

text \<open>The collecting closure, without the laws of JSON values.\<close>

lemma collect_loop_effect:
  "collect_loop J B ps resp busy s = Inr (t, resp', busy') \<Longrightarrow> distinct ps \<Longrightarrow>
   t = s\<lparr>f_ctxs := f_ctxs s |` (- {p \<in> set ps. finished s p})\<rparr> \<and>
   busy' = busy @ filter (\<lambda>p. \<not> finished s p) ps"
proof (induction ps arbitrary: resp busy s)
  case Nil
  then show ?case by (simp add: restrict_map_def)
next
  case (Cons p ps)
  obtain c where c: "f_ctxs s p = Some c" using Cons.prems(1) by (auto simp: bind_outcome_Inr_iff get_ctx_Inr)
  have d: "distinct ps" "p \<notin> set ps" using Cons.prems(2) by auto
  show ?case
  proof (cases "c_done c")
    case False
    with c have nf: "\<not> finished s p" by (simp add: finished_def)
    have "{q \<in> set (p # ps). finished s q} = {q \<in> set ps. finished s q}" using nf by auto
    moreover have "collect_loop J B ps resp (busy @ [p]) s = Inr (t, resp', busy')"
      using Cons.prems(1) c False by (simp add: get_ctx_def)
    ultimately show ?thesis using Cons.IH d(1) nf by fastforce
  next
    case True
    with c have f: "finished s p" by (simp add: finished_def)
    let ?s = "s\<lparr>f_ctxs := (f_ctxs s)(p := None)\<rparr>"
    obtain resp1 where "collect_loop J B ps resp1 busy ?s = Inr (t, resp', busy')"
      using Cons.prems(1) c True by (auto simp: get_ctx_def bind_outcome_Inr_iff)
    note ih = conjunct1 [OF Cons.IH [OF this d(1)]] conjunct2 [OF Cons.IH [OF this d(1)]]
    have fin: "finished ?s q \<longleftrightarrow> finished s q" if "q \<in> set ps" for q
      using that d(2) by (auto simp: finished_def)
    have m': "f_ctxs ?s |` (- {p \<in> set ps. finished ?s p}) = f_ctxs s |` (- {q \<in> set (p # ps). finished s q})"
      using f fin by (auto simp: restrict_map_def fun_eq_iff)
    have flt: "filter (\<lambda>p. \<not> finished ?s p) ps = filter (\<lambda>p. \<not> finished s p) ps"
      using fin by (auto intro: filter_cong)
    have "t = s\<lparr>f_ctxs := f_ctxs s |` (- {q \<in> set (p # ps). finished s q})\<rparr>"
      unfolding ih(1) m' by simp
    moreover have "busy' = busy @ filter (\<lambda>p. \<not> finished s p) (p # ps)"
      unfolding ih(2) flt using f by simp
    ultimately show ?thesis ..
  qed
qed

text \<open>The collecting closure keeps the running tasks and hands out the finished ones.\<close>

lemma finished_tasks [simp]: "finished (s\<lparr>f_tasks := ps\<rparr>) q \<longleftrightarrow> finished s q"
  by (simp add: finished_def)

lemma collect_effect:
  assumes "collect_done J B q s = Inr t" and "distinct (f_tasks s)"
  shows "f_tasks t = rev (filter (\<lambda>p. \<not> finished s p) (f_tasks s))"
    and "f_ctxs t = f_ctxs s |` (- {p \<in> set (f_tasks s). finished s p})"
    and "f_easys t = f_easys s" "f_multi t = f_multi s" "f_resolver t = f_resolver s" "f_es t = f_es s"
proof -
  let ?s = "s\<lparr>f_tasks := []\<rparr>"
  obtain resp u resp' busy where c: "collect_loop J B (rev (f_tasks s)) resp [] ?s = Inr (u, resp', busy)"
    "t = u\<lparr>f_tasks := busy, f_promises := (f_promises u)(q \<mapsto> resp')\<rparr>"
    using assms(1) by (auto simp: collect_done_def bind_outcome_Inr_iff)
  have "distinct (rev (f_tasks s))" using assms(2) by simp
  note e = collect_loop_effect [OF c(1) this]
  show "f_tasks t = rev (filter (\<lambda>p. \<not> finished s p) (f_tasks s))"
    and "f_ctxs t = f_ctxs s |` (- {p \<in> set (f_tasks s). finished s p})"
    and "f_easys t = f_easys s" "f_multi t = f_multi s" "f_resolver t = f_resolver s" "f_es t = f_es s"
    using e by (simp_all add: c(2) rev_filter)
qed

lemma collect_step:
  assumes inv: "sys_inv y" and batch: "y_batch y = AsyncCall (CollectDone q) # rest"
    and run: "collect_done J B q (y_fetch y) = Inr t"
    and out: "out = filter (finished (y_fetch y)) (f_tasks (y_fetch y))"
    and z: "z = y\<lparr>y_fetch := t, y_batch := rest, y_reported := y_reported y @ out\<rparr>"
  shows "sys_inv z \<and> sys_pending z + mset out = sys_pending y \<and> phase_step (phase y) (phase z) [] out \<and>
    phase z = (\<lambda>p. if phase y p = Done then Absent else phase y p)"
proof -
  let ?s = "y_fetch y" and ?D = "dom (f_ctxs (y_fetch y))"
  note T = sys_inv_tasks [OF inv]
  note t = collect_effect [OF run T(1)]
  have outs: "set out = {p \<in> set (f_tasks ?s). finished ?s p}" by (auto simp: out)
  have dom: "dom (f_ctxs t) = ?D - set out" by (auto simp: t(2) outs)
  have fin: "finished t p \<longleftrightarrow> finished ?s p" if "p \<notin> set out" for p
    using that by (simp add: finished_def t(2) outs restrict_map_def)
  have wait: "waiting z = waiting y"
    using t by (simp add: waiting_def z batch async_calls_Cons [of "AsyncCall (CollectDone q)"])
  have "mset (f_tasks t) + mset out = mset (f_tasks ?s)"
    unfolding t(1) out by (simp add: add.commute)
  then have pend: "sys_pending z + mset out = sys_pending y"
    by (simp add: sys_pending_def wait) (simp add: z add_ac)
  have sub: "set out \<subseteq> ?D" using T(2) outs by auto
  have d: "distinct out" using T(1) by (simp add: out)
  have "mset_set ?D = mset_set (?D - set out) + mset_set (set out)"
    using sub sys_inv_simps(2) [OF inv] by (metis mset_set_Diff finite_subset subset_imp_msubset_mset_set diff_union_cancelR subset_mset.diff_add)
  moreover have "sys_pending z + mset (y_failed y) + mset out = sys_pending y + mset (y_failed y)"
    unfolding pend [symmetric] by (simp add: add_ac)
  ultimately have "sys_pending z + mset (y_failed y) + mset out = mset_set (dom (f_ctxs t)) + mset out"
    using sys_inv_simps(3) [OF inv] d by (simp add: dom mset_set_set add_ac)
  then have places: "sys_pending z + mset (y_failed y) = mset_set (dom (f_ctxs t))" by simp
  have w: "\<not> finished t p" if "p \<in># waiting z" for p
  proof -
    from that wait have pw: "p \<in># waiting y" by simp
    then have "p \<notin> set out" using sys_inv_waiting_only(1) [OF inv] outs by blast
    with fin sys_inv_waiting [OF inv pw] show ?thesis by blast
  qed
  have f: "finished t p" if "p \<in> set (y_failed y)" for p
    using that fin T(3) outs sys_inv_failed [OF inv that] by blast
  have ok: "\<exists>e. f_easys t h = Some e \<and> e_headerdata e = e_private e \<and>
      e_writedata e = e_private e \<and> e_private e \<in> set (f_tasks t) \<and> \<not> finished t (e_private e)"
    if h: "h \<in> set (f_multi t)" for h
  proof -
    from h t(4) sys_inv_simps(4) [OF inv] obtain e where e: "f_easys ?s h = Some e"
      "e_headerdata e = e_private e" "e_writedata e = e_private e" "e_private e \<in> set (f_tasks ?s)"
      "\<not> finished ?s (e_private e)" unfolding transfers_ok_def by auto
    then have "e_private e \<notin> set out" by (simp add: outs)
    with e fin show ?thesis by (simp add: t)
  qed
  have "transfers_ok t"
    using sys_inv_simps(4) [OF inv] ok unfolding transfers_ok_def t(3,4) by blast
  moreover have "finite (dom (f_ctxs t))" using sys_inv_simps(2) [OF inv] by (simp add: dom)
  moreover have "phase_step (phase y) (phase z) [] out \<and>
      phase z = (\<lambda>p. if phase y p = Done then Absent else phase y p)"
  proof -
    have "set out = {p. phase y p = Done}"
      using T(2,3) by (auto simp: phase_def outs)
    moreover have "phase z = (\<lambda>p. if phase y p = Done then Absent else phase y p)"
    proof
      fix p
      have "phase z p = (if p \<in> set out then Absent else phase y p)"
        using fin [of p] by (auto simp: phase_def z dom t(1) outs)
      with \<open>set out = {p. phase y p = Done}\<close>
      show "phase z p = (if phase y p = Done then Absent else phase y p)" by simp
    qed
    ultimately show ?thesis using a_report [OF d, of "phase y"] by simp
  qed
  moreover have "sys_inv z"
    using \<open>transfers_ok t\<close> \<open>finite (dom (f_ctxs t))\<close> sys_inv_simps(1) [OF inv] places w f
    unfolding sys_inv_def by (simp add: z t(5))
  ultimately show ?thesis using pend by blast
qed

lemma call_step:
  assumes inv: "sys_inv y" and E: "good_env E" and batch: "y_batch y = c # rest"
    and run: "run_call L J B E react c (y_fetch y) = Inr t"
    and react: "legal_reaction (y_fetch y) react"
    and z: "z = y\<lparr>y_fetch := t, y_batch := rest, y_reported := y_reported y @ handed_out c (y_fetch y)\<rparr>"
  shows "sys_inv z \<and> sys_pending z + mset (handed_out c (y_fetch y)) = sys_pending y \<and>
    phase_step (phase y) (phase z) [] (handed_out c (y_fetch y))"
proof (cases "(L, J, B, E, react, c, y_fetch y)" rule: run_call.cases)
  case (1 _ _ _ _ _ p _)
  then have c: "c = AsyncCall (StartTransfer p)" and t: "start_transfer L E (rx_add_handle react) p (y_fetch y) = Inr t"
    and out: "handed_out c (y_fetch y) = []" using run by (simp_all add: handed_out_def)
  have "list_all event_action (rx_add_handle react)" using react by (simp add: legal_reaction_def)
  from start_step [OF inv E batch [unfolded c] t this z [unfolded out]] show ?thesis
    unfolding out mset.simps add_0_right by blast
next
  case (2 _ _ _ _ _ q _)
  then have c: "c = AsyncCall (CollectDone q)" and t: "collect_done J B q (y_fetch y) = Inr t"
    and out: "handed_out c (y_fetch y) = filter (finished (y_fetch y)) (f_tasks (y_fetch y))"
    using run by (simp_all add: handed_out_def)
  from collect_step [OF inv batch [unfolded c] t out z] show ?thesis by blast
next
  case (3 _ _ _ _ _ h sock events _)
  then have "handed_out c (y_fetch y) = []" "async_calls [c] = []"
    by (simp_all add: handed_out_def async_calls_def)
  moreover have "same_places (y_fetch y) t \<and> transfers_ok t"
    using socket_event_places [of L E react sock events "y_fetch y" t] 3 run react sys_inv_simps(4) [OF inv] by simp
  ultimately show ?thesis using sys_inv_runI [OF inv _ _ batch] z by simp
next
  case (4 _ _ _ _ _ _)
  then have "handed_out c (y_fetch y) = []" "async_calls [c] = []"
    by (simp_all add: handed_out_def async_calls_def)
  moreover have "same_places (y_fetch y) t \<and> transfers_ok t"
    using timer_event_places [of L E react "y_fetch y" t] 4 run react sys_inv_simps(4) [OF inv] by simp
  ultimately show ?thesis using sys_inv_runI [OF inv _ _ batch] z by simp
next
  case (5 _ _ _ _ _ _)
  then have "handed_out c (y_fetch y) = []" "async_calls [c] = []"
    by (simp_all add: handed_out_def async_calls_def)
  moreover have "t = y_fetch y" using 5 run by simp
  ultimately show ?thesis
    using sys_inv_runI [OF inv same_places_refl _ batch] sys_inv_simps(4) [OF inv] z by simp
qed (use run in simp_all)

section \<open>Whole runs\<close>

lemma fetch_step_ok:
  assumes "fetch_step L live J B E y z reg called" and inv: "sys_inv y" and E: "good_env E"
  shows "sys_inv z \<and> sys_pending z + mset called = sys_pending y + mset reg \<and>
    phase_step (phase y) (phase z) reg called"
  using assms(1)
proof cases
  case (f_make t c p)
  show ?thesis using make_step [OF inv E f_make(4,5,1)] f_make(2,3) by simp
next
  case (f_add p s')
  show ?thesis using add_step [OF inv f_add(4,6,1)] f_add(2,3) by simp
next
  case (f_notify accepts r' qs)
  show ?thesis using notify_step [OF inv f_notify(5,1)] f_notify(2,3) by simp
next
  case (f_reply name tv a r' calls)
  show ?thesis using reply_step [OF inv f_reply(4,5,6,1)] f_reply(2,3) by simp
next
  case (f_dns p addrs st rest s')
  show ?thesis using dns_step [OF inv f_dns(4,5,1)] f_dns(2,3) by simp
next
  case (f_result q s')
  show ?thesis using result_step [OF inv f_result(4)] f_result(1-3) by simp
next
  case (f_fire ev fd flags h fl es' calls)
  show ?thesis using fire_step [OF inv f_fire(4,6,1)] f_fire(2,3) by simp
next
  case (f_call c rest react s')
  show ?thesis using call_step [OF inv E f_call(3,4,5)] f_call(1,2,6) by simp
qed

interpretation tasks: refined_service
  "fetch_step L live J B E" "\<lambda>y. good_env E \<and> sys_inv y" sys_pending phase_step phase
  for L :: "'eb libevent" and live :: "'eb \<Rightarrow> nat \<rightharpoonup> registration" and J :: "'j json" and B E
  by unfold_locales (use fetch_step_ok in blast)+

end
