(* ===== verification/Fetcher_Life.thy ===== *)
theory Fetcher_Life
  imports Fetcher_Tasks
begin

text \<open>
  What the invariant of \<open>Fetcher_Tasks\<close> gives for whole runs of the fetcher, from the constructor
  on: the life of every task, what the closures of a batch do, and what is never reported.
\<close>

section \<open>From the constructor on\<close>

lemma sys_init_inv:
  assumes "Fetcher L = Inr s"
  shows "sys_inv (sys0 s)" "sys_pending (sys0 s) = {#}" "phase (sys0 s) = (\<lambda>_. Absent)"
    "y_failed (sys0 s) = []" "y_reported (sys0 s) = []"
    "es_async_callbacks (f_es (y_fetch (sys0 s))) = []" "y_batch (sys0 s) = []"
proof -
  obtain es0 where es0: "EventServer L = Inr es0" "(let (es, h) = add_timer L (ClientTimer Stats) PERSIST es0 in
     bind_outcome (start L h 1000 es) (\<lambda>es1.
       Inr \<lparr>f_es = es1, f_resolver = Resolver, f_timer = None, f_stats_timer = Some h, f_tasks = [],
         f_ctxs = Map.empty, f_promises = Map.empty, f_easys = Map.empty, f_multi = [],
         f_socks = Map.empty, f_next_sock = 0, f_assigned = Map.empty, f_tick = 0\<rparr>)) = Inr s"
    using assms unfolding Fetcher_def bind_outcome_Inr_iff by blast
  obtain es h where eh: "add_timer L (ClientTimer Stats) PERSIST es0 = (es, h)"
    by (cases "add_timer L (ClientTimer Stats) PERSIST es0")
  from es0(2) eh obtain es1 where es1: "start L h 1000 es = Inr es1"
    and s: "f_es s = es1" "f_resolver s = Resolver" "f_tasks s = []" "f_ctxs s = Map.empty"
    "f_easys s = Map.empty" "f_multi s = []"
    by (auto simp: bind_outcome_Inr_iff)
  note es = es0(1) eh es1
  have "es_async_callbacks es0 = []"
    using es(1) by (auto simp: EventServer_def add_timer_def new_handle_def Let_def split: if_splits prod.splits)
  then have q: "es_async_callbacks (f_es s) = []"
    using queue_same(1) [OF es(3)] queue_same_new(2) [OF es(2)] s(1) by simp
  have r: "resolver_inv (Resolver, [])" "resolver_pending (Resolver, []) = {#}"
    by (rule resolver_inv_init, rule resolver_pending_init)
  show p: "sys_pending (sys0 s) = {#}"
    using q r(2) by (simp add: sys_pending_def waiting_def sys0_def s async_calls_def)
  then have "waiting (sys0 s) = {#}" by (simp add: sys_pending_def)
  with p r(1) show "sys_inv (sys0 s)"
    by (simp add: sys_inv_def transfers_ok_def) (simp add: sys0_def s)
  show "phase (sys0 s) = (\<lambda>_. Absent)" "y_failed (sys0 s) = []" "y_reported (sys0 s) = []"
    by (simp_all add: phase_def sys0_def s fun_eq_iff)
  show "es_async_callbacks (f_es (y_fetch (sys0 s))) = []" "y_batch (sys0 s) = []"
    using q by (simp_all add: sys0_def)
qed

lemma reach_inv:
  assumes "Fetcher L = Inr s" "good_env E" "run_of (fetch_step L live J B E) (sys0 s) y reg called"
  shows "sys_inv y"
  using tasks.run_inv [OF assms(3)] sys_init_inv(1) [OF assms(1)] assms(2) by blast

section \<open>What is reported\<close>

lemma step_reports:
  assumes "fetch_step L live J B E y z reg called" and "sys_inv y"
  shows "\<exists>out. y_reported z = y_reported y @ out \<and> (\<forall>p \<in> set out. phase y p = Done)"
    and "set (y_failed y) \<subseteq> set (y_failed z)"
proof -
  have out: "phase y p = Done" if "p \<in> set (handed_out c (y_fetch y))" for p c
    using that sys_inv_tasks(2,3) [OF assms(2)]
    by (auto simp: handed_out_def phase_def split: call.splits fetcher_cb.splits)
  from assms(1) show "\<exists>out. y_reported z = y_reported y @ out \<and> (\<forall>p \<in> set out. phase y p = Done)"
    by cases (auto simp: out)
  show "set (y_failed y) \<subseteq> set (y_failed z)"
    using assms(1) by cases auto
qed

lemma phase_failed: "sys_inv y \<Longrightarrow> p \<in> set (y_failed y) \<Longrightarrow> phase y p = Failed"
  using sys_inv_failed [of y p] by (auto simp: phase_def finished_def)

lemma run_failed:
  assumes "run_of (fetch_step L live J B E) y z reg called" and "good_env E"
  shows "sys_inv y \<Longrightarrow> set (y_failed y) \<subseteq> set (y_failed z) \<and>
    (\<exists>out. y_reported z = y_reported y @ out \<and> set out \<inter> set (y_failed y) = {})"
  using assms(1)
proof (induction rule: run_of.induct)
  case (run_refl y)
  then show ?case by simp
next
  case (run_step y z reg called u reg' called')
  have inv: "sys_inv z" using tasks.run_inv [OF run_step.hyps(1)] run_step.prems assms(2) by blast
  from run_step.IH [OF run_step.prems] obtain out where out: "set (y_failed y) \<subseteq> set (y_failed z)"
    "y_reported z = y_reported y @ out" "set out \<inter> set (y_failed y) = {}" by blast
  obtain out' where out': "y_reported u = y_reported z @ out'" "\<forall>p \<in> set out'. phase z p = Done"
    using step_reports(1) [OF run_step.hyps(2) inv] by blast
  have "set out' \<inter> set (y_failed y) = {}"
  proof (rule ccontr)
    assume "set out' \<inter> set (y_failed y) \<noteq> {}"
    then obtain p where "p \<in> set out'" "p \<in> set (y_failed z)" using out(1) by blast
    with out'(2) phase_failed [OF inv, of p] show False by simp
  qed
  moreover have "set (y_failed y) \<subseteq> set (y_failed u)"
    using out(1) step_reports(2) [OF run_step.hyps(2) inv] by blast
  ultimately show ?case using out(2,3) out'(1) by auto
qed

section \<open>The closures of a turn\<close>

text \<open>Only two kinds of closures are queued.\<close>

definition queued_kind :: "fetcher_cb \<Rightarrow> bool" where
  "queued_kind cb \<longleftrightarrow> (\<exists>p. cb = StartTransfer p) \<or> (\<exists>q. cb = CollectDone q)"

definition queue_inv :: "('j, 'eb) sys \<Rightarrow> bool" where
  "queue_inv y \<longleftrightarrow> (\<forall>cb \<in> set (es_async_callbacks (f_es (y_fetch y))) \<union> set (async_calls (y_batch y)). queued_kind cb)"

lemma queue_invI:
  assumes "queue_inv y"
    and "set (es_async_callbacks (f_es (y_fetch z))) \<union> set (async_calls (y_batch z)) \<subseteq>
      {cb. queued_kind cb} \<union> set (es_async_callbacks (f_es (y_fetch y))) \<union> set (async_calls (y_batch y))"
  shows "queue_inv z"
  using assms unfolding queue_inv_def by blast

lemma resolver_cb_queue:
  assumes "resolver_cb L E p addrs st s = Inr t"
  shows "set (es_async_callbacks (f_es t)) \<subseteq> {cb. queued_kind cb} \<union> set (es_async_callbacks (f_es s))"
  by (rule resolver_cb_effect [OF assms]; cases "is_ok st") (auto simp: queued_kind_def)

lemma add_queue:
  assumes "add L E p s = Inr t"
  shows "set (es_async_callbacks (f_es t)) \<subseteq> {cb. queued_kind cb} \<union> set (es_async_callbacks (f_es s))"
  by (rule add_cases [OF assms]) (use resolver_cb_queue in fastforce)

lemma call_queue:
  assumes inv: "sys_inv y" and batch: "y_batch y = c # rest"
    and run: "run_call L J B E react c (y_fetch y) = Inr t"
    and react: "legal_reaction (y_fetch y) react"
  shows "es_async_callbacks (f_es t) = es_async_callbacks (f_es (y_fetch y))"
proof (cases "(L, J, B, E, react, c, y_fetch y)" rule: run_call.cases)
  case (1 _ _ _ _ _ p _)
  with run obtain t0 where t0: "start_transfer L E [] p (y_fetch y) = Inr t0" "same_tasks t0 t"
    using start_transfer_silent [of L E "rx_add_handle react" p "y_fetch y" t] react
    by (auto simp: legal_reaction_def)
  then have "es_async_callbacks (f_es t0) = es_async_callbacks (f_es (y_fetch y))"
    by (auto simp: start_transfer_def bind_outcome_Inr_iff set_ctx_def Let_def split: option.splits if_splits)
  with t0(2) show ?thesis by (simp add: same_tasks_def)
next
  case (2 _ _ _ _ _ q _)
  with run collect_effect(6) [OF _ sys_inv_tasks(1) [OF inv]] show ?thesis by simp
next
  case (3 _ _ _ _ _ h sock events _)
  with socket_event_places [of L E react sock events "y_fetch y" t] run react sys_inv_simps(4) [OF inv]
  show ?thesis by (simp add: same_places_def)
next
  case (4 _ _ _ _ _ _)
  with timer_event_places [of L E react "y_fetch y" t] run react sys_inv_simps(4) [OF inv]
  show ?thesis by (simp add: same_places_def)
qed (use run in simp_all)

lemma queue_step:
  assumes "fetch_step L live J B E y z reg called" and inv: "sys_inv y" and q: "queue_inv y"
  shows "queue_inv z"
  using assms(1)
proof cases
  case (f_add p s')
  show ?thesis by (rule queue_invI [OF q]) (use add_queue [OF f_add(6)] f_add(1) in auto)
next
  case (f_dns p addrs st rest s')
  show ?thesis by (rule queue_invI [OF q]) (use resolver_cb_queue [OF f_dns(5)] f_dns(1) in auto)
next
  case (f_result r s')
  then obtain es where es: "add_async L (CollectDone r) (f_es (y_fetch y)) = Inr es"
    "s' = (y_fetch y)\<lparr>f_es := es\<rparr>" by (auto simp: get_done_tasks_req_def es_do_Inr)
  show ?thesis
    by (rule queue_invI [OF q]) (use async_queue [OF es(1)] es(2) f_result(1) in \<open>auto simp: queued_kind_def\<close>)
next
  case (f_fire ev fd flags h fl es' calls)
  show ?thesis by (rule queue_invI [OF q]) (use arg_cong [OF ev_cb_queue [OF f_fire(6)], of set] f_fire(1) in auto)
next
  case (f_call c rest react s')
  have "set (async_calls rest) \<subseteq> set (async_calls (y_batch y))"
    by (auto simp: f_call(3) async_calls_def)
  with call_queue [OF inv f_call(3-5)] show ?thesis
    by (intro queue_invI [OF q]) (auto simp: f_call(1))
qed (use q in \<open>auto simp: queue_inv_def set_ctx_def\<close>)

lemma reach_queue:
  assumes "run_of (fetch_step L live J B E) y z reg called" and "good_env E"
  shows "sys_inv y \<Longrightarrow> queue_inv y \<Longrightarrow> queue_inv z"
  using assms(1)
proof (induction rule: run_of.induct)
  case (run_step y z reg called u reg' called')
  have "sys_inv z" using tasks.run_inv [OF run_step.hyps(1)] run_step.prems(1) assms(2) by blast
  with run_step queue_step show ?case by blast
qed

text \<open>Either closure can run.\<close>

lemma start_runs:
  assumes inv: "sys_inv y" and E: "good_env E" and batch: "y_batch y = AsyncCall (StartTransfer p) # rest"
  shows "\<exists>z. fetch_step L live J B E y z [] [] \<and> y_batch z = rest \<and> phase z = (phase y)(p := Running) \<and>
    f_promises (y_fetch z) = f_promises (y_fetch y) \<and> phase y p = Waiting"
proof -
  have pw: "p \<in># waiting y"
    by (simp add: waiting_def batch async_calls_Cons [of "AsyncCall (StartTransfer p)"])
  then obtain c where c: "f_ctxs (y_fetch y) p = Some c" using sys_inv_waiting_only(3) [OF inv] by blast
  then obtain t where t: "start_transfer L E [] p (y_fetch y) = Inr t"
    "f_promises t = f_promises (y_fetch y)"
    using start_transfer_total by blast
  let ?z = "y\<lparr>y_fetch := t, y_batch := rest, y_reported := y_reported y @ []\<rparr>"
  have "fetch_step L live J B E y ?z [] []"
    by (rule f_call [OF batch, where react = no_reaction])
      (simp_all add: t handed_out_def)
  moreover have "phase ?z = (phase y)(p := Running)" using start_step [OF inv E batch t(1) _ refl] by simp
  ultimately show ?thesis using t(2) phase_waiting [OF inv pw] by (intro exI [of _ ?z]) simp
qed

lemma collect_runs:
  assumes J: "json_laws J mems items" and inv: "sys_inv y"
    and batch: "y_batch y = AsyncCall (CollectDone q) # rest"
  shows "\<exists>z called resp. fetch_step L live J B E y z [] called \<and> y_batch z = rest \<and>
    phase z = (\<lambda>p. if phase y p = Done then Absent else phase y p) \<and>
    f_promises (y_fetch z) = (f_promises (y_fetch y))(q \<mapsto> resp) \<and> set called = {p. phase y p = Done}"
proof -
  let ?out = "handed_out (AsyncCall (CollectDone q)) (y_fetch y)"
  note T = sys_inv_tasks [OF inv]
  obtain t resp where t: "collect_done J B q (y_fetch y) = Inr t"
    "f_promises t = (f_promises (y_fetch y))(q \<mapsto> resp)"
    using collect_done_ok [OF J T(1,2)] by blast
  let ?z = "y\<lparr>y_fetch := t, y_batch := rest, y_reported := y_reported y @ ?out\<rparr>"
  have "fetch_step L live J B E y ?z [] ?out"
    by (rule f_call [OF batch, where react = no_reaction]) (simp_all add: t)
  moreover have "?out = filter (finished (y_fetch y)) (f_tasks (y_fetch y))" by (simp add: handed_out_def)
  from collect_step [OF inv batch t(1) this refl]
  have "phase ?z = (\<lambda>p. if phase y p = Done then Absent else phase y p)" by blast
  moreover have "set ?out = {p. phase y p = Done}" using T(2,3) by (auto simp: handed_out_def phase_def)
  ultimately show ?thesis using t(2) by (intro exI [of _ ?z] exI [of _ ?out] exI [of _ resp]) simp
qed

text \<open>The batch runs to its end; the closures change the places of their own contexts only.\<close>

lemma batch_runs:
  assumes J: "json_laws J mems items" and E: "good_env E"
  shows "sys_inv y \<Longrightarrow> \<forall>cb \<in> set cbs. queued_kind cb \<Longrightarrow> y_batch y = map AsyncCall cbs \<Longrightarrow>
    \<exists>z called. run_of (fetch_step L live J B E) y z [] called \<and> y_batch z = [] \<and>
      (\<forall>p. phase y p = Running \<or> StartTransfer p \<in> set cbs \<longrightarrow> phase z p = Running) \<and>
      (\<forall>q. f_promises (y_fetch y) q \<noteq> None \<or> CollectDone q \<in> set cbs \<longrightarrow> f_promises (y_fetch z) q \<noteq> None) \<and>
      (\<forall>p q. phase y p = Done \<and> CollectDone q \<in> set cbs \<longrightarrow> p \<in> set called)"
proof (induction cbs arbitrary: y)
  case Nil
  then show ?case by (intro exI [of _ y] exI [of _ "[]"]) (simp add: run_refl)
next
  case (Cons cb cbs)
  have kinds: "\<forall>cb \<in> set cbs. queued_kind cb" using Cons.prems(2) by simp
  have "queued_kind cb" using Cons.prems(2) by simp
  then consider p where "cb = StartTransfer p" | q where "cb = CollectDone q"
    unfolding queued_kind_def by blast
  then show ?case
  proof cases
    case 1
    with Cons.prems(3) have "y_batch y = AsyncCall (StartTransfer p) # map AsyncCall cbs" by simp
    from start_runs [OF Cons.prems(1) E this] obtain u where u: "fetch_step L live J B E y u [] []"
      "y_batch u = map AsyncCall cbs" "phase u = (phase y)(p := Running)"
      "f_promises (y_fetch u) = f_promises (y_fetch y)" "phase y p = Waiting" by blast
    have "sys_inv u" using fetch_step_ok [OF u(1) Cons.prems(1) E] by blast
    from Cons.IH [OF this kinds u(2)] obtain z called where
      z: "run_of (fetch_step L live J B E) u z [] called" "y_batch z = []"
        "\<And>p. phase u p = Running \<or> StartTransfer p \<in> set cbs \<Longrightarrow> phase z p = Running"
        "\<And>q. f_promises (y_fetch u) q \<noteq> None \<or> CollectDone q \<in> set cbs \<Longrightarrow> f_promises (y_fetch z) q \<noteq> None"
        "\<And>p q. phase u p = Done \<and> CollectDone q \<in> set cbs \<Longrightarrow> p \<in> set called"
      by blast
    have "run_of (fetch_step L live J B E) y z [] called"
      using run_consI [OF z(1) u(1)] by simp
    moreover have "phase z r = Running" if "phase y r = Running \<or> StartTransfer r \<in> set (cb # cbs)" for r
      using that z(3) [of r] u(3) 1 by auto
    moreover have "f_promises (y_fetch z) q \<noteq> None"
      if "f_promises (y_fetch y) q \<noteq> None \<or> CollectDone q \<in> set (cb # cbs)" for q
      using that z(4) [of q] u(4) 1 by auto
    moreover have "r \<in> set called" if "phase y r = Done \<and> CollectDone q \<in> set (cb # cbs)" for r q
    proof -
      have "r \<noteq> p" using that u(5) by auto
      then show ?thesis using that z(5) [of r q] u(3) 1 by simp
    qed
    ultimately show ?thesis using z(2) by blast
  next
    case 2
    with Cons.prems(3) have "y_batch y = AsyncCall (CollectDone q) # map AsyncCall cbs" by simp
    from collect_runs [OF J Cons.prems(1) this] obtain u out resp where
      u: "fetch_step L live J B E y u [] out" "y_batch u = map AsyncCall cbs"
        "phase u = (\<lambda>p. if phase y p = Done then Absent else phase y p)"
        "f_promises (y_fetch u) = (f_promises (y_fetch y))(q \<mapsto> resp)" "set out = {p. phase y p = Done}"
      by blast
    have "sys_inv u" using fetch_step_ok [OF u(1) Cons.prems(1) E] by blast
    from Cons.IH [OF this kinds u(2)] obtain z called where
      z: "run_of (fetch_step L live J B E) u z [] called" "y_batch z = []"
        "\<And>p. phase u p = Running \<or> StartTransfer p \<in> set cbs \<Longrightarrow> phase z p = Running"
        "\<And>q. f_promises (y_fetch u) q \<noteq> None \<or> CollectDone q \<in> set cbs \<Longrightarrow> f_promises (y_fetch z) q \<noteq> None"
      by blast
    have "run_of (fetch_step L live J B E) y z [] (out @ called)"
      using run_consI [OF z(1) u(1)] by simp
    moreover have "phase z r = Running" if "phase y r = Running \<or> StartTransfer r \<in> set (cb # cbs)" for r
      using that z(3) [of r] u(3) 2 by auto
    moreover have "f_promises (y_fetch z) r \<noteq> None"
      if "f_promises (y_fetch y) r \<noteq> None \<or> CollectDone r \<in> set (cb # cbs)" for r
      using that z(4) [of r] u(4) 2 by auto
    moreover have "r \<in> set (out @ called)" if "phase y r = Done \<and> CollectDone q' \<in> set (cb # cbs)" for r q'
      using that u(5) by simp
    ultimately show ?thesis using z(2) by blast
  qed
qed

section \<open>A request is a run of steps\<close>

lemma parse_run:
  "parse_tasks J E tasks (y_fetch y) = Inr (s', ps) \<Longrightarrow>
   run_of (fetch_step L live J B E) y (y\<lparr>y_fetch := s', y_new := y_new y @ ps\<rparr>) ps []"
proof (induction tasks arbitrary: y ps)
  case Nil
  then have "y\<lparr>y_fetch := s', y_new := y_new y @ ps\<rparr> = y" "ps = []" by (cases y; simp)+
  then show ?case by (simp add: run_refl)
next
  case (Cons task tasks)
  let ?p = "en_alloc E (f_ctxs (y_fetch y))"
  obtain c qs where c: "from_json J task CrawlContext = Inr c" "ps = ?p # qs"
    "parse_tasks J E tasks (set_ctx ?p (task_context ?p c) (y_fetch y)) = Inr (s', qs)"
    using Cons.prems by (auto simp: Let_def bind_outcome_Inr_iff task_context_def)
  let ?y = "y\<lparr>y_fetch := set_ctx ?p (task_context ?p c) (y_fetch y), y_new := y_new y @ [?p]\<rparr>"
  have "fetch_step L live J B E y ?y [?p] []" using c(1) refl by (rule f_make)
  with Cons.IH [of ?y qs] c(3)
  have "run_of (fetch_step L live J B E) y (?y\<lparr>y_fetch := s', y_new := y_new ?y @ qs\<rparr>) ([?p] @ qs) ([] @ [])"
    by (intro run_consI) simp_all
  then show ?case by (simp add: c(2))
qed

lemma add_run:
  "add_tasks L J B E ps resp (y_fetch y) = Inr (s', Inr resp') \<Longrightarrow> distinct ps \<Longrightarrow> set ps \<subseteq> set (y_new y) \<Longrightarrow>
   y_dns y = [] \<Longrightarrow> \<exists>z called. run_of (fetch_step L live J B E) y z [] called \<and> y_fetch z = s'"
proof (induction ps arbitrary: y resp)
  case Nil
  then have "run_of (fetch_step L live J B E) y y [] [] \<and> y_fetch y = s'" by (simp add: run_refl)
  then show ?case by blast
next
  case (Cons p ps)
  obtain resp1 s1 where a: "add L E p (y_fetch y) = Inr s1" "add_tasks L J B E ps resp1 s1 = Inr (s', Inr resp')"
  proof -
    obtain c where c: "get_ctx p (y_fetch y) = Inr c" using Cons.prems(1) by (auto simp: bind_outcome_Inr_iff)
    obtain resp1 where r: "append_task J B c resp = Inr resp1"
      using Cons.prems(1) c by (cases "append_task J B c resp") (auto split: fault.splits)
    with Cons.prems(1) c show thesis by (auto simp: bind_outcome_Inr_iff intro: that)
  qed
  let ?y = "y\<lparr>y_fetch := s1, y_new := remove1 p (y_new y), y_failed := y_failed y @ given_up p s1\<rparr>"
  have "p \<in> set (y_new y)" using Cons.prems(3) by simp
  then have step: "fetch_step L live J B E y ?y [] (given_up p s1)" using Cons.prems(4) a(1) by (rule f_add)
  have "add_tasks L J B E ps resp1 (y_fetch ?y) = Inr (s', Inr resp')" "distinct ps" "y_dns ?y = []"
    using a(2) Cons.prems(2,4) by simp_all
  moreover have "set ps \<subseteq> set (y_new ?y)"
  proof
    fix q assume "q \<in> set ps"
    moreover from this have "q \<noteq> p" "q \<in> set (y_new y)" using Cons.prems(2,3) by auto
    ultimately show "q \<in> set (y_new ?y)" by (simp add: in_set_remove1)
  qed
  ultimately obtain z called where "run_of (fetch_step L live J B E) ?y z [] called" "y_fetch z = s'"
    using Cons.IH by blast
  with run_consI [OF this(1) step] show ?case by auto
qed

section \<open>A concrete run\<close>

text \<open>For the witnesses: the task of \<open>task1\<close> is made, its name is asked for, and the resolution
  fails or succeeds; whatever \<open>curl_easy_init\<close> gives, which is asked only afterwards.\<close>

definition sys1 :: "(jvalue, lbase) sys" where
  "sys1 = (sys0 fetcher0)\<lparr>y_fetch := set_ctx 1 (task_context 1 context1) fetcher0, y_new := [1]\<rparr>"

lemma sys1_sel: "y_new sys1 = [1]" "y_flight sys1 = []" "y_dns sys1 = []" "y_batch sys1 = []"
  "y_failed sys1 = []"
  by (simp_all add: sys1_def sys0_def)

lemma env0_self: "env0\<lparr>en_easy_init := en_easy_init env0\<rparr> = env0"
  by simp

lemma run_made_with: "run_of (fetch_step lb lb_live jv rfc4648 (env0\<lparr>en_easy_init := f\<rparr>)) (sys0 fetcher0) sys1 [1] []"
proof -
  have "1 = en_alloc (env0\<lparr>en_easy_init := f\<rparr>) (f_ctxs (y_fetch (sys0 fetcher0 :: (jvalue, lbase) sys)))"
    by (simp add: env0_def sys0_def fresh_key_def)
  from f_make [where y = "sys0 fetcher0 :: (jvalue, lbase) sys", OF from_json_task1 this]
  have "fetch_step lb lb_live jv rfc4648 (env0\<lparr>en_easy_init := f\<rparr>) (sys0 fetcher0) sys1 [1] []"
    by (simp add: sys1_def sys0_def)
  with run_refl show ?thesis by (rule run_stepI) simp_all
qed

lemmas run_made = run_made_with [where f = "en_easy_init env0", unfolded env0_self]

lemma run_more_with:
  assumes "run_of (fetch_step lb lb_live jv rfc4648 (env0\<lparr>en_easy_init := f\<rparr>)) (sys0 fetcher0) y reg called"
    and "fetch_step lb lb_live jv rfc4648 (env0\<lparr>en_easy_init := f\<rparr>) y z [] called'"
  shows "run_of (fetch_step lb lb_live jv rfc4648 (env0\<lparr>en_easy_init := f\<rparr>)) (sys0 fetcher0) z reg (called @ called')"
  using run_of.run_step [OF assms] by simp

lemmas run_more = run_more_with [where f = "en_easy_init env0", unfolded env0_self]

lemma run_queried_with:
  "\<exists>y. run_of (fetch_step lb lb_live jv rfc4648 (env0\<lparr>en_easy_init := f\<rparr>)) (sys0 fetcher0) y [1] [] \<and> y_flight y = [''a''] \<and>
     y_dns y = [] \<and> y_batch y = [] \<and> f_es (y_fetch y) = f_es fetcher0 \<and> f_easys (y_fetch y) = Map.empty \<and>
     f_multi (y_fetch y) = [] \<and> f_ctxs (y_fetch y) 1 \<noteq> None \<and> y_failed y = [] \<and>
     r_infos (f_resolver (y_fetch y)) ''a'' = Some \<lparr>ri_resolver = True, ri_name = ''a'', ri_cbs = [Suc 0],
       ri_expire = 0, ri_status = Status, ri_addrs = [], ri_state = kInProcessing\<rparr>"
proof -
  have host: "u_host (c_uri (task_context 1 context1)) = ''a''"
    by (simp add: task_context_def context1_def sample_context_def)
  obtain s2 where s2: "add lb (env0\<lparr>en_easy_init := f\<rparr>) 1 (y_fetch sys1) = Inr s2" "f_es s2 = f_es fetcher0"
    "f_easys s2 = Map.empty" "f_multi s2 = []" "\<exists>c. f_ctxs s2 1 = Some c \<and> \<not> c_done c"
    "r_tasks (f_resolver s2) = [''a'']"
    "r_infos (f_resolver s2) = [''a'' \<mapsto> \<lparr>ri_resolver = True, ri_name = ''a'', ri_cbs = [Suc 0],
       ri_expire = 0, ri_status = Status, ri_addrs = [], ri_state = kInProcessing\<rparr>]"
    by (simp add: sys1_def add_def get_ctx_def set_ctx_def read_ms_def read_clock_def Let_def resolve_def
        Resolver_def info_at_def refresh_def new_info_def split_def enqueue_def set_info_def host env0_def)
      (simp add: task_context_def context1_def CrawlContext_def sample_context_def)
  have nf: "given_up 1 s2 = []" using s2(5) by (auto simp: given_up_def finished_def)
  let ?y2 = "sys1\<lparr>y_fetch := s2, y_new := [], y_failed := []\<rparr>"
  have "1 \<in> set (y_new sys1)" "y_dns sys1 = []" by (simp_all add: sys1_sel)
  from f_add [OF this s2(1)] have "fetch_step lb lb_live jv rfc4648 (env0\<lparr>en_easy_init := f\<rparr>) sys1 ?y2 [] []"
    unfolding nf sys1_sel by simp
  note run2 = run_more_with [OF run_made_with this]
  let ?r = "(f_resolver s2)\<lparr>r_tasks := [], r_notified := False\<rparr>"
  let ?y3 = "?y2\<lparr>y_fetch := s2\<lparr>f_resolver := ?r\<rparr>, y_flight := [''a'']\<rparr>"
  have "Resolver.ev_cb (\<lambda>_. True) (f_resolver (y_fetch ?y2)) = Inr (?r, [''a''])"
    by (simp add: Resolver.ev_cb_def s2(6,7) c_str_def)
  then have "fetch_step lb lb_live jv rfc4648 (env0\<lparr>en_easy_init := f\<rparr>) ?y2 (?y2\<lparr>y_fetch := (y_fetch ?y2)\<lparr>f_resolver := ?r\<rparr>,
      y_flight := y_flight ?y2 @ r_tasks (f_resolver (y_fetch ?y2))\<rparr>) [] []"
    by (intro f_notify) (simp_all add: sys1_sel)
  moreover have "y_flight ?y2 @ r_tasks (f_resolver (y_fetch ?y2)) = [''a'']" "y_fetch ?y2 = s2"
    by (simp_all add: sys1_sel s2(6))
  ultimately have "fetch_step lb lb_live jv rfc4648 (env0\<lparr>en_easy_init := f\<rparr>) ?y2 ?y3 [] []" by (simp only:)
  note run_more_with [OF run2 this, unfolded append_Nil]
  moreover have "y_flight ?y3 = [''a'']" "y_dns ?y3 = []" "y_batch ?y3 = []" "f_es (y_fetch ?y3) = f_es fetcher0"
    "f_easys (y_fetch ?y3) = Map.empty" "f_multi (y_fetch ?y3) = []" "f_ctxs (y_fetch ?y3) 1 \<noteq> None"
    "y_failed ?y3 = []"
    using s2(2-5) by (auto simp: sys1_sel)
  moreover have "r_infos (f_resolver (y_fetch ?y3)) ''a'' = Some \<lparr>ri_resolver = True, ri_name = ''a'',
      ri_cbs = [Suc 0], ri_expire = 0, ri_status = Status, ri_addrs = [], ri_state = kInProcessing\<rparr>"
    using s2(7) by simp
  ultimately show ?thesis by blast
qed

lemmas run_queried = run_queried_with [where f = "en_easy_init env0", unfolded env0_self]

text \<open>The answer to the query, and the call of the task's callback.\<close>

lemma run_replied_with:
  "\<exists>y addrs st. run_of (fetch_step lb lb_live jv rfc4648 (env0\<lparr>en_easy_init := f\<rparr>)) (sys0 fetcher0) y [1] [] \<and>
     y_dns y = [(1, addrs, st)] \<and> (is_ok st \<longleftrightarrow> good) \<and> (good \<longrightarrow> addrs \<noteq> []) \<and> y_batch y = [] \<and>
     f_es (y_fetch y) = f_es fetcher0 \<and> f_multi (y_fetch y) = [] \<and> f_easys (y_fetch y) = Map.empty \<and>
     f_ctxs (y_fetch y) 1 \<noteq> None \<and> y_failed y = []"
proof -
  let ?i = "\<lparr>ri_resolver = True, ri_name = ''a'', ri_cbs = [Suc 0],
       ri_expire = 0, ri_status = Status, ri_addrs = [], ri_state = kInProcessing\<rparr> :: nat resolve_info"
  obtain y where y: "run_of (fetch_step lb lb_live jv rfc4648 (env0\<lparr>en_easy_init := f\<rparr>)) (sys0 fetcher0) y [1] []"
    "y_flight y = [''a'']" "y_dns y = []" "y_batch y = []" "f_es (y_fetch y) = f_es fetcher0"
    "f_easys (y_fetch y) = Map.empty" "f_multi (y_fetch y) = []" "f_ctxs (y_fetch y) 1 \<noteq> None"
    "y_failed y = []" "r_infos (f_resolver (y_fetch y)) ''a'' = Some ?i"
    using run_queried_with by blast
  define a where "a = answer_a\<lparr>a_result := if good then 0 else 3\<rparr>"
  define i where "i = record_answer (en_dns_error env0) 0 a ?i"
  have a: "a_type a = DNS_IPv4_A" by (simp add: a_def answer_a_def)
  have i: "ri_cbs i = [1]" "is_ok (ri_status i) \<longleftrightarrow> good" "good \<longrightarrow> ri_addrs i \<noteq> []"
    by (auto simp: i_def a_def record_answer_def answer_a_def DNS_ERR_NONE_def is_ok_def ok_def error_def
        append_msg_def Status_def)
  have res: "res_cb (en_dns_error (env0\<lparr>en_easy_init := f\<rparr>)) epoch a ''a'' (f_resolver (y_fetch y)) =
      Inr (set_info ''a'' (i\<lparr>ri_cbs := [], ri_state := kDone\<rparr>) (f_resolver (y_fetch y)),
        [(1, ri_addrs i, ri_status i)])"
    using i(1) by (simp add: res_cb_def y(10) a i_def [symmetric] Let_def)
  have name: "''a'' \<in> set (y_flight y)" by (simp add: y(2))
  define z where "z = y\<lparr>y_fetch := (y_fetch y)\<lparr>f_resolver :=
      set_info ''a'' (i\<lparr>ri_cbs := [], ri_state := kDone\<rparr>) (f_resolver (y_fetch y))\<rparr>,
    y_flight := remove1 ''a'' (y_flight y), y_dns := [(1, ri_addrs i, ri_status i)]\<rparr>"
  have step: "fetch_step lb lb_live jv rfc4648 (env0\<lparr>en_easy_init := f\<rparr>) y z [] []"
    unfolding z_def using y(3) name res by (rule f_reply)
  note run_more_with [OF y(1) step, unfolded append_Nil]
  moreover have "y_dns z = [(1, ri_addrs i, ri_status i)]" "y_batch z = []" "f_es (y_fetch z) = f_es fetcher0"
    "f_multi (y_fetch z) = []" "f_easys (y_fetch z) = Map.empty" "f_ctxs (y_fetch z) 1 \<noteq> None"
    "y_failed z = []"
    using y(4-9) by (simp_all add: z_def)
  ultimately show ?thesis using i(2,3) by blast
qed

lemmas run_replied = run_replied_with [where f = "en_easy_init env0", unfolded env0_self]

text \<open>The loop of \<open>fetcher0\<close>: event 1 drains the queue.\<close>

lemma fetcher0_es:
  "lb_live (es_eb (f_es fetcher0)) (Suc 0) = Some (-1, 0, Suc 0)"
  "es_handles (f_es fetcher0) (Suc 0) = Some \<lparr>h_ev = Some 1, h_type = kTimer, h_timer_cb = Some DrainAsync, h_fd_cb = None\<rparr>"
  "es_async_handle (f_es fetcher0) = Suc 0" "es_async_callbacks (f_es fetcher0) = []"
  by (simp_all add: fetcher0_def Fetcher_def EventServer_def add_timer_def new_handle_def lb_def start_def
      event_of_def check_ne_def Let_def lb_live_def lb_fresh_def)

lemma async_fires_with:
  assumes "f_es (y_fetch y) = f_es fetcher0" and "y_batch y = []"
    and es: "add_async lb cb (f_es (y_fetch y)) = Inr es"
  shows "\<exists>es'. fetch_step lb lb_live jv rfc4648 (env0\<lparr>en_easy_init := f\<rparr>) (y\<lparr>y_fetch := t\<lparr>f_es := es\<rparr>\<rparr>)
    (y\<lparr>y_fetch := t\<lparr>f_es := es'\<rparr>, y_batch := [AsyncCall cb]\<rparr>) [] []"
proof -
  let ?y = "y\<lparr>y_fetch := t\<lparr>f_es := es\<rparr>\<rparr>"
  have es': "es_async_callbacks es = [cb]" "es_handles es = es_handles (f_es fetcher0)"
    "lb_live (es_eb es) 1 = Some (-1, 0, 1)"
    using es unfolding assms(1)
    by (auto simp: add_async_def Let_def es_simps fetcher0_es lb_def lb_live_def)
      (use fetcher0_es(1) in \<open>simp add: lb_live_def\<close>)
  let ?es = "es\<lparr>es_eb := le_take lb (es_eb es) 1\<rparr>"
  have "EventServer.ev_cb (-1) 0 1 ?es = Inr (?es\<lparr>es_async_callbacks := []\<rparr>, [AsyncCall cb])"
    using es'(1,2) by (simp add: EventServer.ev_cb_def fetcher0_es)
  then have "EventServer.ev_cb (-1) 0 1 ((f_es (y_fetch ?y))\<lparr>es_eb := le_take lb (es_eb (f_es (y_fetch ?y))) 1\<rparr>) =
      Inr (?es\<lparr>es_async_callbacks := []\<rparr>, [AsyncCall cb])"
    "y_batch ?y = []" "lb_live (es_eb (f_es (y_fetch ?y))) 1 = Some (-1, 0, 1)"
    using es'(3) assms(2) by simp_all
  from f_fire [where L = lb and live = lb_live and y = ?y, OF this(2,3,1)]
  have "fetch_step lb lb_live jv rfc4648 (env0\<lparr>en_easy_init := f\<rparr>) ?y
    (?y\<lparr>y_fetch := (y_fetch ?y)\<lparr>f_es := ?es\<lparr>es_async_callbacks := []\<rparr>\<rparr>, y_batch := [AsyncCall cb]\<rparr>) [] []" .
  then show ?thesis by (intro exI [of _ "?es\<lparr>es_async_callbacks := []\<rparr>"]) simp
qed

lemmas async_fires = async_fires_with [where f = "en_easy_init env0", unfolded env0_self]

lemma run_given_up:
  "\<exists>y. run_of (fetch_step lb lb_live jv rfc4648 env0) (sys0 fetcher0) y [1] [1] \<and> y_failed y = [1]"
proof -
  obtain y addrs st where y: "run_of (fetch_step lb lb_live jv rfc4648 env0) (sys0 fetcher0) y [1] []"
    "y_dns y = [(1, addrs, st)]" "\<not> is_ok st" "f_ctxs (y_fetch y) 1 \<noteq> None" "y_failed y = []"
    using run_replied [where good = False] by blast
  obtain s' where s': "resolver_cb lb env0 1 addrs st (y_fetch y) = Inr s'"
    using y(3,4) by (auto simp: resolver_cb_def get_ctx_def Let_def split_def)
  have fin: "given_up 1 s' = [1]"
    by (rule resolver_cb_effect [OF s']) (use y(3) in \<open>simp add: given_up_def\<close>)
  note run = run_more [OF y(1) f_dns [OF y(2) s'], unfolded fin append_Nil]
  moreover have "y_failed (y\<lparr>y_fetch := s', y_dns := [], y_failed := y_failed y @ [1]\<rparr>) = [1]" by (simp add: y(5))
  ultimately show ?thesis by blast
qed

lemma run_batch_with:
  assumes "good_env (env0\<lparr>en_easy_init := f\<rparr>)"
  shows "\<exists>y. run_of (fetch_step lb lb_live jv rfc4648 (env0\<lparr>en_easy_init := f\<rparr>)) (sys0 fetcher0) y [1] [] \<and>
     y_batch y = [AsyncCall (StartTransfer 1)] \<and> f_multi (y_fetch y) = [] \<and> f_easys (y_fetch y) = Map.empty"
proof -
  obtain y addrs st where y: "run_of (fetch_step lb lb_live jv rfc4648 (env0\<lparr>en_easy_init := f\<rparr>)) (sys0 fetcher0) y [1] []"
    "y_dns y = [(1, addrs, st)]" "is_ok st" "addrs \<noteq> []" "y_batch y = []" "f_es (y_fetch y) = f_es fetcher0"
    "f_multi (y_fetch y) = []" "f_easys (y_fetch y) = Map.empty" "f_ctxs (y_fetch y) 1 \<noteq> None" "y_failed y = []"
    using run_replied_with [where good = True] by blast
  obtain c where c: "f_ctxs (y_fetch y) 1 = Some c" using y(9) by blast
  have nf: "\<not> finished (y_fetch y) 1"
    using sys_inv_waiting [OF reach_inv [OF fetcher0_ok assms y(1)], of 1] y(2) by (simp add: waiting_def)
  obtain es where es: "add_async lb (StartTransfer 1) (f_es (y_fetch y)) = Inr es"
    using fetcher0_es by (auto simp: add_async_def y(6) event_of_def Let_def)
  then obtain t where t: "resolver_cb lb (env0\<lparr>en_easy_init := f\<rparr>) 1 addrs st (y_fetch y) = Inr (t\<lparr>f_es := es\<rparr>)"
    "f_multi t = []" "f_easys t = Map.empty"
    using y(3,4,7,8) c
    by (auto simp: resolver_cb_def get_ctx_def Let_def split_def es_do_def set_ctx_def read_ms_def
        read_clock_def read_rand_def)
  have "given_up 1 (t\<lparr>f_es := es\<rparr>) = []"
    by (rule resolver_cb_effect [OF t(1)]) (use y(3) nf in \<open>simp add: given_up_def\<close>)
  note run1 = run_more_with [OF y(1) f_dns [OF y(2) t(1)], unfolded this append_Nil]
  let ?b = "y\<lparr>y_dns := [], y_failed := y_failed y @ []\<rparr>"
  have "f_es (y_fetch ?b) = f_es fetcher0" "y_batch ?b = []"
    "add_async lb (StartTransfer 1) (f_es (y_fetch ?b)) = Inr es" using y(5,6) es by simp_all
  from async_fires_with [OF this, where t = t] obtain es' where step: "fetch_step lb lb_live jv rfc4648 (env0\<lparr>en_easy_init := f\<rparr>)
      (?b\<lparr>y_fetch := t\<lparr>f_es := es\<rparr>\<rparr>)
      (?b\<lparr>y_fetch := t\<lparr>f_es := es'\<rparr>, y_batch := [AsyncCall (StartTransfer 1)]\<rparr>) [] []" by blast
  have "?b\<lparr>y_fetch := t\<lparr>f_es := es\<rparr>\<rparr> =
      y\<lparr>y_fetch := t\<lparr>f_es := es\<rparr>, y_dns := [], y_failed := y_failed y @ []\<rparr>" by simp
  note run_more_with [OF run1 step [unfolded this], unfolded append_Nil]
  moreover have "y_batch (?b\<lparr>y_fetch := t\<lparr>f_es := es'\<rparr>, y_batch := [AsyncCall (StartTransfer 1)]\<rparr>) =
      [AsyncCall (StartTransfer 1)]"
    "f_multi (y_fetch (?b\<lparr>y_fetch := t\<lparr>f_es := es'\<rparr>, y_batch := [AsyncCall (StartTransfer 1)]\<rparr>)) = []"
    "f_easys (y_fetch (?b\<lparr>y_fetch := t\<lparr>f_es := es'\<rparr>, y_batch := [AsyncCall (StartTransfer 1)]\<rparr>)) = Map.empty"
    using t(2,3) by simp_all
  ultimately show ?thesis by blast
qed

lemmas run_batch = run_batch_with [where f = "en_easy_init env0", unfolded env0_self, OF good_env0]

lemma run_started:
  "\<exists>y. run_of (fetch_step lb lb_live jv rfc4648 env0) (sys0 fetcher0) y [1] [] \<and> f_multi (y_fetch y) = [1]"
proof -
  obtain y where y: "run_of (fetch_step lb lb_live jv rfc4648 env0) (sys0 fetcher0) y [1] []"
    "y_batch y = [AsyncCall (StartTransfer 1)]" "f_multi (y_fetch y) = []" "f_easys (y_fetch y) = Map.empty"
    using run_batch by blast
  have "1 \<in># waiting y" by (simp add: waiting_def y(2))
  then obtain c where c: "f_ctxs (y_fetch y) 1 = Some c"
    using sys_inv_waiting_only(3) [OF reach_inv [OF fetcher0_ok good_env0 y(1)]] by blast
  then obtain t where t: "start_transfer lb env0 [] 1 (y_fetch y) = Inr t" "f_multi t = [1]"
    using y(3,4) by (simp add: start_transfer_def get_ctx_def Let_def set_ctx_def env0_def fresh_key_def)
  let ?z = "y\<lparr>y_fetch := t, y_batch := [], y_reported := y_reported y @ []\<rparr>"
  have "fetch_step lb lb_live jv rfc4648 env0 y ?z [] []"
    by (rule f_call [OF y(2), where react = no_reaction])
      (simp_all add: t [simplified] handed_out_def)
  note run_more [OF y(1) this, unfolded append_Nil]
  moreover have "f_multi (y_fetch ?z) = [1]" using t(2) by simp
  ultimately show ?thesis by blast
qed

section \<open>Properties\<close>

text \<open>C1: The whole of \<open>Fetcher\<close>, with its three threads interleaved in any way, implements the
  life of a task: from construction on, every step makes a task, starts one that waits, gives up
  one that waits, ends running ones or reports all that are done, and nothing else.\<close>

theorem fetcher_refines_lifecycle:
  assumes "Fetcher L = Inr s" and "good_env E"
    and "run_of (fetch_step L live J B E) (sys0 s) y reg called"
  shows "run_of phase_step (\<lambda>_. Absent) (phase y) reg called"
  using tasks.run_refines [OF assms(3)] sys_init_inv(1,3) [OF assms(1)] assms(2) by simp

theorem fetcher_refines_lifecycle_witness:
  "run_of phase_step (\<lambda>_. Absent) (phase sys1) [1] [] \<and> phase sys1 1 = Waiting"
  using fetcher_refines_lifecycle [OF fetcher0_ok good_env0 run_made]
  by (simp add: phase_def sys1_def sys0_def set_ctx_def)

text \<open>C9: No task is lost and none ends twice: in every reachable state the contexts made are
  those that ended (reported, or given up) and those in exactly one of the places of the program,
  each there once; when no task is pending, the ended ones are exactly the made ones.\<close>

theorem tasks_end_exactly_once:
  assumes "Fetcher L = Inr s" and "good_env E"
    and "run_of (fetch_step L live J B E) (sys0 s) y reg called"
  shows "sys_pending y + mset called = mset reg \<and> (\<forall>p. count (sys_pending y) p \<le> 1) \<and>
    (sys_pending y = {#} \<longrightarrow> mset called = mset reg)"
proof -
  have once: "sys_pending y + mset called = mset reg"
    using tasks.run_once [OF assms(3)] sys_init_inv(1,2) [OF assms(1)] assms(2) by simp
  have "count (sys_pending y) p \<le> 1" for p
    using sys_inv_once [OF reach_inv [OF assms], of p]
    by (simp add: sys_pending_def count_mset split: if_splits)
  with once show ?thesis by auto
qed

theorem tasks_end_exactly_once_witness:
  "sys_pending sys1 + mset [] = mset [1] \<and> sys_pending sys1 \<noteq> {#}"
  using tasks_end_exactly_once [OF fetcher0_ok good_env0 run_made] by auto

text \<open>C10: The pointers libcurl holds are good: in every reachable state each transfer's private,
  header and body pointer are the same context, which \<open>tasks_\<close> owns and which is not done, and no
  two transfers share one.\<close>

theorem transfers_point_to_own_task:
  assumes "Fetcher L = Inr s" and "good_env E"
    and "run_of (fetch_step L live J B E) (sys0 s) y reg called" and "h \<in> set (f_multi (y_fetch y))"
  shows "\<exists>e c. f_easys (y_fetch y) h = Some e \<and> raw_ctx (e_private e) (y_fetch y) = Inr c \<and> \<not> c_done c \<and>
    e_headerdata e = e_private e \<and> e_writedata e = e_private e \<and>
    (\<forall>h' e'. h' \<in> set (f_multi (y_fetch y)) \<longrightarrow> f_easys (y_fetch y) h' = Some e' \<longrightarrow>
       e_private e' = e_private e \<longrightarrow> h' = h)"
proof -
  have inv: "sys_inv y" using reach_inv [OF assms(1-3)] .
  then have ok: "transfers_ok (y_fetch y)" by (rule sys_inv_simps(4))
  with assms(4) obtain e where e: "f_easys (y_fetch y) h = Some e" "e_headerdata e = e_private e"
    "e_writedata e = e_private e" "e_private e \<in> set (f_tasks (y_fetch y))"
    "\<not> finished (y_fetch y) (e_private e)" unfolding transfers_ok_def by blast
  then obtain c where c: "f_ctxs (y_fetch y) (e_private e) = Some c"
    using sys_inv_tasks(2) [OF inv] by blast
  then have "raw_ctx (e_private e) (y_fetch y) = Inr c" "\<not> c_done c"
    using e by (simp_all add: raw_ctx_Inr finished_def)
  moreover have "h' = h" if "h' \<in> set (f_multi (y_fetch y))" "f_easys (y_fetch y) h' = Some e'"
    "e_private e' = e_private e" for h' e'
    using ok assms(4) that e(1) unfolding transfers_ok_def inj_on_def by auto
  ultimately show ?thesis using e(1-3) by blast
qed

theorem transfers_point_to_own_task_witness:
  "\<exists>y e c. run_of (fetch_step lb lb_live jv rfc4648 env0) (sys0 fetcher0) y [1] [] \<and>
     f_multi (y_fetch y) = [1] \<and> f_easys (y_fetch y) 1 = Some e \<and> raw_ctx (e_private e) (y_fetch y) = Inr c"
proof -
  obtain y where y: "run_of (fetch_step lb lb_live jv rfc4648 env0) (sys0 fetcher0) y [1] []"
    "f_multi (y_fetch y) = [1]" using run_started by blast
  have "1 \<in> set (f_multi (y_fetch y))" by (simp add: y(2))
  from transfers_point_to_own_task [OF fetcher0_ok good_env0 y(1) this] y show ?thesis by blast
qed

text \<open>C15: A task whose resolution failed is never reported: once it is given up it is in none of the
  lists of the program again, and no answer of \<open>/result\<close>, then or later, holds it.\<close>

theorem failed_tasks_never_reported:
  assumes "Fetcher L = Inr s" and "good_env E"
    and "run_of (fetch_step L live J B E) (sys0 s) y reg called"
    and "run_of (fetch_step L live J B E) y z reg' called'" and "p \<in> set (y_failed y)"
  shows "phase z p = Failed \<and> p \<notin># sys_pending z \<and>
    (\<exists>out. y_reported z = y_reported y @ out \<and> p \<notin> set out)"
proof -
  have inv: "sys_inv y" using reach_inv [OF assms(1-3)] .
  have inv': "sys_inv z" using tasks.run_inv [OF assms(4)] inv assms(2) by blast
  have p: "p \<in> set (y_failed z)" and out: "\<exists>out. y_reported z = y_reported y @ out \<and> p \<notin> set out"
    using run_failed [OF assms(4,2) inv] assms(5) by blast+
  have "p \<notin># sys_pending z"
    using sys_inv_waiting_only(2) [OF inv'] sys_inv_tasks(3) [OF inv'] p by (auto simp: sys_pending_def)
  with phase_failed [OF inv' p] out show ?thesis by blast
qed

theorem failed_tasks_never_reported_witness:
  "\<exists>y. run_of (fetch_step lb lb_live jv rfc4648 env0) (sys0 fetcher0) y [1] [1] \<and> y_failed y = [1] \<and>
     phase y 1 = Failed \<and> 1 \<notin># sys_pending y"
proof -
  obtain y where y: "run_of (fetch_step lb lb_live jv rfc4648 env0) (sys0 fetcher0) y [1] [1]"
    "y_failed y = [1]" using run_given_up by blast
  have "1 \<in> set (y_failed y)" by (simp add: y(2))
  from failed_tasks_never_reported [OF fetcher0_ok good_env0 y(1) run_refl this] y show ?thesis by blast
qed

text \<open>A turn of the loop always ends well: whatever closures the batch holds, all of them run,
  none fails, every transfer they start is running afterwards, every waiting request for results
  has its answer, and an answer among them hands out every task that was done.\<close>

theorem closures_all_run:
  assumes "json_laws J mems items" and "Fetcher L = Inr s" and "good_env E"
    and "run_of (fetch_step L live J B E) (sys0 s) y reg called" and "y_batch y = map AsyncCall cbs"
  shows "\<exists>z called'. run_of (fetch_step L live J B E) y z [] called' \<and> y_batch z = [] \<and>
    (\<forall>p. StartTransfer p \<in> set cbs \<longrightarrow> phase z p = Running) \<and>
    (\<forall>q. CollectDone q \<in> set cbs \<longrightarrow> f_promises (y_fetch z) q \<noteq> None) \<and>
    (\<forall>p q. phase y p = Done \<and> CollectDone q \<in> set cbs \<longrightarrow> p \<in> set called')"
proof -
  have inv: "sys_inv y" using reach_inv [OF assms(2-4)] .
  have "queue_inv (sys0 s)" using sys_init_inv(6,7) [OF assms(2)] by (simp add: queue_inv_def async_calls_def)
  with reach_queue [OF assms(4,3) sys_init_inv(1) [OF assms(2)]] have "queue_inv y" by blast
  then have "\<forall>cb \<in> set cbs. queued_kind cb"
    using assms(5) by (auto simp: queue_inv_def async_calls_def)
  from batch_runs [OF assms(1,3) inv this assms(5), of L live B] show ?thesis by blast
qed

theorem closures_all_run_witness:
  "\<exists>y z called. y_batch y = [AsyncCall (StartTransfer 1)] \<and>
     run_of (fetch_step lb lb_live jv rfc4648 env0) y z [] called \<and> y_batch z = [] \<and> phase z 1 = Running"
proof -
  obtain y where y: "run_of (fetch_step lb lb_live jv rfc4648 env0) (sys0 fetcher0) y [1] []"
    "y_batch y = map AsyncCall [StartTransfer 1]" using run_batch by force
  from closures_all_run [OF jv.json_laws_axioms fetcher0_ok good_env0 y(1,2)] y(2) show ?thesis by force
qed



end
