(* ===== verification/Fetcher_Safe.thy ===== *)
theory Fetcher_Safe
  imports Fetcher_Life
begin

text \<open>
  That the whole program of \<open>Fetcher/Fetcher.cpp\<close> does not fail: the invariant of the tasks
  (\<open>Fetcher_Tasks\<close>) and that of the event handles (\<open>Fetcher_Handles\<close>) together, kept by every step
  of the three threads, and for each kind of step that it can be taken. The steps that can fail,
  and the destructor, are at the end.
\<close>

section \<open>The closures of the handles\<close>

definition closure_ok :: "fetcher_cb handle \<Rightarrow> bool" where
  "closure_ok hh \<longleftrightarrow> (case h_type hh of
      kTimer \<Rightarrow> h_timer_cb hh \<in> {Some DrainAsync, Some (ClientTimer MultiTimer), Some (ClientTimer Stats)}
    | kFd \<Rightarrow> \<exists>h. h_fd_cb hh = Some (SocketEvent h))"

definition closures_ok :: "(fetcher_cb, 'eb) event_server \<Rightarrow> bool" where
  "closures_ok es \<longleftrightarrow> (\<forall>h hh. es_handles es h = Some hh \<longrightarrow> closure_ok hh)"

lemma closures_sub: "es_handles es' \<subseteq>\<^sub>m es_handles es \<Longrightarrow> closures_ok es \<Longrightarrow> closures_ok es'"
  unfolding closures_ok_def map_le_def by (metis domI)

lemma handles_sub:
  "start L h ms es = Inr es' \<Longrightarrow> es_handles es' \<subseteq>\<^sub>m es_handles es"
  "stop L h es = Inr es' \<Longrightarrow> es_handles es' \<subseteq>\<^sub>m es_handles es"
  "remove L h es = Inr es' \<Longrightarrow> es_handles es' \<subseteq>\<^sub>m es_handles es"
  "add_async L cb es = Inr es' \<Longrightarrow> es_handles es' \<subseteq>\<^sub>m es_handles es"
  by (auto simp: start_def stop_def remove_def add_async_def Let_def es_simps map_le_def split: if_splits)

lemma closures_new:
  "add_fd L fd flags (SocketEvent h) es = (es', k) \<Longrightarrow> closures_ok es \<Longrightarrow> closures_ok es'"
  "add_timer L (ClientTimer MultiTimer) flags es = (es', k) \<Longrightarrow> closures_ok es \<Longrightarrow> closures_ok es'"
  "add_timer L (ClientTimer Stats) flags es = (es', k) \<Longrightarrow> closures_ok es \<Longrightarrow> closures_ok es'"
  by (auto simp: add_fd_def add_timer_def new_handle_def Let_def closures_ok_def closure_ok_def
      split: prod.splits if_splits)

lemma new_socket_closures:
  "new_socket_ctx L h sock s = (t, a) \<Longrightarrow> closures_ok (f_es s) \<Longrightarrow> closures_ok (f_es t)"
  by (auto simp: new_socket_ctx_def Let_def split: prod.splits dest!: closures_new(1))

lemma socket_cb_closures:
  assumes "socket_cb L h sock w socketp s = Inr t" and "closures_ok (f_es s)"
  shows "closures_ok (f_es t)"
proof -
  obtain s1 a where s1: "(case socketp of None \<Rightarrow> new_socket_ctx L h sock s | Some a \<Rightarrow> (s, a)) = (s1, a)"
    by fastforce
  then have c1: "closures_ok (f_es s1)"
    using assms(2) by (auto split: option.splits dest: new_socket_closures)
  with assms(1) s1 show ?thesis
    by (auto simp: socket_cb_def bind_outcome_Inr_iff es_do_Inr split: option.splits if_splits
        dest!: handles_sub) (blast intro: closures_sub)+
qed

lemma timer_cb_closures:
  "Fetcher.timer_cb L ms s = Inr t \<Longrightarrow> closures_ok (f_es s) \<Longrightarrow> closures_ok (f_es t)"
  by (auto simp: timer_cb_def es_do_Inr split: option.splits if_splits prod.splits
      dest!: closures_new(2) handles_sub intro: closures_sub)

lemma perform_closures:
  assumes "perform L act s = Inr t" and "closures_ok (f_es s)"
  shows "closures_ok (f_es t)"
  using assms by (cases act)
    (auto simp: bind_outcome_Inr_iff set_ctx_def split: option.splits intro: socket_cb_closures timer_cb_closures)

lemma performs_closures:
  "fold_outcome (perform L) acts s = Inr t \<Longrightarrow> closures_ok (f_es s) \<Longrightarrow> closures_ok (f_es t)"
  by (erule fold_outcome_invariant) (auto intro: perform_closures)

lemma fold_outcome_one: "fold_outcome f [x] s = f x s"
  by (cases "f x s") simp_all

section \<open>What the operations do to the handles\<close>

definition same_socks :: "('j, 'eb) fetcher \<Rightarrow> ('j, 'eb) fetcher \<Rightarrow> bool" where
  "same_socks s t \<longleftrightarrow> f_socks t = f_socks s \<and> f_next_sock t = f_next_sock s \<and>
     f_assigned t = f_assigned s \<and> f_timer t = f_timer s \<and> f_stats_timer t = f_stats_timer s"

lemma handles_frame:
  "handles_ok live active (s\<lparr>f_es := f_es t\<rparr>) \<Longrightarrow> same_socks s t \<Longrightarrow> handles_ok live active t"
  by (simp add: handles_ok_def socks_ok_def uses_ok_def same_socks_def)

lemma handles_frame_es:
  "handles_ok live active s \<Longrightarrow> same_socks s t \<Longrightarrow> f_es t = f_es s \<Longrightarrow> handles_ok live active t"
  by (simp add: handles_ok_def socks_ok_def uses_ok_def same_socks_def)

lemma resolver_cb_socks:
  assumes "resolver_cb L E p addrs st s = Inr t"
  shows "same_socks s t \<and> (f_es t = f_es s \<or> add_async L (StartTransfer p) (f_es s) = Inr (f_es t))"
  using assms
  by (auto simp: resolver_cb_def bind_outcome_Inr_iff read_ms_def read_clock_def read_rand_def Let_def
      set_ctx_def es_do_Inr same_socks_def split: if_splits)

lemma resolver_cb_total:
  assumes "f_ctxs s p = Some c" and "is_ok st \<longrightarrow> addrs \<noteq> []"
    and "\<exists>es. add_async L (StartTransfer p) (f_es s) = Inr es"
  shows "\<exists>t. resolver_cb L E p addrs st s = Inr t"
  using assms
  by (auto simp: resolver_cb_def get_ctx_def read_ms_def read_clock_def read_rand_def Let_def set_ctx_def es_do_def)

text \<open>\<open>add\<close> in terms of what the resolver answers at once.\<close>

lemma add_unfold:
  assumes "f_ctxs s p = Some c"
  obtains tv r calls s1 where "resolve tv (u_host (c_uri c)) p (f_resolver s) = (r, calls)"
    "calls = [] \<or> (\<exists>addrs st. calls = [(p, addrs, st)])"
    "add L E p s = fold_outcome (\<lambda>(q, addrs, st). resolver_cb L E q addrs st) calls s1"
    "same_socks s s1" "f_es s1 = f_es s" "p \<in> dom (f_ctxs s1)"
proof -
  let ?s = "snd (read_clock E (set_ctx p (c\<lparr>c_start_req_time_ms := Some (fst (read_ms E s))\<rparr>) (snd (read_ms E s))))"
  let ?tv = "fst (read_clock E (set_ctx p (c\<lparr>c_start_req_time_ms := Some (fst (read_ms E s))\<rparr>) (snd (read_ms E s))))"
  obtain r calls where res: "resolve ?tv (u_host (c_uri c)) p (f_resolver s) = (r, calls)" by fastforce
  have rs: "f_resolver ?s = f_resolver s" by (simp add: read_clock_def read_ms_def set_ctx_def)
  show thesis
    by (rule that [OF res resolve_calls_one [OF res], of "?s\<lparr>f_resolver := r\<rparr>"])
      (use assms res in \<open>simp_all add: add_def get_ctx_def Let_def split_def rs,
        simp_all add: same_socks_def read_clock_def read_ms_def set_ctx_def\<close>)
qed

lemma ev_cb_async_handle: "EventServer.ev_cb fd fl arg es = Inr (es', calls) \<Longrightarrow> es_async_handle es' = es_async_handle es"
  by (auto simp: EventServer.ev_cb_def split: option.splits handle_type.splits timer_cb.splits)

fun call_ok :: "fetcher_cb call \<Rightarrow> bool" where
  "call_ok (AsyncCall (StartTransfer p)) = True"
| "call_ok (AsyncCall (CollectDone q)) = True"
| "call_ok (FdCall (SocketEvent h) sock events) = True"
| "call_ok (TimerCall MultiTimer) = True"
| "call_ok (TimerCall Stats) = True"
| "call_ok _ = False"

lemma call_ok_async: "call_ok (AsyncCall cb) \<longleftrightarrow> queued_kind cb"
  by (cases cb) (simp_all add: queued_kind_def)

lemma ev_cb_calls:
  assumes "EventServer.ev_cb fd fl arg es = Inr (es', calls)" and "closures_ok es"
    and "\<forall>cb \<in> set (es_async_callbacks es). queued_kind cb" and "c \<in> set calls"
  shows "call_ok c"
proof -
  obtain hh where hh: "es_handles es arg = Some hh" using assms(1) by (auto simp: EventServer.ev_cb_def split: option.splits)
  then have "closure_ok hh" using assms(2) unfolding closures_ok_def by blast
  with assms(1,3,4) hh show ?thesis
    by (cases "h_type hh") (auto simp: EventServer.ev_cb_def closure_ok_def call_ok_async)
qed

context libevent_total
begin

lemma async_total: "handles_ok live active s \<Longrightarrow> \<exists>es. add_async L cb (f_es s) = Inr es"
  using sound_add_async [of "f_es s" cb] by (simp add: handles_ok_def)

lemma async_ok:
  assumes "handles_ok live active s" and "add_async L cb (f_es s) = Inr es"
  shows "handles_ok live active (s\<lparr>f_es := es\<rparr>)"
proof (rule handles_ok_es [OF assms(1)])
  show "es_sound live active es"
    using sound_step [OF es_async [OF assms(2)]] assms(1) unfolding handles_ok_def by blast
  show "es_owned es = es_owned (f_es s)"
    using assms(2) by (auto simp: add_async_def Let_def es_simps es_owned_def)
qed

lemma resolver_cb_safe:
  assumes "resolver_cb L E p addrs st s = Inr t" and "handles_ok live active s" "closures_ok (f_es s)"
  shows "handles_ok live active t \<and> closures_ok (f_es t)"
proof -
  note r = resolver_cb_socks [OF assms(1)]
  from r show ?thesis
  proof (elim conjE disjE)
    assume "same_socks s t" "f_es t = f_es s"
    with handles_frame_es [OF assms(2)] assms(3) show ?thesis by simp
  next
    assume st: "same_socks s t" and es: "add_async L (StartTransfer p) (f_es s) = Inr (f_es t)"
    show ?thesis
      using handles_frame [OF async_ok [OF assms(2) es] st] closures_sub [OF handles_sub(4) [OF es] assms(3)] ..
  qed
qed

lemma add_safe:
  assumes "add L E p s = Inr t" and ok: "handles_ok live active s" "closures_ok (f_es s)"
  shows "handles_ok live active t \<and> closures_ok (f_es t)"
proof -
  obtain c where c: "f_ctxs s p = Some c" using assms(1) by (auto simp: add_def bind_outcome_Inr_iff get_ctx_Inr)
  obtain tv r calls s1 where a: "calls = [] \<or> (\<exists>addrs st. calls = [(p, addrs, st)])"
    "add L E p s = fold_outcome (\<lambda>(q, addrs, st). resolver_cb L E q addrs st) calls s1"
    "same_socks s s1" "f_es s1 = f_es s"
    by (rule add_unfold [OF c, of L E])
  have s1: "handles_ok live active s1" "closures_ok (f_es s1)"
    using handles_frame_es [OF ok(1) a(3,4)] ok(2) a(4) by auto
  show ?thesis using a(1)
  proof
    assume "calls = []"
    with a(2) assms(1) s1 show ?thesis by simp
  next
    assume "\<exists>addrs st. calls = [(p, addrs, st)]"
    then obtain addrs st where "calls = [(p, addrs, st)]" by blast
    with a(2) assms(1) have "resolver_cb L E p addrs st s1 = Inr t" by (simp add: fold_outcome_one del: fold_outcome.simps)
    from resolver_cb_safe [OF this s1] show ?thesis .
  qed
qed

lemma fire_ok:
  assumes ok: "handles_ok live active s" and l: "live (es_eb (f_es s)) ev = Some (fd, flags, h)"
    and run: "EventServer.ev_cb fd fl h ((f_es s)\<lparr>es_eb := le_take L (es_eb (f_es s)) ev\<rparr>) = Inr (es', calls)"
  shows "handles_ok live active (s\<lparr>f_es := es'\<rparr>) \<and> es_handles es' = es_handles (f_es s)"
proof -
  have h: "es_handles es' = es_handles (f_es s)" "es_async_handle es' = es_async_handle (f_es s)"
    using ev_cb_handles [OF run] ev_cb_async_handle [OF run] by simp_all
  have "es_sound live active es'"
    using sound_step [OF es_fire [where L = L and live = live and es = "f_es s" and ev = ev, OF l run]] ok unfolding handles_ok_def by blast
  with ok h show ?thesis by (auto intro!: handles_ok_es simp: es_owned_def)
qed

lemma fire_total:
  assumes "handles_ok live active s" and "live (es_eb (f_es s)) ev = Some (fd, flags, h)"
  shows "\<exists>es' calls. EventServer.ev_cb fd fl h ((f_es s)\<lparr>es_eb := le_take L (es_eb (f_es s)) ev\<rparr>) = Inr (es', calls)"
  using sound_fire [OF _ assms(2)] assms(1) unfolding handles_ok_def by blast

end

section \<open>Transfers\<close>

text \<open>What libcurl calls back for the transfers it runs finds its context.\<close>

definition ready ::
  "('eb \<Rightarrow> nat \<rightharpoonup> registration) \<Rightarrow> ('eb \<Rightarrow> nat set) \<Rightarrow> ('j, 'eb) fetcher \<Rightarrow> bool" where
  "ready live active s \<longleftrightarrow> handles_ok live active s \<and> closures_ok (f_es s) \<and> transfers_ok s \<and>
     set (f_tasks s) \<subseteq> dom (f_ctxs s)"

lemma ready_transfer:
  assumes "ready live active s" and "h \<in> set (f_multi s)"
  obtains e c where "f_easys s h = Some e" "raw_ctx (e_private e) s = Inr c" "e_headerdata e = e_private e"
    "e_writedata e = e_private e"
proof -
  from assms obtain e where e: "f_easys s h = Some e" "e_headerdata e = e_private e"
    "e_writedata e = e_private e" "e_private e \<in> set (f_tasks s)"
    unfolding ready_def transfers_ok_def by blast
  then obtain c where "f_ctxs s (e_private e) = Some c" using assms(1) unfolding ready_def by blast
  with e that show thesis by (simp add: raw_ctx_Inr)
qed

lemma ready_places:
  "ready live active s \<Longrightarrow> same_places s t \<Longrightarrow> transfers_ok t \<Longrightarrow> handles_ok live active t \<Longrightarrow>
   closures_ok (f_es t) \<Longrightarrow> ready live active t"
  by (simp add: ready_def same_places_def)

lemma legal_action_multi: "f_multi t = f_multi s \<Longrightarrow> legal_action t = legal_action s"
  by (rule ext) (simp add: legal_action_def split: curl_action.split)

lemma set_ctx_socks: "same_socks s (set_ctx p c s)" "f_es (set_ctx p c s) = f_es s"
  by (simp_all add: same_socks_def set_ctx_def)

context libevent_total
begin

lemma perform_ready:
  assumes r: "ready live active s" and "legal_action s act"
  shows "\<exists>t. perform L act s = Inr t \<and> ready live active t"
proof -
  have h: "handles_ok live active s" "closures_ok (f_es s)" "transfers_ok s" using r by (simp_all add: ready_def)
  have data: "ready live active (set_ctx p c' s)"
    if "perform L act s = Inr (set_ctx p c' s)" for p c'
    using perform_places [OF that] h by (intro ready_places [OF r])
      (auto intro: handles_frame_es [OF h(1) set_ctx_socks] simp: set_ctx_socks)
  show ?thesis
  proof (cases act)
    case (Header k b)
    then have "k \<in> set (f_multi s)" using assms(2) by (simp add: legal_action_def)
    from r this obtain e c where e: "f_easys s k = Some e" "raw_ctx (e_private e) s = Inr c"
      "e_headerdata e = e_private e" by (rule ready_transfer)
    then obtain p c' where "perform L act s = Inr (set_ctx p c' s)" by (simp add: Header)
    with data show ?thesis by blast
  next
    case (Body k b)
    then have "k \<in> set (f_multi s)" using assms(2) by (simp add: legal_action_def)
    from r this obtain e c where e: "f_easys s k = Some e" "raw_ctx (e_private e) s = Inr c"
      "e_writedata e = e_private e" by (rule ready_transfer)
    then obtain p c' where "perform L act s = Inr (set_ctx p c' s)" by (simp add: Body)
    with data show ?thesis by blast
  next
    case (Socket k sock w)
    then have "event_action act" using assms(2) by (simp add: legal_action_def)
    from perform_event_ok [OF h(1) this] obtain t where t: "perform L act s = Inr t" "handles_ok live active t" by blast
    with perform_places [OF t(1)] perform_closures [OF t(1) h(2)] ready_places [OF r] h(3) show ?thesis by blast
  next
    case (Timer ms)
    then have "event_action act" using assms(2) by (simp add: legal_action_def)
    from perform_event_ok [OF h(1) this] obtain t where t: "perform L act s = Inr t" "handles_ok live active t" by blast
    with perform_places [OF t(1)] perform_closures [OF t(1) h(2)] ready_places [OF r] h(3) show ?thesis by blast
  qed
qed

lemma performs_ready:
  "ready live active s \<Longrightarrow> list_all (legal_action s) acts \<Longrightarrow>
   \<exists>t. fold_outcome (perform L) acts s = Inr t \<and> ready live active t \<and> f_multi t = f_multi s"
proof (induction acts arbitrary: s)
  case Nil
  then show ?case by simp
next
  case (Cons act acts)
  then obtain u where u: "perform L act s = Inr u" "ready live active u"
    using perform_ready [OF Cons.prems(1), of act] Cons.prems(2) by auto
  have m: "f_multi u = f_multi s" using perform_places [OF u(1)] by blast
  then have "list_all (legal_action u) acts"
    using Cons.prems(2) by (simp add: legal_action_multi [OF m])
  from Cons.IH [OF u(2) this] u(1) m show ?case by auto
qed

lemma events_ready:
  assumes "ready live active s" and "list_all event_action acts"
  shows "\<exists>t. fold_outcome (perform L) acts s = Inr t \<and> ready live active t \<and> f_multi t = f_multi s"
  using performs_ready [OF assms(1), of acts] assms(2)
  by (auto simp: list_all_iff legal_action_def event_action_def split: curl_action.splits)

lemma handle_msg_ready:
  assumes r: "ready live active s" and acts: "list_all event_action acts" and h: "m_easy m \<in> set (f_multi s)"
  shows "\<exists>t. handle_msg L E acts m s = Inr t \<and> ready live active t"
proof -
  have ok: "handles_ok live active s" "closures_ok (f_es s)" "transfers_ok s" using r by (simp_all add: ready_def)
  from r h obtain e c where e: "f_easys s (m_easy m) = Some e" "raw_ctx (e_private e) s = Inr c"
    by (rule ready_transfer)
  obtain t where t: "handle_msg L E acts m s = Inr t" "handles_ok live active t" "closures_ok (f_es t)"
  proof (cases "m_done m")
    case False
    then have "handle_msg L E acts m s = Inr (set_ctx (e_private e) (c\<lparr>c_resp_code := m_code m\<rparr>) s)"
      using e by (simp add: handle_msg_def Let_def)
    then show thesis by (rule that) (use ok in \<open>simp_all add: handles_frame_es [OF ok(1) set_ctx_socks] set_ctx_socks\<close>)
  next
    case True
    obtain p d u where u: "u = (set_ctx p d (snd (read_ms E s)))\<lparr>f_multi := List.removeAll (m_easy m) (f_multi s)\<rparr>"
      "handle_msg L E acts m s = bind_outcome (fold_outcome (perform L) acts u)
        (\<lambda>s3. Inr (s3\<lparr>f_easys := (f_easys s3)(m_easy m := None)\<rparr>))"
      using True e by (simp add: handle_msg_def Let_def split_def)
        (simp add: read_ms_def read_clock_def set_ctx_def)
    have su: "same_socks s u" "f_es u = f_es s"
      by (simp_all add: u(1) same_socks_def read_ms_def read_clock_def set_ctx_def)
    obtain s3 where s3: "fold_outcome (perform L) acts u = Inr s3" "handles_ok live active s3"
      using perform_events_ok [OF handles_frame_es [OF ok(1) su] acts] by blast
    have "closures_ok (f_es s3)" using performs_closures [OF s3(1)] ok(2) su(2) by simp
    with u(2) s3 show thesis
      by (intro that [of "s3\<lparr>f_easys := (f_easys s3)(m_easy m := None)\<rparr>"])
        (auto intro: handles_frame_es [OF s3(2)] simp: same_socks_def)
  qed
  with handle_msg_places [OF t(1) acts ok(3) h] ready_places [OF r] show ?thesis by blast
qed

lemma check_multi_info_ready:
  "ready live active s \<Longrightarrow> \<forall>h. list_all event_action (rx_remove_handle react h) \<Longrightarrow>
   distinct (map m_easy msgs) \<Longrightarrow> m_easy ` set msgs \<subseteq> set (f_multi s) \<Longrightarrow>
   \<exists>t. check_multi_info L E react msgs s = Inr t \<and> ready live active t"
proof (induction msgs arbitrary: s)
  case Nil
  then show ?case by (simp add: check_multi_info_def)
next
  case (Cons m msgs)
  let ?acts = "rx_remove_handle react (m_easy m)"
  have h: "list_all event_action ?acts" "m_easy m \<in> set (f_multi s)" using Cons.prems(2,4) by simp_all
  obtain u where u: "handle_msg L E ?acts m s = Inr u" "ready live active u"
    using handle_msg_ready [OF Cons.prems(1) h] by blast
  have "transfers_ok s" using Cons.prems(1) by (simp add: ready_def)
  from handle_msg_places [OF u(1) h(1) this h(2)]
  have "set (f_multi s) - {m_easy m} \<subseteq> set (f_multi u)" by blast
  moreover have "m_easy ` set msgs \<subseteq> set (f_multi s) - {m_easy m}" "distinct (map m_easy msgs)"
    using Cons.prems(3,4) by (simp_all add: subset_Diff_insert)
  ultimately obtain t where "check_multi_info L E react msgs u = Inr t" "ready live active t"
    using Cons.IH [OF u(2) Cons.prems(2)] by blast
  with u(1) show ?case by (auto simp: check_multi_info_def)
qed

lemma reaction_ready:
  assumes r: "ready live active s" and legal: "legal_reaction s react"
    and rx: "rx_socket_action react sock w = (acts, msgs, n)"
  shows "\<exists>u t. fold_outcome (perform L) acts s = Inr u \<and> check_multi_info L E react msgs u = Inr t \<and>
    ready live active t"
proof -
  have l: "legal_socket_action s (acts, msgs, n)" "\<forall>h. list_all event_action (rx_remove_handle react h)"
    using legal rx unfolding legal_reaction_def by metis+
  then obtain u where u: "fold_outcome (perform L) acts s = Inr u" "ready live active u" "f_multi u = f_multi s"
    using performs_ready [OF r, of acts] by (auto simp: legal_socket_action_def)
  have "distinct (map m_easy msgs)" "m_easy ` set msgs \<subseteq> set (f_multi u)"
    using l(1) u(3) by (auto simp: legal_socket_action_def list_all_iff)
  from check_multi_info_ready [OF u(2) l(2) this] u(1) show ?thesis by blast
qed

lemma socket_event_ready:
  assumes r: "ready live active s" and legal: "legal_reaction s react"
  shows "\<exists>t. socket_event L E react sock events s = Inr t \<and> ready live active t"
proof -
  obtain acts msgs n where rx: "rx_socket_action react sock (socket_what events) = (acts, msgs, n)"
    by (cases "rx_socket_action react sock (socket_what events)")
  obtain u v where uv: "fold_outcome (perform L) acts s = Inr u" "check_multi_info L E react msgs u = Inr v"
    "ready live active v" using reaction_ready [OF r legal rx] by blast
  show ?thesis
  proof (cases "f_timer v = None \<or> n \<noteq> 0")
    case True
    then have "socket_event L E react sock events s = Inr v"
      using uv(1,2) rx by (auto simp: socket_event_def split: option.splits)
    with uv(3) show ?thesis by blast
  next
    case False
    then obtain h where h: "f_timer v = Some h" "n = 0" by auto
    have ok: "handles_ok live active v" using uv(3) by (simp add: ready_def)
    obtain t where t: "es_do (stop L h) v = Inr t" "handles_ok live active t"
      using es_stop_ok [OF ok timer_owned [OF ok h(1)]] by blast
    have st: "same_tasks v t" using t(1) by (rule es_do_same_tasks) (rule queue_same(2))
    have "closures_ok (f_es t)"
      using t(1) uv(3) closures_sub [OF handles_sub(2)] by (auto simp: es_do_Inr ready_def)
    then have "ready live active t"
      using ready_places [OF uv(3) same_tasks_places [OF st]] same_tasks_transfers [OF st] t(2) uv(3)
      by (simp add: ready_def)
    moreover have "socket_event L E react sock events s = Inr t"
      using uv(1,2) rx h t(1) by (simp add: socket_event_def)
    ultimately show ?thesis by blast
  qed
qed

lemma timer_event_ready:
  assumes "ready live active s" and "legal_reaction s react"
  shows "\<exists>t. timer_event L E react s = Inr t \<and> ready live active t"
proof -
  obtain acts msgs n where rx: "rx_socket_action react CURL_SOCKET_TIMEOUT 0 = (acts, msgs, n)"
    by (cases "rx_socket_action react CURL_SOCKET_TIMEOUT 0")
  from reaction_ready [OF assms rx, of E] show ?thesis by (auto simp: timer_event_def rx)
qed

lemma start_transfer_safe:
  assumes h: "handles_ok live active s" "closures_ok (f_es s)" and c: "f_ctxs s p = Some c"
    and acts: "list_all event_action acts"
  shows "\<exists>t. start_transfer L E acts p s = Inr t \<and> handles_ok live active t \<and> closures_ok (f_es t)"
proof -
  have run: "\<exists>t. bind_outcome (fold_outcome (perform L) as u) (\<lambda>s3. Inr (s3\<lparr>f_tasks := f_tasks s3 @ [p]\<rparr>)) = Inr t \<and>
      handles_ok live active t \<and> closures_ok (f_es t)"
    if as: "list_all event_action as" and u: "same_socks s u" "f_es u = f_es s" for as u
  proof -
    obtain v where v: "fold_outcome (perform L) as u = Inr v" "handles_ok live active v"
      using perform_events_ok [OF handles_frame_es [OF h(1) u] as] by blast
    moreover have "closures_ok (f_es v)" using performs_closures [OF v(1)] h(2) u(2) by simp
    ultimately show ?thesis
      by (auto intro: handles_frame_es [OF v(2)] simp: same_socks_def)
  qed
  let ?s1 = "set_ctx p (c\<lparr>c_sub_ctx := Some (context_lists c)\<rparr>) s"
  show ?thesis
  proof (cases "en_easy_init E (f_easys ?s1)")
    case None
    with run [of "[]" ?s1] c show ?thesis by (simp add: start_transfer_def get_ctx_def Let_def set_ctx_socks)
  next
    case (Some k)
    let ?s2 = "?s1\<lparr>f_easys := (f_easys ?s1)(k \<mapsto> easy_options p c (context_lists c)), f_tick := Suc (f_tick ?s1)\<rparr>"
    have s2: "same_socks s ?s2" "f_es ?s2 = f_es s" "same_socks s (?s2\<lparr>f_multi := ms\<rparr>)"
      "f_es (?s2\<lparr>f_multi := ms\<rparr>) = f_es s" for ms
      by (simp_all add: same_socks_def set_ctx_def)
    show ?thesis
    proof (cases "en_add_handle E (f_tick ?s1)")
      case True
      with Some c run [OF acts s2(3,4)] show ?thesis
        by (simp add: start_transfer_def get_ctx_def Let_def)
    next
      case False
      with Some c run [of "[]", OF _ s2(1,2)] show ?thesis
        by (simp add: start_transfer_def get_ctx_def Let_def)
    qed
  qed
qed

end

section \<open>The invariant of the whole program\<close>

definition safe_inv ::
  "('eb \<Rightarrow> nat \<rightharpoonup> registration) \<Rightarrow> ('eb \<Rightarrow> nat set) \<Rightarrow> ('j, 'eb) sys \<Rightarrow> bool" where
  "safe_inv live active y \<longleftrightarrow> sys_inv y \<and> queue_inv y \<and> handles_ok live active (y_fetch y) \<and>
     closures_ok (f_es (y_fetch y)) \<and> (\<forall>c \<in> set (y_batch y). call_ok c)"

lemma safe_invD:
  assumes "safe_inv live active y"
  shows "sys_inv y" "queue_inv y" "handles_ok live active (y_fetch y)" "closures_ok (f_es (y_fetch y))"
    "c \<in> set (y_batch y) \<Longrightarrow> call_ok c" "ready live active (y_fetch y)"
proof -
  show *: "sys_inv y" "queue_inv y" "handles_ok live active (y_fetch y)" "closures_ok (f_es (y_fetch y))"
    "c \<in> set (y_batch y) \<Longrightarrow> call_ok c" using assms unfolding safe_inv_def by blast+
  show "ready live active (y_fetch y)"
    using * sys_inv_simps(4) [OF *(1)] sys_inv_tasks(2) [OF *(1)] by (simp add: ready_def)
qed

lemma collect_socks:
  assumes "collect_done J B q s = Inr t" and "distinct (f_tasks s)"
  shows "same_socks s t" "f_es t = f_es s"
proof -
  let ?s = "s\<lparr>f_tasks := []\<rparr>"
  obtain resp u resp' busy where c: "collect_loop J B (rev (f_tasks s)) resp [] ?s = Inr (u, resp', busy)"
    "t = u\<lparr>f_tasks := busy, f_promises := (f_promises u)(q \<mapsto> resp')\<rparr>"
    using assms(1) by (auto simp: collect_done_def bind_outcome_Inr_iff)
  have "distinct (rev (f_tasks s))" using assms(2) by simp
  from collect_loop_effect [OF c(1) this] show "same_socks s t" "f_es t = f_es s"
    by (simp_all add: c(2) same_socks_def)
qed

lemma starting_ctx:
  assumes "sys_inv y" and "y_batch y = AsyncCall (StartTransfer p) # rest"
  obtains c where "f_ctxs (y_fetch y) p = Some c"
proof -
  have "p \<in># waiting y" by (simp add: waiting_def assms(2) async_calls_Cons [of "AsyncCall (StartTransfer p)"])
  from sys_inv_waiting_only(3) [OF assms(1) this] that show thesis by blast
qed

context libevent_total
begin

lemma call_total:
  assumes J: "json_laws J mems items" and safe: "safe_inv live active y"
    and batch: "y_batch y = c # rest" and react: "legal_reaction (y_fetch y) react"
  shows "\<exists>t. run_call L J B E react c (y_fetch y) = Inr t"
proof -
  note inv = safe_invD [OF safe]
  have ok: "call_ok c" using inv(5) by (simp add: batch)
  then show ?thesis
  proof (cases c rule: call_ok.cases)
    case (1 p)
    obtain d where "f_ctxs (y_fetch y) p = Some d" using batch unfolding 1 by (rule starting_ctx [OF inv(1)])
    moreover have "list_all event_action (rx_add_handle react)" using react by (simp add: legal_reaction_def)
    ultimately obtain t where "start_transfer L E (rx_add_handle react) p (y_fetch y) = Inr t"
      using start_transfer_safe [OF inv(3,4)] by blast
    with 1 show ?thesis by simp
  next
    case (2 q)
    with collect_done_ok [OF J sys_inv_tasks(1,2) [OF inv(1)]] show ?thesis by fastforce
  next
    case (3 h sock events)
    with socket_event_ready [OF inv(6) react, of E sock events] show ?thesis by auto
  next
    case 4
    with timer_event_ready [OF inv(6) react, of E] show ?thesis by auto
  qed (use ok in simp_all)
qed

lemma call_keeps:
  assumes safe: "safe_inv live active y" and batch: "y_batch y = c # rest"
    and react: "legal_reaction (y_fetch y) react" and run: "run_call L J B E react c (y_fetch y) = Inr t"
  shows "handles_ok live active t \<and> closures_ok (f_es t)"
proof -
  note inv = safe_invD [OF safe]
  have ok: "call_ok c" using inv(5) by (simp add: batch)
  then show ?thesis
  proof (cases c rule: call_ok.cases)
    case (1 p)
    obtain d where "f_ctxs (y_fetch y) p = Some d" using batch unfolding 1 by (rule starting_ctx [OF inv(1)])
    moreover have "list_all event_action (rx_add_handle react)" using react by (simp add: legal_reaction_def)
    ultimately obtain t' where "start_transfer L E (rx_add_handle react) p (y_fetch y) = Inr t'"
      "handles_ok live active t'" "closures_ok (f_es t')"
      using start_transfer_safe [OF inv(3,4)] by blast
    with run 1 show ?thesis by simp
  next
    case (2 q)
    with run have "collect_done J B q (y_fetch y) = Inr t" by simp
    note c = collect_socks [OF this sys_inv_tasks(1) [OF inv(1)]]
    from handles_frame_es [OF inv(3) c] c(2) inv(4) show ?thesis by simp
  next
    case (3 h sock events)
    obtain t' where "socket_event L E react sock events (y_fetch y) = Inr t'" "ready live active t'"
      using socket_event_ready [OF inv(6) react] by blast
    with run 3 show ?thesis by (simp add: ready_def)
  next
    case 4
    obtain t' where "timer_event L E react (y_fetch y) = Inr t'" "ready live active t'"
      using timer_event_ready [OF inv(6) react] by blast
    with run 4 show ?thesis by (simp add: ready_def)
  qed (use ok run inv(3,4) in simp_all)
qed

lemma safe_init:
  fixes s :: "('j, 'a) fetcher"
  assumes "Fetcher L = Inr s"
  shows "safe_inv live active (sys0 s)"
proof -
  obtain s' :: "('j, 'a) fetcher" where "Fetcher L = Inr s'" "handles_ok live active s'" using fetcher_init by blast
  then have h: "handles_ok live active s" using assms by simp
  obtain es0 :: "(fetcher_cb, 'a) event_server" where es0: "EventServer L = Inr es0"
    using assms by (auto simp: Fetcher_def bind_outcome_Inr_iff)
  obtain es h where eh: "add_timer L (ClientTimer Stats) PERSIST es0 = (es, h)"
    by (cases "add_timer L (ClientTimer Stats) PERSIST es0")
  with es0 assms obtain es1 where "start L h 1000 es = Inr es1" "f_es s = es1"
    by (auto simp: Fetcher_def bind_outcome_Inr_iff)
  note es = es0 eh this
  have "closures_ok es0"
    using es(1) by (auto simp: EventServer_def add_timer_def new_handle_def Let_def closures_ok_def closure_ok_def
        split: if_splits prod.splits)
  then have "closures_ok (f_es s)"
    using closures_new(3) [OF es(2)] closures_sub [OF handles_sub(1) [OF es(3)]] es(4) by simp
  moreover have "queue_inv (sys0 s)"
    using sys_init_inv(6,7) [OF assms] by (simp add: queue_inv_def async_calls_def)
  ultimately show ?thesis
    using sys_init_inv(1,7) [OF assms] h by (simp add: safe_inv_def) (simp add: sys0_def)
qed

lemma safe_step:
  assumes step: "fetch_step L live J B E y z reg called" and E: "good_env E" and safe: "safe_inv live active y"
  shows "safe_inv live active z"
proof -
  note inv = safe_invD [OF safe]
  have "sys_inv z" using fetch_step_ok [OF step inv(1) E] by blast
  moreover have "queue_inv z" using queue_step [OF step inv(1,2)] .
  moreover have "handles_ok live active (y_fetch z) \<and> closures_ok (f_es (y_fetch z)) \<and>
      (\<forall>c \<in> set (y_batch z). call_ok c)"
    using step
  proof cases
    case (f_make t c p)
    with inv(3-5) handles_frame_es [OF inv(3) set_ctx_socks] show ?thesis by (simp add: set_ctx_socks)
  next
    case (f_add p s')
    with add_safe [OF f_add(6) inv(3,4)] inv(5) show ?thesis by simp
  next
    case (f_notify accepts r' qs)
    have "same_socks (y_fetch y) ((y_fetch y)\<lparr>f_resolver := r'\<rparr>)" by (simp add: same_socks_def)
    from handles_frame_es [OF inv(3) this] inv(4,5) f_notify(1) show ?thesis by simp
  next
    case (f_reply name tv a r' calls)
    have "same_socks (y_fetch y) ((y_fetch y)\<lparr>f_resolver := r'\<rparr>)" by (simp add: same_socks_def)
    from handles_frame_es [OF inv(3) this] inv(4,5) f_reply(1) show ?thesis by simp
  next
    case (f_dns p addrs st rest s')
    with resolver_cb_safe [OF f_dns(5) inv(3,4)] inv(5) show ?thesis by simp
  next
    case (f_result q s')
    then obtain es where es: "add_async L (CollectDone q) (f_es (y_fetch y)) = Inr es"
      "s' = (y_fetch y)\<lparr>f_es := es\<rparr>" by (auto simp: get_done_tasks_req_def es_do_Inr)
    with f_result(1) async_ok [OF inv(3) es(1)] closures_sub [OF handles_sub(4) [OF es(1)] inv(4)] inv(5)
    show ?thesis by simp
  next
    case (f_fire ev fd flags h fl es' calls)
    have k: "\<forall>cb \<in> set (es_async_callbacks (f_es (y_fetch y))). queued_kind cb"
      using inv(2) by (simp add: queue_inv_def)
    have "closures_ok ((f_es (y_fetch y))\<lparr>es_eb := eb\<rparr>)" for eb using inv(4) by (simp add: closures_ok_def)
    from ev_cb_calls [OF f_fire(6) this] k have "\<forall>c \<in> set calls. call_ok c" by simp
    with fire_ok [OF inv(3) f_fire(5,6)] inv(4) f_fire(1) show ?thesis by (simp add: closures_ok_def)
  next
    case (f_call c rest react s')
    with call_keeps [OF safe f_call(3,5,4)] inv(5) show ?thesis by simp
  qed
  ultimately show ?thesis by (simp add: safe_inv_def)
qed

end

text \<open>The program is a callback service with the stronger invariant as well.\<close>

sublocale libevent_total < fetch: callback_service "fetch_step L live J B E"
    "\<lambda>y. good_env E \<and> safe_inv live active y" sys_pending
  for J :: "'j json" and B E
  using safe_step fetch_step_ok safe_invD(1) by unfold_locales blast+

section \<open>Failing steps\<close>

text \<open>
  An attempt of any kind of step that fails, with the error. What the code requires of evdns is
  among the conditions: a request for every queued name, and answers of type A.
\<close>

inductive fetch_fault ::
  "'eb libevent \<Rightarrow> ('eb \<Rightarrow> nat \<rightharpoonup> registration) \<Rightarrow> 'j json \<Rightarrow> b64 \<Rightarrow> fenv \<Rightarrow> ('j, 'eb) sys \<Rightarrow> fault \<Rightarrow> bool"
  for L live J B E
where
  x_add: "p \<in> set (y_new y) \<Longrightarrow> y_dns y = [] \<Longrightarrow> add L E p (y_fetch y) = Inl e \<Longrightarrow>
     fetch_fault L live J B E y e"
| x_notify: "y_dns y = [] \<Longrightarrow> \<forall>name \<in> set (r_tasks (f_resolver (y_fetch y))). accepts (c_str name) \<Longrightarrow>
     Resolver.ev_cb accepts (f_resolver (y_fetch y)) = Inl e \<Longrightarrow> fetch_fault L live J B E y e"
| x_reply: "y_dns y = [] \<Longrightarrow> name \<in> set (y_flight y) \<Longrightarrow> a_type a = DNS_IPv4_A \<Longrightarrow>
     res_cb (en_dns_error E) tv a name (f_resolver (y_fetch y)) = Inl e \<Longrightarrow> fetch_fault L live J B E y e"
| x_dns: "y_dns y = (p, addrs, st) # rest \<Longrightarrow> resolver_cb L E p addrs st (y_fetch y) = Inl e \<Longrightarrow>
     fetch_fault L live J B E y e"
| x_result: "get_done_tasks_req L q (y_fetch y) = Inl e \<Longrightarrow> fetch_fault L live J B E y e"
| x_fire: "y_batch y = [] \<Longrightarrow> live (es_eb (f_es (y_fetch y))) ev = Some (fd, flags, h) \<Longrightarrow>
     EventServer.ev_cb fd fl h ((f_es (y_fetch y))\<lparr>es_eb := le_take L (es_eb (f_es (y_fetch y))) ev\<rparr>) = Inl e \<Longrightarrow>
     fetch_fault L live J B E y e"
| x_call: "y_batch y = c # rest \<Longrightarrow> legal_reaction (y_fetch y) react \<Longrightarrow>
     run_call L J B E react c (y_fetch y) = Inl e \<Longrightarrow> fetch_fault L live J B E y e"

text \<open>No name is resolved to no address: neither an answer on its way nor one that is kept.\<close>

definition known_addrs :: "nat resolver \<Rightarrow> bool" where
  "known_addrs r \<longleftrightarrow> (\<forall>name i. r_infos r name = Some i \<longrightarrow> ri_state i = kDone \<longrightarrow> is_ok (ri_status i) \<longrightarrow> ri_addrs i \<noteq> [])"

definition answers_ok :: "('j, 'eb) sys \<Rightarrow> bool" where
  "answers_ok y \<longleftrightarrow> known_addrs (f_resolver (y_fetch y)) \<and>
     (\<forall>(p, addrs, st) \<in> set (y_dns y). is_ok st \<longrightarrow> addrs \<noteq> [])"

lemma resolve_addrs:
  assumes "resolve tv name cb r = (r', calls)" and "known_addrs r" and "(q, addrs, st) \<in> set calls"
  shows "is_ok st \<longrightarrow> addrs \<noteq> []"
proof -
  let ?i = "refresh (sint (now_in_secs tv)) (info_at name r)"
  from assms(1,3) have i: "ri_state ?i = kDone" "addrs = ri_addrs ?i" "st = ri_status ?i"
    by (auto simp: resolve_def Let_def split: rstate.splits)
  show ?thesis
  proof (cases "r_infos r name")
    case None
    with i(1) show ?thesis by (simp add: info_at_def refresh_def new_info_def)
  next
    case (Some k)
    with i have "ri_state k = kDone" "addrs = ri_addrs k" "st = ri_status k"
      by (auto simp: info_at_def refresh_def split: if_splits)
    with Some assms(2) show ?thesis unfolding known_addrs_def by metis
  qed
qed

lemma resolver_cb_fault:
  assumes "f_ctxs s p = Some c" and "\<exists>es. add_async L (StartTransfer p) (f_es s) = Inr es"
    and "resolver_cb L E p addrs st s = Inl e"
  shows "e = Undefined ''division by zero'' \<and> is_ok st \<and> addrs = []"
proof -
  have "is_ok st \<and> addrs = []"
  proof (rule ccontr)
    assume "\<not> (is_ok st \<and> addrs = [])"
    then have "\<exists>t. resolver_cb L E p addrs st s = Inr t" using resolver_cb_total [OF assms(1) _ assms(2)] by blast
    with assms(3) show False by simp
  qed
  with assms(1,3) show ?thesis
    by (simp add: resolver_cb_def get_ctx_def read_ms_def read_clock_def Let_def)
qed

lemma waiting_ctx:
  assumes "sys_inv y" and "p \<in># waiting y"
  obtains c where "f_ctxs (y_fetch y) p = Some c"
  using sys_inv_waiting_only(3) [OF assms] that by blast

context libevent_total
begin

lemma add_fault:
  assumes ok: "handles_ok live active s" and c: "f_ctxs s p = Some c" and e: "add L E p s = Inl e"
  shows "e = Undefined ''division by zero'' \<and> \<not> known_addrs (f_resolver s)"
proof -
  obtain tv r calls s1 where a: "resolve tv (u_host (c_uri c)) p (f_resolver s) = (r, calls)"
    "calls = [] \<or> (\<exists>addrs st. calls = [(p, addrs, st)])"
    "add L E p s = fold_outcome (\<lambda>(q, addrs, st). resolver_cb L E q addrs st) calls s1"
    "f_es s1 = f_es s" "p \<in> dom (f_ctxs s1)"
    by (rule add_unfold [OF c, of L E])
  with e obtain addrs st where calls: "calls = [(p, addrs, st)]" by auto
  with a(3) e have "resolver_cb L E p addrs st s1 = Inl e"
    by (simp add: fold_outcome_one del: fold_outcome.simps)
  moreover obtain c1 where "f_ctxs s1 p = Some c1" using a(5) by blast
  moreover have "\<exists>es. add_async L (StartTransfer p) (f_es s1) = Inr es" using async_total [OF ok] a(4) by simp
  ultimately have "e = Undefined ''division by zero'' \<and> is_ok st \<and> addrs = []" by (intro resolver_cb_fault)
  with resolve_addrs [OF a(1), of p addrs st] calls show ?thesis by auto
qed

lemma exit_fetcher:
  assumes "handles_ok live active s"
  shows "\<exists>t. es_do (exit_loop L ms) s = Inr t \<and> handles_ok live active t"
proof -
  obtain es where es: "exit_loop L ms (f_es s) = Inr es" "es_owned es = es_owned (f_es s)"
    using exit_total by (auto simp: exit_loop_def check_ne_def es_owned_def)
  from sound_step [OF es_exit [where L = L and live = live, OF es(1)]] assms
  have "es_sound live active es" by (simp add: handles_ok_def)
  with es assms show ?thesis by (auto simp: es_do_Inr intro: handles_ok_es)
qed

lemma fault_only:
  assumes "fetch_fault L live J B E y e" and J: "json_laws J mems items" and safe: "safe_inv live active y"
  shows "e = Undefined ''division by zero'' \<and> \<not> answers_ok y"
  using assms(1)
proof cases
  case (x_add p)
  then have "p \<in># waiting y" by (simp add: waiting_def)
  then obtain c where "f_ctxs (y_fetch y) p = Some c" by (rule waiting_ctx [OF safe_invD(1) [OF safe]])
  from add_fault [OF safe_invD(3) [OF safe] this x_add(3)] show ?thesis by (simp add: answers_ok_def)
next
  case (x_notify accepts)
  from ev_cb_total [OF sys_inv_simps(1) [OF safe_invD(1) [OF safe]] x_notify(2)] x_notify(3) show ?thesis
    by (metis Inl_Inr_False)
next
  case (x_reply name a tv)
  from res_cb_total [OF sys_inv_simps(1) [OF safe_invD(1) [OF safe]] x_reply(2,3), of "en_dns_error E" tv]
    x_reply(4) show ?thesis by (metis Inl_Inr_False)
next
  case (x_dns p addrs st rest)
  then have "p \<in># waiting y" by (simp add: waiting_def)
  then obtain c where "f_ctxs (y_fetch y) p = Some c" by (rule waiting_ctx [OF safe_invD(1) [OF safe]])
  from resolver_cb_fault [OF this async_total [OF safe_invD(3) [OF safe]] x_dns(2)] x_dns(1)
  show ?thesis by (auto simp: answers_ok_def)
next
  case (x_result q)
  with async_total [OF safe_invD(3) [OF safe], of "CollectDone q"] show ?thesis
    by (auto simp: get_done_tasks_req_def es_do_def)
next
  case (x_fire ev fd flags h fl)
  from fire_total [OF safe_invD(3) [OF safe] x_fire(2), of fl] x_fire(3) show ?thesis by auto
next
  case (x_call c rest react)
  from call_total [OF J safe x_call(1,2), of B E] x_call(3) show ?thesis by auto
qed

lemma reach_safe:
  assumes "Fetcher L = Inr s" and "good_env E" and "run_of (fetch_step L live J B E) (sys0 s) y reg called"
  shows "safe_inv live active y"
  using fetch.run_inv [OF assms(3)] safe_init [OF assms(1)] assms(2) by blast

end

text \<open>A name that resolves to nothing.\<close>

lemma run_empty_answer:
  "\<exists>y. run_of (fetch_step lb lb_live jv rfc4648 env0) (sys0 fetcher0) y [1] [] \<and>
     fetch_fault lb lb_live jv rfc4648 env0 y (Undefined ''division by zero'')"
proof -
  let ?i = "\<lparr>ri_resolver = True, ri_name = ''a'', ri_cbs = [Suc 0],
       ri_expire = 0, ri_status = Status, ri_addrs = [], ri_state = kInProcessing\<rparr> :: nat resolve_info"
  obtain y where y: "run_of (fetch_step lb lb_live jv rfc4648 env0) (sys0 fetcher0) y [1] []"
    "y_flight y = [''a'']" "y_dns y = []" "f_ctxs (y_fetch y) 1 \<noteq> None"
    "r_infos (f_resolver (y_fetch y)) ''a'' = Some ?i"
    using run_queried by blast
  let ?a = "answer_a\<lparr>a_addresses := []\<rparr>"
  obtain r' st where res: "res_cb (en_dns_error env0) epoch ?a ''a'' (f_resolver (y_fetch y)) = Inr (r', [(1, [], st)])"
    "is_ok st"
    by (simp add: res_cb_def y(5) Let_def answer_a_def record_answer_def DNS_ERR_NONE_def is_ok_def ok_def)
  let ?z = "y\<lparr>y_fetch := (y_fetch y)\<lparr>f_resolver := r'\<rparr>, y_flight := remove1 ''a'' (y_flight y), y_dns := [(1, [], st)]\<rparr>"
  have "''a'' \<in> set (y_flight y)" by (simp add: y(2))
  from run_more [OF y(1) f_reply [OF y(3) this res(1)], unfolded append_Nil]
  have run: "run_of (fetch_step lb lb_live jv rfc4648 env0) (sys0 fetcher0) ?z [1] []" .
  obtain c where "f_ctxs (y_fetch y) 1 = Some c" using y(4) by blast
  then have "resolver_cb lb env0 1 [] st (y_fetch ?z) = Inl (Undefined ''division by zero'')"
    using res(2) by (simp add: resolver_cb_def get_ctx_def read_ms_def read_clock_def Let_def)
  then have "fetch_fault lb lb_live jv rfc4648 env0 ?z (Undefined ''division by zero'')"
    by (intro x_dns [where y = ?z]) simp_all
  with run show ?thesis by blast
qed

section \<open>Properties\<close>

text \<open>C7: The fetcher cannot fail. In every reachable state, whatever step one of its threads attempts,
  no null or dangling pointer is touched, no check fails and no exception escapes, as long as
  libevent refuses nothing, evdns takes the requests and answers with addresses of type A, and
  libcurl keeps to the transfers and sockets it knows. The one exception is a name that resolves
  successfully to no address at all, on which \<open>rand() % addrs.size()\<close> divides by zero.\<close>

theorem fetcher_never_fails:
  assumes "libevent_total L live active armed" and "json_laws J mems items"
    and "Fetcher L = Inr s" and "good_env E"
    and "run_of (fetch_step L live J B E) (sys0 s) y reg called" and "fetch_fault L live J B E y e"
  shows "e = Undefined ''division by zero'' \<and> \<not> answers_ok y"
  using libevent_total.fault_only [OF assms(1,6,2) libevent_total.reach_safe [OF assms(1,3-5)]] .

theorem fetcher_never_fails_witness:
  "\<exists>y. run_of (fetch_step lb lb_live jv rfc4648 env0) (sys0 fetcher0) y [1] [] \<and>
     fetch_fault lb lb_live jv rfc4648 env0 y (Undefined ''division by zero'') \<and> \<not> answers_ok y"
proof -
  obtain y where y: "run_of (fetch_step lb lb_live jv rfc4648 env0) (sys0 fetcher0) y [1] []"
    "fetch_fault lb lb_live jv rfc4648 env0 y (Undefined ''division by zero'')"
    using run_empty_answer by blast
  with fetcher_never_fails [OF lb.libevent_total_axioms jv.json_laws_axioms fetcher0_ok good_env0 y] show ?thesis
    by blast
qed



end
