(* ===== verification/Fetcher_Complete.thy ===== *)
theory Fetcher_Complete
  imports Fetcher_Safe
begin

text \<open>
  That the program of \<open>Fetcher/Fetcher.cpp\<close> gets its work done. A task that runs has a transfer in
  libcurl, if it got one when it was started, until it is done; a task that got none runs for ever.
  When libcurl gives every task its transfer, every state can be continued, without new requests,
  to one where all tasks are reported or given up.
\<close>

section \<open>Tasks and their transfers\<close>

definition has_transfer :: "('j, 'eb) fetcher \<Rightarrow> nat \<Rightarrow> bool" where
  "has_transfer s p \<longleftrightarrow> (\<exists>h \<in> set (f_multi s). \<exists>e. f_easys s h = Some e \<and> e_private e = p)"

definition running :: "('j, 'eb) fetcher \<Rightarrow> nat \<Rightarrow> bool" where
  "running s p \<longleftrightarrow> p \<in> set (f_tasks s) \<and> \<not> finished s p"

text \<open>
  A running task goes on running with its transfer or is finished; one without a transfer goes on
  running without it.
\<close>

definition keeps_runs :: "('j, 'eb) fetcher \<Rightarrow> ('j, 'eb) fetcher \<Rightarrow> bool" where
  "keeps_runs s t \<longleftrightarrow> (\<forall>p. running s p \<longrightarrow>
     (has_transfer s p \<longrightarrow> finished t p \<or> running t p \<and> has_transfer t p) \<and>
     (\<not> has_transfer s p \<longrightarrow> running t p \<and> \<not> has_transfer t p))"

lemma has_transfer_same: "f_multi t = f_multi s \<Longrightarrow> f_easys t = f_easys s \<Longrightarrow> has_transfer t p = has_transfer s p"
  by (simp add: has_transfer_def)

lemma keeps_runs_frame:
  assumes "same_transfers s t" and "\<And>p. running s p \<Longrightarrow> \<not> finished t p"
  shows "keeps_runs s t"
proof -
  have "f_tasks t = f_tasks s" "has_transfer t = has_transfer s"
    using assms(1) by (auto simp: same_transfers_def has_transfer_def fun_eq_iff)
  with assms(2) show ?thesis by (auto simp: keeps_runs_def running_def)
qed

lemma keeps_runs_tasks: "same_tasks s t \<Longrightarrow> keeps_runs s t"
  by (rule keeps_runs_frame) (auto simp: same_tasks_def same_transfers_def running_def finished_def)

lemma keeps_runs_trans:
  assumes "keeps_runs s t" and "keeps_runs t u" and "same_places t u"
  shows "keeps_runs s u"
  unfolding keeps_runs_def
proof (intro allI impI)
  fix p assume r: "running s p"
  have "running u p \<and> \<not> has_transfer u p" if "\<not> has_transfer s p"
    using r that assms(1,2) unfolding keeps_runs_def by blast
  moreover have "finished u p \<or> running u p \<and> has_transfer u p" if h: "has_transfer s p"
  proof (cases "finished t p")
    case True
    with assms(3) show ?thesis by (simp add: same_places_def)
  next
    case False
    with r h assms(1) have "running t p" "has_transfer t p" unfolding keeps_runs_def by blast+
    with assms(2) show ?thesis unfolding keeps_runs_def by blast
  qed
  ultimately show "(has_transfer s p \<longrightarrow> finished u p \<or> running u p \<and> has_transfer u p) \<and>
      (\<not> has_transfer s p \<longrightarrow> running u p \<and> \<not> has_transfer u p)" by blast
qed

section \<open>What the closures do to the transfers\<close>

lemma perform_runs:
  assumes "perform L act s = Inr t"
  shows "keeps_runs s t"
proof -
  have data: "keeps_runs s (set_ctx p c' s)" if "raw_ctx p s = Inr c" "c_done c' = c_done c" for p c c'
    using set_ctx_places [of s p c c'] that by (intro keeps_runs_frame) (auto simp: raw_ctx_Inr running_def)
  show ?thesis
  proof (cases act)
    case (Header h b)
    with assms obtain e where e: "f_easys s h = Some e" by (auto split: option.splits)
    with assms Header obtain c where "raw_ctx (e_headerdata e) s = Inr c"
      "t = set_ctx (e_headerdata e) (fst (write_header_cb b 1 (of_nat (length b)) c)) s"
      by (auto simp: bind_outcome_Inr_iff)
    with data [OF this(1) write_cb_done(1)] show ?thesis by simp
  next
    case (Body h b)
    with assms obtain e where e: "f_easys s h = Some e" by (auto split: option.splits)
    with assms Body obtain c where "raw_ctx (e_writedata e) s = Inr c"
      "t = set_ctx (e_writedata e) (fst (write_body_cb b 1 (of_nat (length b)) c)) s"
      by (auto simp: bind_outcome_Inr_iff)
    with data [OF this(1) write_cb_done(2)] show ?thesis by simp
  next
    case (Socket h sock w)
    with assms show ?thesis by (auto intro: keeps_runs_tasks socket_cb_same_tasks)
  next
    case (Timer ms)
    with assms show ?thesis by (auto intro: keeps_runs_tasks timer_cb_same_tasks)
  qed
qed

lemma performs_runs: "fold_outcome (perform L) acts s = Inr t \<Longrightarrow> keeps_runs s t"
proof (induction acts arbitrary: s)
  case Nil
  then show ?case by (simp add: keeps_runs_tasks same_tasks_def)
next
  case (Cons act acts)
  then obtain u where u: "perform L act s = Inr u" "fold_outcome (perform L) acts u = Inr t"
    by (auto simp: bind_outcome_Inr_iff)
  from keeps_runs_trans [OF perform_runs [OF u(1)] Cons.IH [OF u(2)]] performs_places [OF u(2)]
  show ?case by blast
qed

text \<open>A message that ends a transfer finishes its task and takes the handle away; the other
  transfers belong to other tasks.\<close>

lemma handle_done:
  assumes run: "handle_msg L E acts m s = Inr t" and acts: "list_all event_action acts" and "m_done m"
    and e: "f_easys s (m_easy m) = Some e"
  shows "finished t (e_private e) \<and> f_multi t = List.removeAll (m_easy m) (f_multi s) \<and>
    f_easys t = (f_easys s)(m_easy m := None) \<and> f_tasks t = f_tasks s \<and>
    (\<forall>p. p \<noteq> e_private e \<longrightarrow> (finished t p \<longleftrightarrow> finished s p))"
proof -
  obtain c0 where c0: "raw_ctx (e_private e) s = Inr c0"
    using run e by (auto simp: handle_msg_def bind_outcome_Inr_iff)
  obtain c1 u where u: "u = (set_ctx (e_private e) c1 (snd (read_ms E s)))\<lparr>f_multi := List.removeAll (m_easy m) (f_multi s)\<rparr>"
    "c_done c1" "bind_outcome (fold_outcome (perform L) acts u)
      (\<lambda>s3. Inr (s3\<lparr>f_easys := (f_easys s3)(m_easy m := None)\<rparr>)) = Inr t"
  proof -
    define c1 where "c1 = (if m_result m \<noteq> 0
      then c0\<lparr>c_resp_code := m_code m, c_error_message := en_curl_strerror E (m_result m)\<rparr>
      else c0\<lparr>c_resp_code := m_code m\<rparr>)\<lparr>c_done := True, c_end_req_time_ms := Some (fst (read_ms E s))\<rparr>"
    show thesis
      by (rule that [OF refl, of c1])
        (use run e c0 assms(3) in \<open>simp_all add: handle_msg_def Let_def split_def c1_def set_ctx_def read_ms_def
          read_clock_def\<close>)
  qed
  then obtain s3 where s3: "fold_outcome (perform L) acts u = Inr s3" "t = s3\<lparr>f_easys := (f_easys s3)(m_easy m := None)\<rparr>"
    by (auto simp: bind_outcome_Inr_iff)
  have "same_tasks u s3" using acts s3(1) by (rule performs_events_same)
  with s3(2) u(1,2) show ?thesis
    by (simp add: same_tasks_def finished_def set_ctx_def read_ms_def read_clock_def split_def)
qed

lemma handle_msg_runs:
  assumes run: "handle_msg L E acts m s = Inr t" and acts: "list_all event_action acts"
    and ok: "transfers_ok s" and h: "m_easy m \<in> set (f_multi s)"
  shows "keeps_runs s t"
proof -
  from ok h obtain e where e: "f_easys s (m_easy m) = Some e" "e_private e \<in> set (f_tasks s)"
    unfolding transfers_ok_def by blast
  then obtain c0 where c0: "f_ctxs s (e_private e) = Some c0" "raw_ctx (e_private e) s = Inr c0"
    using run by (auto simp: handle_msg_def bind_outcome_Inr_iff raw_ctx_Inr)
  show ?thesis
  proof (cases "m_done m")
    case False
    with run e c0(2) have "t = set_ctx (e_private e) (c0\<lparr>c_resp_code := m_code m\<rparr>) s"
      by (simp add: handle_msg_def Let_def)
    with set_ctx_places [OF c0(1), of "c0\<lparr>c_resp_code := m_code m\<rparr>"] show ?thesis
      by (intro keeps_runs_frame) (auto simp: running_def)
  next
    case True
    note t = handle_done [OF run acts True e(1)]
    show ?thesis
      unfolding keeps_runs_def
    proof (intro allI impI)
      fix p assume r: "running s p"
      show "(has_transfer s p \<longrightarrow> finished t p \<or> running t p \<and> has_transfer t p) \<and>
        (\<not> has_transfer s p \<longrightarrow> running t p \<and> \<not> has_transfer t p)"
      proof (cases "p = e_private e")
        case True
        have "has_transfer s p" using True e(1) h by (auto simp: has_transfer_def)
        with True t show ?thesis by simp
      next
        case False
        then have "has_transfer t p = has_transfer s p" using t e(1) by (auto simp: has_transfer_def)
        with r t False show ?thesis by (simp add: running_def)
      qed
    qed
  qed
qed

lemma check_multi_info_runs:
  "check_multi_info L E react msgs s = Inr t \<Longrightarrow> \<forall>h. list_all event_action (rx_remove_handle react h) \<Longrightarrow> transfers_ok s \<Longrightarrow>
   distinct (map m_easy msgs) \<Longrightarrow> m_easy ` set msgs \<subseteq> set (f_multi s) \<Longrightarrow> keeps_runs s t"
proof (induction msgs arbitrary: s)
  case Nil
  then show ?case by (simp add: check_multi_info_def keeps_runs_tasks same_tasks_def)
next
  case (Cons m msgs)
  then obtain u where u: "handle_msg L E (rx_remove_handle react (m_easy m)) m s = Inr u"
    "check_multi_info L E react msgs u = Inr t"
    by (auto simp: check_multi_info_def bind_outcome_Inr_iff)
  have h: "m_easy m \<in> set (f_multi s)" using Cons.prems(5) by simp
  note hm = handle_msg_places [OF u(1) spec [OF Cons.prems(2)] Cons.prems(3) h]
  have "m_easy ` set msgs \<subseteq> set (f_multi s) - {m_easy m}" "distinct (map m_easy msgs)"
    using Cons.prems(4,5) by (simp_all add: subset_Diff_insert)
  with hm have sub: "m_easy ` set msgs \<subseteq> set (f_multi u)" "distinct (map m_easy msgs)" by blast+
  from Cons.IH [OF u(2) Cons.prems(2) _ sub(2,1)] hm have "keeps_runs u t" by blast
  moreover have "same_places u t" using check_multi_info_places [OF u(2) Cons.prems(2) _ sub(2,1)] hm by blast
  ultimately show ?case
    using keeps_runs_trans [OF handle_msg_runs [OF u(1) spec [OF Cons.prems(2)] Cons.prems(3) h]] by blast
qed

lemma reaction_runs:
  assumes "legal_reaction s react" and "rx_socket_action react sock w = (acts, msgs, n)" and "transfers_ok s"
    and "fold_outcome (perform L) acts s = Inr u" "check_multi_info L E react msgs u = Inr t"
  shows "keeps_runs s t"
proof -
  have legal: "legal_socket_action s (acts, msgs, n)" "\<forall>h. list_all event_action (rx_remove_handle react h)"
    using assms(1,2) unfolding legal_reaction_def by metis+
  note pf = performs_places [OF assms(4)]
  have sub: "m_easy ` set msgs \<subseteq> set (f_multi u)" "distinct (map m_easy msgs)"
    using legal(1) pf by (auto simp: legal_socket_action_def list_all_iff)
  have ok: "transfers_ok u" using pf assms(3) by blast
  from keeps_runs_trans [OF performs_runs [OF assms(4)] check_multi_info_runs [OF assms(5) legal(2) ok sub(2,1)]]
    check_multi_info_places [OF assms(5) legal(2) ok sub(2,1)] show ?thesis by blast
qed

lemma event_runs:
  assumes "socket_event L E react sock events s = Inr t \<or> timer_event L E react s = Inr t"
    and "legal_reaction s react" and "transfers_ok s"
  shows "keeps_runs s t"
  using assms(1)
proof
  assume "timer_event L E react s = Inr t"
  then obtain acts msgs n u where "rx_socket_action react CURL_SOCKET_TIMEOUT 0 = (acts, msgs, n)"
    "fold_outcome (perform L) acts s = Inr u" "check_multi_info L E react msgs u = Inr t"
    by (auto simp: timer_event_def bind_outcome_Inr_iff split: prod.splits)
  with reaction_runs [OF assms(2) _ assms(3)] show ?thesis by blast
next
  assume "socket_event L E react sock events s = Inr t"
  moreover obtain acts msgs n where r: "rx_socket_action react sock (socket_what events) = (acts, msgs, n)"
    by (cases "rx_socket_action react sock (socket_what events)")
  ultimately obtain u v where uv: "fold_outcome (perform L) acts s = Inr u" "check_multi_info L E react msgs u = Inr v"
    "t = v \<or> (\<exists>h. es_do (stop L h) v = Inr t)"
    by (auto simp: socket_event_def bind_outcome_Inr_iff split: option.splits if_splits)
  from uv(3) have "same_tasks v t"
    by (auto simp: same_tasks_def es_do_Inr queue_same(2))
  with keeps_runs_trans [OF reaction_runs [OF assms(2) r assms(3) uv(1,2)] keeps_runs_tasks same_tasks_places]
  show ?thesis by blast
qed

lemma start_transfer_runs:
  assumes run: "start_transfer L E acts p s = Inr t" and acts: "list_all event_action acts" and E: "good_env E"
    and ok: "transfers_ok s" and p: "p \<notin> set (f_tasks s)"
  shows "keeps_runs s t"
    and "(\<forall>m. en_easy_init E m \<noteq> None) \<and> (\<forall>n. en_add_handle E n) \<Longrightarrow> has_transfer t p"
proof -
  obtain t0 where t0: "start_transfer L E [] p s = Inr t0" "same_tasks t0 t"
    using start_transfer_silent [OF run acts] by blast
  obtain c where c: "f_ctxs s p = Some c" using run by (auto simp: start_transfer_def bind_outcome_Inr_iff get_ctx_Inr)
  have fin: "finished t0 q \<longleftrightarrow> finished s q" and tasks: "f_tasks t0 = f_tasks s @ [p]" for q
    using t0(1) c by (auto simp: start_transfer_def get_ctx_def Let_def set_ctx_def finished_def bind_outcome_Inr_iff
        split: option.splits if_splits)
  have same: "has_transfer t q = has_transfer t0 q" for q
    using t0(2) by (simp add: same_tasks_def has_transfer_def)
  have "has_transfer t0 q = has_transfer s q \<or> q = p" for q
  proof (cases "en_easy_init E (f_easys s)")
    case None
    then have "f_multi t0 = f_multi s" "f_easys t0 = f_easys s"
      using t0(1) c by (auto simp: start_transfer_def get_ctx_def Let_def set_ctx_def)
    then show ?thesis by (simp add: has_transfer_def)
  next
    case (Some h)
    have "f_easys s h = None" using E Some ok by (auto simp: good_env_def transfers_ok_def)
    then have h: "h \<notin> set (f_multi s)" using ok by (auto simp: transfers_ok_def)
    have "f_easys t0 = (f_easys s)(h \<mapsto> easy_options p c (context_lists c))"
      "f_multi t0 = f_multi s @ [h] \<or> f_multi t0 = f_multi s"
      using t0(1) c Some by (auto simp: start_transfer_def get_ctx_def Let_def set_ctx_def split: if_splits)
    then show ?thesis using h by (auto simp: has_transfer_def easy_options_def)
  qed
  with p have old: "has_transfer t q = has_transfer s q" if "running s q" for q
    using that same by (auto simp: running_def)
  have "running t q" if "running s q" for q
    using that t0(2) tasks fin by (simp add: running_def same_tasks_def finished_def)
  with old show "keeps_runs s t" by (simp add: keeps_runs_def)
  assume eager: "(\<forall>m. en_easy_init E m \<noteq> None) \<and> (\<forall>n. en_add_handle E n)"
  then obtain h where h: "en_easy_init E (f_easys s) = Some h" by blast
  then have "f_easys t0 h = Some (easy_options p c (context_lists c))" "h \<in> set (f_multi t0)"
    using t0(1) c eager by (auto simp: start_transfer_def get_ctx_def Let_def set_ctx_def)
  moreover have "e_private (easy_options p c (context_lists c)) = p" by (simp add: easy_options_def)
  ultimately have "has_transfer t0 p" unfolding has_transfer_def by blast
  then show "has_transfer t p" by (simp add: same)
qed

section \<open>Steps\<close>

definition eager_env :: "fenv \<Rightarrow> bool" where
  "eager_env E \<longleftrightarrow> (\<forall>m. en_easy_init E m \<noteq> None) \<and> (\<forall>n. en_add_handle E n)"

text \<open>Every step keeps the running tasks as they are or ends them, and a task that is new among the
  running ones has a transfer when libcurl gives it one.\<close>

lemma call_runs:
  assumes inv: "sys_inv y" and E: "good_env E" and batch: "y_batch y = c # rest"
    and run: "run_call L J B E react c (y_fetch y) = Inr t" and react: "legal_reaction (y_fetch y) react"
  shows "keeps_runs (y_fetch y) t \<and>
    (eager_env E \<longrightarrow> (\<forall>p \<in> set (f_tasks t). p \<in> set (f_tasks (y_fetch y)) \<or> has_transfer t p))"
proof (cases "(L, J, B, E, react, c, y_fetch y)" rule: run_call.cases)
  case (1 _ _ _ _ _ p _)
  then have s: "start_transfer L E (rx_add_handle react) p (y_fetch y) = Inr t" using run by simp
  have "p \<in># waiting y" using batch 1 by (simp add: waiting_def async_calls_Cons [of "AsyncCall (StartTransfer p)"])
  note w = sys_inv_waiting_only(1) [OF inv this] sys_inv_waiting [OF inv this]
  have acts: "list_all event_action (rx_add_handle react)" using react by (simp add: legal_reaction_def)
  note r = start_transfer_runs [OF s acts E sys_inv_simps(4) [OF inv] w(1)]
  have "f_tasks t = f_tasks (y_fetch y) @ [p]"
    using start_transfer_effect [OF s acts E sys_inv_simps(4) [OF inv] w] by blast
  with r show ?thesis by (auto simp: eager_env_def)
next
  case (2 _ _ _ _ _ q _)
  then have "collect_done J B q (y_fetch y) = Inr t" using run by simp
  note c = collect_effect [OF this sys_inv_tasks(1) [OF inv]]
  have "has_transfer t = has_transfer (y_fetch y)" using c(3,4) by (simp add: has_transfer_def fun_eq_iff)
  moreover have "running t p" if "running (y_fetch y) p" for p
    using that c(1,2) by (auto simp: running_def finished_def restrict_map_def)
  ultimately show ?thesis using c(1) by (auto simp: keeps_runs_def)
next
  case (3 _ _ _ _ _ h sock events _)
  then have e: "socket_event L E react sock events (y_fetch y) = Inr t" using run by simp
  with event_runs [OF disjI1 [OF e] react sys_inv_simps(4) [OF inv]]
    socket_event_places [OF e react sys_inv_simps(4) [OF inv]]
  show ?thesis by (auto simp: same_places_def)
next
  case (4 _ _ _ _ _ _)
  then have e: "timer_event L E react (y_fetch y) = Inr t" using run by simp
  with event_runs [OF disjI2 [OF e] react sys_inv_simps(4) [OF inv]]
    timer_event_places [OF e react sys_inv_simps(4) [OF inv]]
  show ?thesis by (auto simp: same_places_def)
next
  case (5 _ _ _ _ _ _)
  with run show ?thesis by (simp add: keeps_runs_tasks same_tasks_def)
qed (use run in simp_all)

lemma add_places:
  assumes "add L E p s = Inr t" and "\<not> finished s p"
  obtains tv host r calls where "resolve tv host p (f_resolver s) = (r, calls)" "f_resolver t = r"
    "same_transfers s t" "\<And>q. q \<noteq> p \<Longrightarrow> finished t q \<longleftrightarrow> finished s q"
    "length (es_async_callbacks (f_es t)) \<le> length (es_async_callbacks (f_es s)) + length calls"
  using assms(1)
proof (rule add_cases)
  fix c c' r calls tv s1
  assume a: "f_ctxs s p = Some c" "c_done c' \<longleftrightarrow> c_done c"
    "resolve tv (u_host (c_uri c)) p (f_resolver s) = (r, calls)"
    "f_ctxs s1 = (f_ctxs s)(p \<mapsto> c')" "same_transfers s s1" "f_resolver s1 = r" "f_es s1 = f_es s"
    "calls = [] \<and> t = s1 \<or> (\<exists>addrs st. calls = [(p, addrs, st)] \<and> resolver_cb L E p addrs st s1 = Inr t)"
  have fin: "finished s1 q \<longleftrightarrow> finished s q" if "q \<noteq> p" for q
    using finished_upd [OF a(4) that] .
  have nf: "\<not> finished s1 p" using assms(2) a(1,2,4) by (simp add: finished_def)
  from a(8) show thesis
  proof
    assume "calls = [] \<and> t = s1"
    with a fin show thesis by (intro that [OF a(3)]) simp_all
  next
    assume "\<exists>addrs st. calls = [(p, addrs, st)] \<and> resolver_cb L E p addrs st s1 = Inr t"
    then obtain addrs st where call: "calls = [(p, addrs, st)]" "resolver_cb L E p addrs st s1 = Inr t" by blast
    have "length (es_async_callbacks (f_es t)) \<le> Suc (length (es_async_callbacks (f_es s1)))"
      by (rule resolver_cb_effect [OF call(2)]; cases "is_ok st") auto
    with resolver_cb_place [OF call(2) nf] a fin call(1) show thesis
      by (intro that [OF a(3)]) (auto simp: same_transfers_def)
  qed
qed

lemma same_runs:
  assumes "same_transfers (y_fetch y) t" and "\<And>p. running (y_fetch y) p \<Longrightarrow> \<not> finished t p"
  shows "keeps_runs (y_fetch y) t \<and>
    (eager_env E \<longrightarrow> (\<forall>p \<in> set (f_tasks t). p \<in> set (f_tasks (y_fetch y)) \<or> has_transfer t p))"
  using keeps_runs_frame [OF assms] assms(1) by (simp add: same_transfers_def)

lemma fetch_step_runs:
  assumes "fetch_step L live J B E y z reg called" and inv: "sys_inv y" and E: "good_env E"
  shows "keeps_runs (y_fetch y) (y_fetch z) \<and> (eager_env E \<longrightarrow>
    (\<forall>p \<in> set (f_tasks (y_fetch z)). p \<in> set (f_tasks (y_fetch y)) \<or> has_transfer (y_fetch z) p))"
  using assms(1)
proof cases
  case (f_make t c p)
  have "p \<notin> dom (f_ctxs (y_fetch y))"
    using E sys_inv_simps(2) [OF inv] f_make(5) by (auto simp: good_env_def good_alloc_def)
  then have "q \<noteq> p" if "running (y_fetch y) q" for q
    using that sys_inv_tasks(2) [OF inv] by (auto simp: running_def)
  then show ?thesis
    unfolding f_make(1) by (intro same_runs) (auto simp: same_transfers_def set_ctx_def running_def finished_def)
next
  case (f_add p s')
  have p: "p \<in># waiting y" using f_add(4) by (simp add: waiting_def)
  note w = sys_inv_waiting_only(1) [OF inv p] sys_inv_waiting [OF inv p]
  have "same_transfers (y_fetch y) s'" by (rule add_places [OF f_add(6) w(2)])
  moreover have "finished s' q \<longleftrightarrow> finished (y_fetch y) q" if "q \<noteq> p" for q
    by (rule add_places [OF f_add(6) w(2)]) (use that in blast)
  moreover have "q \<noteq> p" if "running (y_fetch y) q" for q using that w(1) by (auto simp: running_def)
  ultimately show ?thesis unfolding f_add(1) by (intro same_runs) (auto simp: running_def)
next
  case (f_notify accepts r' qs)
  then show ?thesis by (intro same_runs) (auto simp: same_transfers_def running_def finished_def)
next
  case (f_reply name tv a r' calls)
  then show ?thesis by (intro same_runs) (auto simp: same_transfers_def running_def finished_def)
next
  case (f_dns p addrs st rest s')
  have p: "p \<in># waiting y" using f_dns(4) by (simp add: waiting_def)
  note w = sys_inv_waiting_only(1) [OF inv p] sys_inv_waiting [OF inv p]
  have s: "same_transfers (y_fetch y) s'" "\<And>q. q \<noteq> p \<Longrightarrow> finished s' q \<longleftrightarrow> finished (y_fetch y) q"
    using resolver_cb_place [OF f_dns(5) w(2)] by blast+
  moreover have "q \<noteq> p" if "running (y_fetch y) q" for q using that w(1) by (auto simp: running_def)
  ultimately show ?thesis unfolding f_dns(1) by (intro same_runs) (auto simp: running_def)
next
  case (f_result q s')
  then show ?thesis
    by (intro same_runs) (auto simp: get_done_tasks_req_def es_do_Inr same_transfers_def running_def finished_def)
next
  case (f_fire ev fd flags h fl es' calls)
  then show ?thesis by (intro same_runs) (auto simp: same_transfers_def running_def finished_def)
next
  case (f_call c rest react s')
  from call_runs [OF inv E f_call(3-5)] show ?thesis unfolding f_call(1) by simp
qed

section \<open>Runs\<close>

text \<open>A running task without a transfer stays one.\<close>

lemma stuck_run:
  assumes "run_of (fetch_step L live J B E) y z reg called" and "good_env E"
  shows "sys_inv y \<Longrightarrow> running (y_fetch y) p \<Longrightarrow> \<not> has_transfer (y_fetch y) p \<Longrightarrow>
    running (y_fetch z) p \<and> \<not> has_transfer (y_fetch z) p"
  using assms(1)
proof (induction rule: run_of.induct)
  case (run_step y z reg called u reg' called')
  have "sys_inv z" using tasks.run_inv [OF run_step.hyps(1)] run_step.prems(1) assms(2) by blast
  from fetch_step_runs [OF run_step.hyps(2) this assms(2)] run_step.IH [OF run_step.prems] show ?case
    unfolding keeps_runs_def by blast
qed simp

text \<open>When every task gets its transfer, every running task has one.\<close>

definition served :: "('j, 'eb) fetcher \<Rightarrow> bool" where
  "served s \<longleftrightarrow> (\<forall>p. running s p \<longrightarrow> has_transfer s p)"

lemma phase_not_back: "phase_step a b reg called \<Longrightarrow> a p = Done \<Longrightarrow> b p \<noteq> Running"
  by (erule phase_stepE) (auto split: if_splits dest: spec [of _ p])

lemma phase_tasks:
  assumes "sys_inv y" and "p \<in> set (f_tasks (y_fetch y))"
  shows "phase y p = (if finished (y_fetch y) p then Done else Running)"
  using sys_inv_tasks(2,3) [OF assms(1)] assms(2) by (auto simp: phase_def)

lemma served_step:
  assumes "fetch_step L live J B E y z reg called" and inv: "sys_inv y" and E: "good_env E" "eager_env E"
    and "served (y_fetch y)"
  shows "served (y_fetch z)"
  unfolding served_def
proof (intro allI impI)
  fix p assume r: "running (y_fetch z) p"
  have z: "sys_inv z" "phase_step (phase y) (phase z) reg called"
    using fetch_step_ok [OF assms(1) inv E(1)] by blast+
  note k = fetch_step_runs [OF assms(1) inv E(1)]
  show "has_transfer (y_fetch z) p"
  proof (cases "p \<in> set (f_tasks (y_fetch y))")
    case True
    have "phase z p = Running" using r phase_tasks [OF z(1), of p] by (simp add: running_def)
    then have "phase y p \<noteq> Done" using phase_not_back [OF z(2)] by blast
    then have "running (y_fetch y) p" using True phase_tasks [OF inv True] by (auto simp: running_def)
    with assms(5) k r show ?thesis unfolding served_def keeps_runs_def by (auto simp: running_def)
  next
    case False
    with k r E(2) show ?thesis by (auto simp: running_def)
  qed
qed

lemma served_init:
  assumes "Fetcher L = Inr s"
  shows "served (y_fetch (sys0 s))"
  unfolding served_def running_def
proof (intro allI impI)
  fix p assume "p \<in> set (f_tasks (y_fetch (sys0 s))) \<and> \<not> finished (y_fetch (sys0 s)) p"
  with phase_tasks [OF sys_init_inv(1) [OF assms], of p] sys_init_inv(3) [OF assms]
  show "has_transfer (y_fetch (sys0 s)) p" by simp
qed

lemma served_run:
  assumes "run_of (fetch_step L live J B E) y z reg called" and "good_env E" "eager_env E"
  shows "sys_inv y \<Longrightarrow> served (y_fetch y) \<Longrightarrow> served (y_fetch z)"
  using assms(1)
proof (induction rule: run_of.induct)
  case (run_step y z reg called u reg' called')
  have "sys_inv z" using tasks.run_inv [OF run_step.hyps(1)] run_step.prems(1) assms(2) by blast
  with run_step.IH [OF run_step.prems] served_step [OF run_step.hyps(2) _ assms(2,3)] show ?case by blast
qed simp

section \<open>The timer of libcurl\<close>

text \<open>The handle of \<open>multi_timer_handle_\<close>, once made, has the closure for \<open>curl_multi_socket_action\<close>.\<close>

definition multi_at :: "nat \<Rightarrow> (fetcher_cb, 'eb) event_server \<Rightarrow> bool" where
  "multi_at h es \<longleftrightarrow> h < es_next es \<and> (\<forall>hh. es_handles es h = Some hh \<longrightarrow>
     h_type hh = kTimer \<and> h_timer_cb hh = Some (ClientTimer MultiTimer))"

definition timer_ok :: "('j, 'eb) fetcher \<Rightarrow> bool" where
  "timer_ok s \<longleftrightarrow> (\<forall>h. f_timer s = Some h \<longrightarrow> multi_at h (f_es s))"

lemma multi_at_ops:
  "start L k ms es = Inr es' \<Longrightarrow> multi_at h es \<Longrightarrow> multi_at h es'"
  "stop L k es = Inr es' \<Longrightarrow> multi_at h es \<Longrightarrow> multi_at h es'"
  "remove L k es = Inr es' \<Longrightarrow> multi_at h es \<Longrightarrow> multi_at h es'"
  "add_async L cb es = Inr es' \<Longrightarrow> multi_at h es \<Longrightarrow> multi_at h es'"
  "EventServer.ev_cb fd fl k es = Inr (es', calls) \<Longrightarrow> multi_at h es \<Longrightarrow> multi_at h es'"
  by (auto simp: start_def stop_def remove_def add_async_def EventServer.ev_cb_def Let_def es_simps multi_at_def
      split: if_splits option.splits handle_type.splits timer_cb.splits)

lemma multi_at_new:
  "add_fd L fd flags cb es = (es', k) \<Longrightarrow> multi_at h es \<Longrightarrow> multi_at h es'"
  "add_timer L (ClientTimer MultiTimer) flags es = (es', k) \<Longrightarrow> multi_at k es'"
  by (auto simp: add_fd_def add_timer_def new_handle_def Let_def multi_at_def split: prod.splits if_splits)

lemma timer_ok_es:
  assumes "timer_ok s" and "f_timer t = f_timer s" and "\<And>h. multi_at h (f_es s) \<Longrightarrow> multi_at h (f_es t)"
  shows "timer_ok t"
  using assms unfolding timer_ok_def by simp

lemma es_do_timer:
  assumes "es_do f s = Inr t" and "\<And>es es' h. f es = Inr es' \<Longrightarrow> multi_at h es \<Longrightarrow> multi_at h es'"
  shows "f_timer t = f_timer s \<and> (timer_ok s \<longrightarrow> timer_ok t)"
  using assms timer_ok_es [of s t] by (auto simp: es_do_Inr)

lemma new_socket_timer:
  assumes "new_socket_ctx L h sock s = (t, a)"
  shows "f_timer t = f_timer s \<and> (timer_ok s \<longrightarrow> timer_ok t)"
proof -
  obtain es1 rd es2 wr where es: "add_fd L sock (READ OR PERSIST) (SocketEvent h) (f_es s) = (es1, rd)"
    "add_fd L sock (WRITE OR PERSIST) (SocketEvent h) es1 = (es2, wr)"
    by (meson surj_pair)
  with assms have t: "f_es t = es2" "f_timer t = f_timer s" by (auto simp: new_socket_ctx_def Let_def)
  with multi_at_new(1) [OF es(1)] multi_at_new(1) [OF es(2)] timer_ok_es [of s t] show ?thesis by auto
qed

lemma socket_cb_timer:
  assumes "socket_cb L h sock w socketp s = Inr t"
  shows "f_timer t = f_timer s \<and> (timer_ok s \<longrightarrow> timer_ok t)"
proof -
  obtain s1 a where s1: "(case socketp of None \<Rightarrow> new_socket_ctx L h sock s | Some a \<Rightarrow> (s, a)) = (s1, a)"
    by fastforce
  then have c1: "f_timer s1 = f_timer s \<and> (timer_ok s \<longrightarrow> timer_ok s1)"
    by (cases socketp) (auto dest: new_socket_timer)
  obtain rd wr where rw: "f_socks s1 a = Some (rd, wr)"
    using assms s1 by (auto simp: socket_cb_def split: option.splits)
  have two: "f_timer t = f_timer s1 \<and> (timer_ok s1 \<longrightarrow> timer_ok t)"
    if run: "bind_outcome (es_do f s1) (es_do g) = Inr t"
      and ops: "\<And>es es' h. f es = Inr es' \<Longrightarrow> multi_at h es \<Longrightarrow> multi_at h es'"
      "\<And>es es' h. g es = Inr es' \<Longrightarrow> multi_at h es \<Longrightarrow> multi_at h es'" for f g
  proof -
    obtain u where u: "es_do f s1 = Inr u" "es_do g u = Inr t" using run by (auto simp: bind_outcome_Inr_iff)
    from es_do_timer [OF u(1) ops(1)] es_do_timer [OF u(2) ops(2)] show ?thesis by simp
  qed
  consider "w = CURL_POLL_REMOVE" | "w \<noteq> CURL_POLL_REMOVE" by blast
  then have "f_timer t = f_timer s1 \<and> (timer_ok s1 \<longrightarrow> timer_ok t)"
  proof cases
    case 1
    with assms s1 rw obtain u v where uv: "es_do (remove L rd) s1 = Inr u" "es_do (remove L wr) u = Inr v"
      "t = v\<lparr>f_socks := (f_socks v)(a := None), f_assigned := (f_assigned v)(sock := None)\<rparr>"
      by (auto simp: socket_cb_def bind_outcome_Inr_iff CURL_POLL_IN_def CURL_POLL_OUT_def CURL_POLL_INOUT_def
          CURL_POLL_REMOVE_def)
    from es_do_timer [OF uv(1) multi_at_ops(3)] es_do_timer [OF uv(2) multi_at_ops(3)]
    show ?thesis unfolding uv(3) by (simp add: timer_ok_def)
  next
    case 2
    with assms s1 rw show ?thesis
      using two [of "start L rd (-1)" "stop L wr", OF _ multi_at_ops(1,2)]
        two [of "start L wr (-1)" "stop L rd", OF _ multi_at_ops(1,2)]
        two [of "start L rd (-1)" "start L wr (-1)", OF _ multi_at_ops(1,1)]
      by (simp add: socket_cb_def split: if_splits)
  qed
  with c1 show ?thesis by simp
qed

text \<open>\<open>timer_cb\<close> makes the handle, and nothing drops it.\<close>

lemma timer_cb_timer:
  assumes "Fetcher.timer_cb L ms s = Inr t"
  shows "(timer_ok s \<longrightarrow> timer_ok t) \<and> (f_timer s \<noteq> None \<longrightarrow> f_timer t \<noteq> None) \<and>
    (0 \<le> sint ms \<longrightarrow> f_timer t \<noteq> None)"
proof (cases "0 \<le> sint ms")
  case False
  with assms show ?thesis by (simp add: timer_cb_def)
next
  case True
  show ?thesis
  proof (cases "f_timer s")
    case (Some h)
    with assms True have "es_do (start L h ms) s = Inr t" by (simp add: timer_cb_def)
    from es_do_timer [OF this multi_at_ops(1)] Some show ?thesis by simp
  next
    case None
    obtain es h where new: "add_timer L (ClientTimer MultiTimer) 0 (f_es s) = (es, h)" by fastforce
    let ?u = "s\<lparr>f_es := es, f_timer := Some h\<rparr>"
    have "es_do (start L h ms) ?u = Inr t" using assms True None new by (simp add: timer_cb_def)
    from es_do_timer [OF this multi_at_ops(1)] multi_at_new(2) [OF new] show ?thesis by (simp add: timer_ok_def)
  qed
qed

lemma perform_timer:
  assumes "perform L act s = Inr t"
  shows "(timer_ok s \<longrightarrow> timer_ok t) \<and> (f_timer s \<noteq> None \<longrightarrow> f_timer t \<noteq> None)"
proof (cases act)
  case (Header h b)
  with assms show ?thesis
    by (auto simp: bind_outcome_Inr_iff set_ctx_def timer_ok_def split: option.splits)
next
  case (Body h b)
  with assms show ?thesis
    by (auto simp: bind_outcome_Inr_iff set_ctx_def timer_ok_def split: option.splits)
next
  case (Socket h sock w)
  with assms socket_cb_timer [of L h sock w "f_assigned s sock" s t] show ?thesis by simp
next
  case (Timer ms)
  with assms timer_cb_timer [of L ms s t] show ?thesis by simp
qed

lemma performs_timer:
  "fold_outcome (perform L) acts s = Inr t \<Longrightarrow>
   (timer_ok s \<longrightarrow> timer_ok t) \<and> (f_timer s \<noteq> None \<longrightarrow> f_timer t \<noteq> None)"
proof (induction acts arbitrary: s)
  case (Cons act acts)
  then obtain u where u: "perform L act s = Inr u" "fold_outcome (perform L) acts u = Inr t"
    by (auto simp: bind_outcome_Inr_iff)
  with perform_timer [OF u(1)] Cons.IH [OF u(2)] show ?case by blast
qed simp

lemma handle_msg_timer:
  assumes "handle_msg L E acts m s = Inr t"
  shows "(timer_ok s \<longrightarrow> timer_ok t) \<and> (f_timer s \<noteq> None \<longrightarrow> f_timer t \<noteq> None)"
proof (cases "m_done m")
  case False
  with assms show ?thesis
    by (auto simp: handle_msg_def Let_def bind_outcome_Inr_iff set_ctx_def timer_ok_def split: option.splits)
next
  case True
  with assms obtain e c0 where e: "f_easys s (m_easy m) = Some e" "raw_ctx (e_private e) s = Inr c0"
    by (auto simp: handle_msg_def bind_outcome_Inr_iff split: option.splits)
  obtain p d where u: "bind_outcome (fold_outcome (perform L) acts
        ((set_ctx p d (snd (read_ms E s)))\<lparr>f_multi := List.removeAll (m_easy m) (f_multi s)\<rparr>))
      (\<lambda>s3. Inr (s3\<lparr>f_easys := (f_easys s3)(m_easy m := None)\<rparr>)) = Inr t"
    using assms True e by (simp add: handle_msg_def Let_def split_def)
      (simp add: read_ms_def read_clock_def set_ctx_def)
  then obtain s3 where s3: "fold_outcome (perform L) acts
      ((set_ctx p d (snd (read_ms E s)))\<lparr>f_multi := List.removeAll (m_easy m) (f_multi s)\<rparr>) = Inr s3"
    "t = s3\<lparr>f_easys := (f_easys s3)(m_easy m := None)\<rparr>" by (auto simp: bind_outcome_Inr_iff)
  from performs_timer [OF s3(1)] s3(2) show ?thesis
    by (simp add: timer_ok_def set_ctx_def read_ms_def read_clock_def split_def)
qed

lemma check_multi_info_timer:
  "check_multi_info L E react msgs s = Inr t \<Longrightarrow>
   (timer_ok s \<longrightarrow> timer_ok t) \<and> (f_timer s \<noteq> None \<longrightarrow> f_timer t \<noteq> None)"
proof (induction msgs arbitrary: s)
  case (Cons m msgs)
  then obtain u where u: "handle_msg L E (rx_remove_handle react (m_easy m)) m s = Inr u"
    "check_multi_info L E react msgs u = Inr t"
    by (auto simp: check_multi_info_def bind_outcome_Inr_iff)
  with handle_msg_timer [OF u(1)] Cons.IH [OF u(2)] show ?case by blast
qed (simp add: check_multi_info_def)

lemma start_transfer_timer:
  assumes "start_transfer L E acts p s = Inr t"
  shows "(timer_ok s \<longrightarrow> timer_ok t) \<and> (f_timer s \<noteq> None \<longrightarrow> f_timer t \<noteq> None)"
proof -
  obtain c where c: "get_ctx p s = Inr c" using assms by (auto simp: start_transfer_def bind_outcome_Inr_iff)
  let ?s1 = "set_ctx p (c\<lparr>c_sub_ctx := Some (context_lists c)\<rparr>) s"
  have go: ?thesis if "fold_outcome (perform L) as u = Inr v" "t = v\<lparr>f_tasks := f_tasks v @ [p]\<rparr>"
    "f_timer u = f_timer s" "f_es u = f_es s" for as u v
    using performs_timer [OF that(1)] that(2-4) by (simp add: timer_ok_def)
  show ?thesis
  proof (cases "en_easy_init E (f_easys ?s1)")
    case None
    with assms c have "fold_outcome (perform L) [] ?s1 = Inr ?s1" "t = ?s1\<lparr>f_tasks := f_tasks ?s1 @ [p]\<rparr>"
      by (simp_all add: start_transfer_def Let_def)
    then show ?thesis by (rule go) (simp_all add: set_ctx_def)
  next
    case (Some h)
    let ?s2 = "?s1\<lparr>f_easys := (f_easys ?s1)(h \<mapsto> easy_options p c (context_lists c)), f_tick := Suc (f_tick ?s1)\<rparr>"
    show ?thesis
    proof (cases "en_add_handle E (f_tick ?s1)")
      case True
      with Some assms c obtain v where "fold_outcome (perform L) acts (?s2\<lparr>f_multi := f_multi ?s2 @ [h]\<rparr>) = Inr v"
        "t = v\<lparr>f_tasks := f_tasks v @ [p]\<rparr>"
        by (auto simp: start_transfer_def Let_def bind_outcome_Inr_iff)
      then show ?thesis by (rule go) (simp_all add: set_ctx_def)
    next
      case False
      with Some assms c have "fold_outcome (perform L) [] ?s2 = Inr ?s2" "t = ?s2\<lparr>f_tasks := f_tasks ?s2 @ [p]\<rparr>"
        by (simp_all add: start_transfer_def Let_def)
      then show ?thesis by (rule go) (simp_all add: set_ctx_def)
    qed
  qed
qed

lemma event_timer:
  assumes "socket_event L E react sock events s = Inr t \<or> timer_event L E react s = Inr t"
  shows "(timer_ok s \<longrightarrow> timer_ok t) \<and> (f_timer s \<noteq> None \<longrightarrow> f_timer t \<noteq> None)"
  using assms
proof
  assume "timer_event L E react s = Inr t"
  then obtain acts msgs n u where "fold_outcome (perform L) acts s = Inr u" "check_multi_info L E react msgs u = Inr t"
    by (auto simp: timer_event_def bind_outcome_Inr_iff split: prod.splits)
  with performs_timer [OF this(1)] check_multi_info_timer [OF this(2)] show ?thesis by blast
next
  assume "socket_event L E react sock events s = Inr t"
  moreover obtain acts msgs n where r: "rx_socket_action react sock (socket_what events) = (acts, msgs, n)"
    by (cases "rx_socket_action react sock (socket_what events)")
  ultimately obtain u v where uv: "fold_outcome (perform L) acts s = Inr u" "check_multi_info L E react msgs u = Inr v"
    "t = v \<or> (\<exists>h. es_do (stop L h) v = Inr t)"
    by (auto simp: socket_event_def bind_outcome_Inr_iff split: option.splits if_splits)
  from uv(3) have "f_timer t = f_timer v \<and> (timer_ok v \<longrightarrow> timer_ok t)"
    using es_do_timer [of "stop L h" v t for h, OF _ multi_at_ops(2)] by fastforce
  with performs_timer [OF uv(1)] check_multi_info_timer [OF uv(2)] show ?thesis by simp
qed

lemma call_timer:
  assumes "run_call L J B E react c s = Inr t" and "distinct (f_tasks s)"
  shows "(timer_ok s \<longrightarrow> timer_ok t) \<and> (f_timer s \<noteq> None \<longrightarrow> f_timer t \<noteq> None)"
proof (cases "(L, J, B, E, react, c, s)" rule: run_call.cases)
  case (1 _ _ _ _ _ p _)
  with assms(1) start_transfer_timer [of L E "rx_add_handle react" p s t] show ?thesis by simp
next
  case (2 _ _ _ _ _ q _)
  then have "collect_done J B q s = Inr t" using assms(1) by simp
  with collect_socks [OF this assms(2)] show ?thesis by (simp add: same_socks_def timer_ok_def)
next
  case (3 _ _ _ _ _ h sock events _)
  with assms(1) event_timer [of L E react sock events s t] show ?thesis by simp
next
  case (4 _ _ _ _ _ _)
  with assms(1) event_timer [of L E react _ _ s t] show ?thesis by simp
qed (use assms(1) in simp_all)

lemma async_timer:
  assumes "same_socks s t" and "f_es t = f_es s \<or> add_async L cb (f_es s) = Inr (f_es t)" and "timer_ok s"
  shows "timer_ok t"
  using assms(2)
proof
  assume "f_es t = f_es s"
  with assms(1,3) show ?thesis by (simp add: timer_ok_def same_socks_def)
next
  assume "add_async L cb (f_es s) = Inr (f_es t)"
  with assms(1,3) multi_at_ops(4) show ?thesis unfolding timer_ok_def same_socks_def by metis
qed

lemma add_socks:
  assumes "add L E p s = Inr t"
  shows "same_socks s t \<and> (f_es t = f_es s \<or> add_async L (StartTransfer p) (f_es s) = Inr (f_es t))"
proof -
  obtain c where c: "f_ctxs s p = Some c" using assms by (auto simp: add_def bind_outcome_Inr_iff get_ctx_Inr)
  obtain tv r calls s1 where a: "calls = [] \<or> (\<exists>addrs st. calls = [(p, addrs, st)])"
    "add L E p s = fold_outcome (\<lambda>(q, addrs, st). resolver_cb L E q addrs st) calls s1"
    "same_socks s s1" "f_es s1 = f_es s"
    by (rule add_unfold [OF c, of L E])
  show ?thesis using a(1)
  proof
    assume "\<exists>addrs st. calls = [(p, addrs, st)]"
    then obtain addrs st where "calls = [(p, addrs, st)]" by blast
    with a(2) assms have "resolver_cb L E p addrs st s1 = Inr t"
      by (simp add: fold_outcome_one del: fold_outcome.simps)
    from resolver_cb_socks [OF this] a(3,4) show ?thesis by (simp add: same_socks_def)
  qed (use a assms in simp)
qed

lemma timer_step:
  assumes "fetch_step L live J B E y z reg called" and inv: "sys_inv y" and ok: "timer_ok (y_fetch y)"
  shows "timer_ok (y_fetch z)"
  using assms(1)
proof cases
  case (f_make t c p)
  then show ?thesis using ok by (simp add: timer_ok_def set_ctx_def)
next
  case (f_add p s')
  note r = add_socks [OF f_add(6)]
  from f_add(1) async_timer [OF conjunct1 [OF r] conjunct2 [OF r] ok] show ?thesis by simp
next
  case (f_notify accepts r' qs)
  then show ?thesis using ok by (simp add: timer_ok_def)
next
  case (f_reply name tv a r' calls)
  then show ?thesis using ok by (simp add: timer_ok_def)
next
  case (f_dns p addrs st rest s')
  note r = resolver_cb_socks [OF f_dns(5)]
  from f_dns(1) async_timer [OF conjunct1 [OF r] conjunct2 [OF r] ok] show ?thesis by simp
next
  case (f_result q s')
  then have "es_do (add_async L (CollectDone q)) (y_fetch y) = Inr s'" by (simp add: get_done_tasks_req_def)
  from es_do_timer [OF this multi_at_ops(4)] ok f_result(1) show ?thesis by simp
next
  case (f_fire ev fd flags h fl es' calls)
  have "multi_at k es'" if "multi_at k (f_es (y_fetch y))" for k
    by (rule multi_at_ops(5) [OF f_fire(6)]) (use that in \<open>simp add: multi_at_def\<close>)
  with ok f_fire(1) show ?thesis by (simp add: timer_ok_def)
next
  case (f_call c rest react s')
  from call_timer [OF f_call(4) sys_inv_tasks(1) [OF inv]] ok f_call(1) show ?thesis by simp
qed

lemma timer_run:
  assumes "run_of (fetch_step L live J B E) y z reg called" and "good_env E"
  shows "sys_inv y \<Longrightarrow> timer_ok (y_fetch y) \<Longrightarrow> timer_ok (y_fetch z)"
  using assms(1)
proof (induction rule: run_of.induct)
  case (run_step y z reg called u reg' called')
  have "sys_inv z" using tasks.run_inv [OF run_step.hyps(1)] run_step.prems(1) assms(2) by blast
  with run_step.IH [OF run_step.prems] timer_step [OF run_step.hyps(2)] show ?case by blast
qed simp

lemma timer_init:
  fixes L :: "'eb libevent"
  assumes "Fetcher L = Inr s"
  shows "timer_ok s"
proof -
  obtain es0 :: "(fetcher_cb, 'eb) event_server" where es0: "EventServer L = Inr es0" using assms by (auto simp: Fetcher_def bind_outcome_Inr_iff)
  obtain es h where "add_timer L (ClientTimer Stats) PERSIST es0 = (es, h)"
    by (cases "add_timer L (ClientTimer Stats) PERSIST es0")
  with es0 assms have "f_timer s = None" by (auto simp: Fetcher_def bind_outcome_Inr_iff)
  then show ?thesis by (simp add: timer_ok_def)
qed

section \<open>Towards rest\<close>

text \<open>
  The work before the transfers: requests being made, names being resolved, closures queued. While
  there is some, a step makes it less, if nothing is refused; what libcurl and evdns do in these
  steps is chosen: a timeout when a transfer is added, no other callbacks, good answers.
\<close>

definition settled :: "('j, 'eb) sys \<Rightarrow> bool" where
  "settled y \<longleftrightarrow> y_new y = [] \<and> y_dns y = [] \<and> at_rest (f_resolver (y_fetch y), y_flight y) \<and>
     es_async_callbacks (f_es (y_fetch y)) = [] \<and> y_batch y = []"

definition work :: "('j, 'eb) sys \<Rightarrow> nat" where
  "work y = 8 * length (y_new y) + 4 * size (resolver_pending (f_resolver (y_fetch y), y_flight y)) +
     outstanding (f_resolver (y_fetch y), y_flight y) + 4 * length (y_dns y) +
     2 * length (es_async_callbacks (f_es (y_fetch y))) + length (y_batch y)"

lemma settled_waiting:
  assumes "sys_inv y" and "settled y"
  shows "waiting y = {#}"
proof -
  have "resolver_pending (f_resolver (y_fetch y), y_flight y) = {#}"
    using at_rest_pending sys_inv_simps(1) [OF assms(1)] assms(2) unfolding settled_def by blast
  with assms(2) show ?thesis by (simp add: waiting_def settled_def async_calls_def)
qed

lemma resolve_outstanding:
  "resolve tv host p r = (r', calls) \<Longrightarrow> outstanding (r', fl) \<le> outstanding (r, fl) + 2"
  by (auto simp: resolve_def Let_def enqueue_def set_info_def split: rstate.splits)

lemma resolve_known:
  assumes "resolve tv host p r = (r', calls)" and "known_addrs r"
  shows "known_addrs r'"
  using assms unfolding known_addrs_def
  by (auto simp: resolve_def Let_def enqueue_def set_info_def info_at_def refresh_def new_info_def
      split: rstate.splits option.splits if_splits)

lemma length_remove1_Suc: "x \<in> set xs \<Longrightarrow> length xs = Suc (length (remove1 x xs))"
  by (induction xs) auto

lemma add_work:
  assumes inv: "sys_inv y" and p: "p \<in> set (y_new y)" and add: "add L E p (y_fetch y) = Inr t"
    and ok: "answers_ok y"
    and z: "z = y\<lparr>y_fetch := t, y_new := remove1 p (y_new y), y_failed := y_failed y @ given_up p t\<rparr>"
  shows "work z < work y \<and> answers_ok z"
proof -
  have "p \<in># waiting y" using p by (simp add: waiting_def)
  note nf = sys_inv_waiting [OF inv this]
  show ?thesis
  proof (rule add_places [OF add nf])
    fix tv host r calls
    assume a: "resolve tv host p (f_resolver (y_fetch y)) = (r, calls)" "f_resolver t = r"
      "length (es_async_callbacks (f_es t)) \<le> length (es_async_callbacks (f_es (y_fetch y))) + length calls"
    have "resolver_pending (r, y_flight y) + mset (map fst calls) =
        resolver_pending (f_resolver (y_fetch y), y_flight y) + {#p#}"
      using resolve_step [OF sys_inv_simps(1) [OF inv] a(1)] by blast
    then have "size (resolver_pending (r, y_flight y)) + length calls =
        size (resolver_pending (f_resolver (y_fetch y), y_flight y)) + 1"
      by (metis size_union size_mset length_map size_single)
    moreover have "outstanding (r, y_flight y) \<le> outstanding (f_resolver (y_fetch y), y_flight y) + 2"
      using a(1) by (rule resolve_outstanding)
    moreover have "length (y_new y) = Suc (length (remove1 p (y_new y)))" by (rule length_remove1_Suc [OF p])
    moreover have "length calls \<le> 1" using resolve_calls_one [OF a(1)] by auto
    ultimately have "work z < work y"
      using a(2,3) by (simp add: work_def z)
    moreover have "answers_ok z"
      using ok resolve_known [OF a(1)] a(2) by (simp add: answers_ok_def z)
    ultimately show ?thesis ..
  qed
qed

definition eager_reaction :: reaction where
  "eager_reaction = no_reaction\<lparr>rx_add_handle := [Timer 0]\<rparr>"

lemma eager_reaction_simps [simp]:
  "rx_socket_action eager_reaction = (\<lambda>_ _. ([], [], 0))" "rx_add_handle eager_reaction = [Timer 0]"
  "legal_reaction s eager_reaction"
  by (simp_all add: eager_reaction_def legal_reaction_def legal_socket_action_def no_reaction_def event_action_def)

lemma call_resolver:
  assumes inv: "sys_inv y" and E: "good_env E" and batch: "y_batch y = c # rest"
    and run: "run_call L J B E react c (y_fetch y) = Inr t" and react: "legal_reaction (y_fetch y) react"
  shows "f_resolver t = f_resolver (y_fetch y)"
proof (cases "(L, J, B, E, react, c, y_fetch y)" rule: run_call.cases)
  case (1 _ _ _ _ _ p _)
  then have s: "start_transfer L E (rx_add_handle react) p (y_fetch y) = Inr t" using run by simp
  have "p \<in># waiting y" using batch 1 by (simp add: waiting_def async_calls_Cons [of "AsyncCall (StartTransfer p)"])
  note w = sys_inv_waiting_only(1) [OF inv this] sys_inv_waiting [OF inv this]
  have "list_all event_action (rx_add_handle react)" using react by (simp add: legal_reaction_def)
  from start_transfer_effect [OF s this E sys_inv_simps(4) [OF inv] w] show ?thesis by blast
next
  case (2 _ _ _ _ _ q _)
  with run collect_effect(5) [OF _ sys_inv_tasks(1) [OF inv]] show ?thesis by simp
next
  case (3 _ _ _ _ _ h sock events _)
  with run socket_event_places [of L E react sock events, OF _ react sys_inv_simps(4) [OF inv]]
  show ?thesis by (simp add: same_places_def)
next
  case (4 _ _ _ _ _ _)
  with run timer_event_places [of L E react, OF _ react sys_inv_simps(4) [OF inv]]
  show ?thesis by (simp add: same_places_def)
qed (use run in simp_all)

text \<open>With this reaction there is a timer whenever there is a transfer.\<close>

lemma eager_start:
  assumes "start_transfer L E [Timer 0] p s = Inr t" and "eager_env E"
  shows "f_timer t \<noteq> None"
proof -
  obtain c where c: "get_ctx p s = Inr c" using assms(1) by (auto simp: start_transfer_def bind_outcome_Inr_iff)
  let ?s1 = "set_ctx p (c\<lparr>c_sub_ctx := Some (context_lists c)\<rparr>) s"
  obtain h where h: "en_easy_init E (f_easys ?s1) = Some h" using assms(2) unfolding eager_env_def by blast
  have "en_add_handle E (f_tick ?s1)" using assms(2) by (simp add: eager_env_def)
  with h c assms(1) obtain u v where "Fetcher.timer_cb L 0 u = Inr v" "t = v\<lparr>f_tasks := f_tasks v @ [p]\<rparr>"
    by (auto simp: start_transfer_def Let_def bind_outcome_Inr_iff)
  with timer_cb_timer [of L 0 u v] show ?thesis by simp
qed

lemma eager_call:
  assumes "run_call L J B E eager_reaction c s = Inr t" and "eager_env E" and "distinct (f_tasks s)"
    and "f_multi s \<noteq> [] \<longrightarrow> f_timer s \<noteq> None"
  shows "f_multi t \<noteq> [] \<longrightarrow> f_timer t \<noteq> None"
proof (cases "(L, J, B, E, eager_reaction, c, s)" rule: run_call.cases)
  case (1 _ _ _ _ _ p _)
  with assms(1) eager_start [of L E p s t, OF _ assms(2)] show ?thesis by simp
next
  case (2 _ _ _ _ _ q _)
  then have "collect_done J B q s = Inr t" using assms(1) by simp
  with collect_socks [OF this assms(3)] collect_effect(4) [OF this assms(3)] assms(4) show ?thesis
    by (simp add: same_socks_def)
next
  case (3 _ _ _ _ _ h sock events _)
  then have "t = s \<or> (\<exists>h. es_do (stop L h) s = Inr t)"
    using assms(1) by (auto simp: socket_event_def check_multi_info_def split: option.splits)
  with assms(4) show ?thesis by (auto simp: es_do_Inr)
qed (use assms in \<open>simp_all add: timer_event_def check_multi_info_def\<close>)

text \<open>Good answers.\<close>

lemma res_cb_good:
  assumes "res_cb es epoch answer_a name r = Inr (r', calls)" and "known_addrs r"
  shows "known_addrs r'" "\<forall>(p, addrs, st) \<in> set calls. is_ok st \<longrightarrow> addrs \<noteq> []"
  using assms unfolding known_addrs_def
  by (auto simp: res_cb_def record_answer_def answer_a_def DNS_ERR_NONE_def Let_def set_info_def
      split: option.splits if_splits)

definition fit ::
  "('eb \<Rightarrow> nat \<rightharpoonup> registration) \<Rightarrow> ('eb \<Rightarrow> nat set) \<Rightarrow> fenv \<Rightarrow> ('j, 'eb) sys \<Rightarrow> bool" where
  "fit live active E y \<longleftrightarrow> good_env E \<and> eager_env E \<and> safe_inv live active y \<and> answers_ok y \<and>
     served (y_fetch y) \<and> timer_ok (y_fetch y) \<and>
     (f_multi (y_fetch y) \<noteq> [] \<longrightarrow> f_timer (y_fetch y) \<noteq> None)"

lemma fitD:
  assumes "fit live active E y"
  shows "good_env E" "eager_env E" "safe_inv live active y" "answers_ok y" "served (y_fetch y)"
    "timer_ok (y_fetch y)" "f_multi (y_fetch y) \<noteq> [] \<longrightarrow> f_timer (y_fetch y) \<noteq> None" "sys_inv y"
  using assms safe_invD(1) unfolding fit_def by blast+

context libevent_total
begin

lemma fit_step:
  assumes step: "fetch_step L live J B E y z [] called" and fit: "fit live active E y" and "answers_ok z"
    and "f_multi (y_fetch z) \<noteq> [] \<longrightarrow> f_timer (y_fetch z) \<noteq> None"
  shows "fit live active E z"
  unfolding fit_def
  using fitD [OF fit] safe_step [OF step fitD(1,3) [OF fit]] served_step [OF step fitD(8,1,2,5) [OF fit]]
    timer_step [OF step fitD(8,6) [OF fit]] assms(3,4) by blast

lemma dns_progress:
  assumes fit: "fit live active E y" and dns: "y_dns y = (p, addrs, st) # rest"
  shows "\<exists>z called. fetch_step L live J B E y z [] called \<and> fit live active E z \<and> work z < work y"
proof -
  note f = fitD [OF fit]
  have pw: "p \<in># waiting y" using dns by (simp add: waiting_def)
  then obtain c where c: "f_ctxs (y_fetch y) p = Some c" by (rule waiting_ctx [OF f(8)])
  have a: "is_ok st \<longrightarrow> addrs \<noteq> []" using f(4) dns by (simp add: answers_ok_def)
  obtain t where t: "resolver_cb L E p addrs st (y_fetch y) = Inr t"
    using resolver_cb_total [OF c a async_total [OF safe_invD(3) [OF f(3)]]] by blast
  let ?z = "y\<lparr>y_fetch := t, y_dns := rest, y_failed := y_failed y @ given_up p t\<rparr>"
  note step = f_dns [where L = L and live = live and J = J and B = B and E = E, OF dns t]
  note pl = resolver_cb_place [OF t sys_inv_waiting [OF f(8) pw]]
  have "length (es_async_callbacks (f_es t)) \<le> Suc (length (es_async_callbacks (f_es (y_fetch y))))"
    by (rule resolver_cb_effect [OF t]; cases "is_ok st") auto
  with pl dns have "work ?z < work y" by (simp add: work_def)
  moreover have "answers_ok ?z" using f(4) pl dns by (simp add: answers_ok_def)
  moreover have "f_multi t \<noteq> [] \<longrightarrow> f_timer t \<noteq> None"
    using f(7) pl resolver_cb_socks [OF t] by (simp add: same_transfers_def same_socks_def)
  ultimately show ?thesis using step fit_step [OF step fit] by auto
qed

lemma add_progress:
  assumes fit: "fit live active E y" and "y_dns y = []" and p: "p \<in> set (y_new y)"
  shows "\<exists>z called. fetch_step L live J B E y z [] called \<and> fit live active E z \<and> work z < work y"
proof -
  note f = fitD [OF fit]
  have pw: "p \<in># waiting y" using p by (simp add: waiting_def)
  then obtain c where c: "f_ctxs (y_fetch y) p = Some c" by (rule waiting_ctx [OF f(8)])
  obtain t where t: "add L E p (y_fetch y) = Inr t"
    using add_fault [OF safe_invD(3) [OF f(3)] c] f(4) by (cases "add L E p (y_fetch y)") (auto simp: answers_ok_def)
  let ?z = "y\<lparr>y_fetch := t, y_new := remove1 p (y_new y), y_failed := y_failed y @ given_up p t\<rparr>"
  note step = f_add [where L = L and live = live and J = J and B = B and E = E, OF p assms(2) t]
  have "same_transfers (y_fetch y) t" by (rule add_places [OF t sys_inv_waiting [OF f(8) pw]])
  then have "f_multi t \<noteq> [] \<longrightarrow> f_timer t \<noteq> None"
    using f(7) add_socks [OF t] by (simp add: same_transfers_def same_socks_def)
  with add_work [OF f(8) p t f(4) refl] step fit_step [OF step fit] show ?thesis by auto
qed

lemma reply_progress:
  assumes fit: "fit live active E y" and "y_dns y = []" and name: "name \<in> set (y_flight y)"
  shows "\<exists>z called. fetch_step L live J B E y z [] called \<and> fit live active E z \<and> work z < work y"
proof -
  note f = fitD [OF fit]
  let ?r = "f_resolver (y_fetch y)"
  obtain r' calls where r: "res_cb (en_dns_error E) epoch answer_a name ?r = Inr (r', calls)" "r_tasks r' = r_tasks ?r"
    using sys_inv_simps(1) [OF f(8)] name by (rule res_cb_total) (auto simp: answer_a_def)
  let ?z = "y\<lparr>y_fetch := (y_fetch y)\<lparr>f_resolver := r'\<rparr>, y_flight := remove1 name (y_flight y), y_dns := calls\<rparr>"
  note step = f_reply [where L = L and live = live and J = J and B = B, OF assms(2) name r(1)]
  have "resolver_pending (r', remove1 name (y_flight y)) + mset (map fst calls) =
      resolver_pending (?r, y_flight y)"
    using res_cb_step [OF sys_inv_simps(1) [OF f(8)] name r(1)] by blast
  then have "size (resolver_pending (r', remove1 name (y_flight y))) + length calls =
      size (resolver_pending (?r, y_flight y))"
    by (metis size_union size_mset length_map)
  with r(2) length_remove1_Suc [OF name] assms(2) have "work ?z < work y" by (simp add: work_def)
  moreover have "answers_ok ?z" using res_cb_good [OF r(1)] f(4) by (simp add: answers_ok_def)
  ultimately show ?thesis using step fit_step [OF step fit] f(7) by auto
qed

lemma notify_progress:
  assumes fit: "fit live active E y" and "y_dns y = []" and tasks: "r_tasks (f_resolver (y_fetch y)) \<noteq> []"
  shows "\<exists>z called. fetch_step L live J B E y z [] called \<and> fit live active E z \<and> work z < work y"
proof -
  note f = fitD [OF fit]
  let ?r = "f_resolver (y_fetch y)"
  obtain r' qs where r: "Resolver.ev_cb (\<lambda>_. True) ?r = Inr (r', qs)" "r_tasks r' = []"
    using sys_inv_simps(1) [OF f(8)] by (rule ev_cb_total) auto
  then have r': "r_infos r' = r_infos ?r" by (auto simp: Resolver.ev_cb_def bind_outcome_Inr_iff)
  let ?z = "y\<lparr>y_fetch := (y_fetch y)\<lparr>f_resolver := r'\<rparr>, y_flight := y_flight y @ r_tasks ?r\<rparr>"
  note step = f_notify [where L = L and live = live and J = J and B = B and E = E, OF assms(2) r(1)]
  have "resolver_pending (r', y_flight y @ r_tasks ?r) = resolver_pending (?r, y_flight y)"
    using ev_cb_step [OF sys_inv_simps(1) [OF f(8)] r(1)] by blast
  with r(2) tasks have "work ?z < work y" by (simp add: work_def)
  moreover have "answers_ok ?z" using f(4) by (simp add: answers_ok_def known_addrs_def r')
  ultimately show ?thesis using step fit_step [OF step fit] f(7) by auto
qed

lemma call_progress:
  assumes J: "json_laws J mems items" and fit: "fit live active E y" and batch: "y_batch y = c # rest"
  shows "\<exists>z called. fetch_step L live J B E y z [] called \<and> fit live active E z \<and> work z < work y"
proof -
  note f = fitD [OF fit]
  have legal: "legal_reaction (y_fetch y) eager_reaction" by simp
  obtain t where t: "run_call L J B E eager_reaction c (y_fetch y) = Inr t"
    using call_total [OF J f(3) batch legal] by blast
  let ?out = "handed_out c (y_fetch y)"
  let ?z = "y\<lparr>y_fetch := t, y_batch := rest, y_reported := y_reported y @ ?out\<rparr>"
  have step: "fetch_step L live J B E y ?z [] ?out" using batch t legal refl by (rule f_call)
  have r: "f_resolver t = f_resolver (y_fetch y)" by (rule call_resolver [OF f(8,1) batch t legal])
  have "es_async_callbacks (f_es t) = es_async_callbacks (f_es (y_fetch y))"
    by (rule call_queue [OF f(8) batch t legal])
  with r batch have "work ?z < work y" by (simp add: work_def)
  moreover have "answers_ok ?z" using f(4) r by (simp add: answers_ok_def)
  moreover have "f_multi t \<noteq> [] \<longrightarrow> f_timer t \<noteq> None"
    using eager_call [OF t f(2) sys_inv_tasks(1) [OF f(8)] f(7)] .
  ultimately show ?thesis using step fit_step [OF step fit] by auto
qed

text \<open>The event of a handle can fire.\<close>

lemma handle_fires:
  assumes safe: "safe_inv live active y" and "y_batch y = []" and hh: "es_handles (f_es (y_fetch y)) h = Some hh"
  obtains es' calls where
    "fetch_step L live J B E y (y\<lparr>y_fetch := (y_fetch y)\<lparr>f_es := es'\<rparr>, y_batch := calls\<rparr>) [] []"
    "async_calls calls @ es_async_callbacks es' = es_async_callbacks (f_es (y_fetch y))"
    "h_type hh = kTimer \<Longrightarrow> h_timer_cb hh = Some DrainAsync \<Longrightarrow>
      calls = map AsyncCall (es_async_callbacks (f_es (y_fetch y))) \<and> es_async_callbacks es' = []"
    "h_type hh = kTimer \<Longrightarrow> h_timer_cb hh = Some (ClientTimer cb) \<Longrightarrow> calls = [TimerCall cb]"
proof -
  have ok: "handles_ok live active (y_fetch y)" using safe_invD(3) [OF safe] .
  then have s: "es_sound live active (f_es (y_fetch y))" by (simp add: handles_ok_def)
  then obtain ev where "h_ev hh = Some ev" using hh unfolding es_sound_def by blast
  with s hh es_inv_handle [of live active "f_es (y_fetch y)" h hh]
  obtain fd flags where l: "live (es_eb (f_es (y_fetch y))) ev = Some (fd, flags, h)"
    unfolding es_sound_def handle_ok_def by blast
  obtain es' calls where cb: "EventServer.ev_cb fd 0 h
      ((f_es (y_fetch y))\<lparr>es_eb := le_take L (es_eb (f_es (y_fetch y))) ev\<rparr>) = Inr (es', calls)"
    using fire_total [OF ok l] by blast
  have q: "async_calls calls @ es_async_callbacks es' = es_async_callbacks (f_es (y_fetch y))"
    using ev_cb_queue [OF cb] by simp
  show thesis
    by (rule that [OF f_fire [where L = L and live = live, OF assms(2) l cb] q])
      (use cb hh in \<open>auto simp: EventServer.ev_cb_def\<close>)
qed

lemma drain_fires:
  assumes safe: "safe_inv live active y" and "y_batch y = []"
  obtains es' where "es_async_callbacks es' = []"
    "fetch_step L live J B E y (y\<lparr>y_fetch := (y_fetch y)\<lparr>f_es := es'\<rparr>,
      y_batch := map AsyncCall (es_async_callbacks (f_es (y_fetch y)))\<rparr>) [] []"
proof -
  let ?es = "f_es (y_fetch y)"
  have inv: "es_inv live active ?es"
    using safe_invD(3) [OF safe] by (simp add: handles_ok_def es_sound_def)
  obtain hh where hh: "es_handles ?es (es_async_handle ?es) = Some hh" using es_inv_async [OF inv] by blast
  have k: "h_type hh = kTimer" "h_timer_cb hh = Some DrainAsync"
    using es_inv_handle [OF inv hh] by (simp_all add: drains_def)
  show thesis
    by (rule handle_fires [OF safe assms(2) hh]) (use k that in blast)
qed

lemma fire_progress:
  assumes fit: "fit live active E y" and "y_batch y = []" and q: "es_async_callbacks (f_es (y_fetch y)) \<noteq> []"
  shows "\<exists>z called. fetch_step L live J B E y z [] called \<and> fit live active E z \<and> work z < work y"
proof -
  note f = fitD [OF fit]
  obtain es' where c: "es_async_callbacks es' = []"
    and step: "fetch_step L live J B E y (y\<lparr>y_fetch := (y_fetch y)\<lparr>f_es := es'\<rparr>,
      y_batch := map AsyncCall (es_async_callbacks (f_es (y_fetch y)))\<rparr>) [] []"
    by (rule drain_fires [OF f(3) assms(2)])
  let ?z = "y\<lparr>y_fetch := (y_fetch y)\<lparr>f_es := es'\<rparr>,
    y_batch := map AsyncCall (es_async_callbacks (f_es (y_fetch y)))\<rparr>"
  have "work ?z < work y" using c q assms(2) by (simp add: work_def)
  moreover have "answers_ok ?z" using f(4) by (simp add: answers_ok_def)
  ultimately show ?thesis using step fit_step [OF step fit] f(7) by auto
qed

lemma work_progress:
  assumes J: "json_laws J mems items" and fit: "fit live active E y" and "\<not> settled y"
  shows "\<exists>z called. fetch_step L live J B E y z [] called \<and> fit live active E z \<and> work z < work y"
proof (cases "y_dns y")
  case (Cons d rest)
  obtain p addrs st where "d = (p, addrs, st)" by (cases d)
  with Cons dns_progress [OF fit] show ?thesis by blast
next
  case dns: Nil
  consider "y_new y \<noteq> []" | "y_flight y \<noteq> []" | "r_tasks (f_resolver (y_fetch y)) \<noteq> []" | "y_batch y \<noteq> []"
    | "y_batch y = []" "es_async_callbacks (f_es (y_fetch y)) \<noteq> []"
    using assms(3) dns by (auto simp: settled_def)
  then show ?thesis
  proof cases
    case 1
    then obtain p where "p \<in> set (y_new y)" by (meson list.set_sel(1))
    with add_progress [OF fit dns] show ?thesis by blast
  next
    case 2
    then obtain name where "name \<in> set (y_flight y)" by (meson list.set_sel(1))
    with reply_progress [OF fit dns] show ?thesis by blast
  next
    case 3
    with notify_progress [OF fit dns] show ?thesis by blast
  next
    case 4
    then obtain c rest where "y_batch y = c # rest" by (cases "y_batch y") auto
    with call_progress [OF J fit] show ?thesis by blast
  next
    case 5
    with fire_progress [OF fit] show ?thesis by blast
  qed
qed

end

sublocale libevent_total < settle: progressing "fetch_step L live J B E"
    "\<lambda>y. fit live active E y \<and> (\<exists>mems items. json_laws J mems items)" settled work
  for J :: "'j json" and B E
proof
  fix s :: "('j, 'a) sys"
  assume "fit live active E s \<and> (\<exists>mems items. json_laws J mems items)" "\<not> settled s"
  with work_progress show "\<exists>t called. fetch_step L live J B E s t [] called \<and>
      (fit live active E t \<and> (\<exists>mems items. json_laws J mems items)) \<and> work t < work s" by blast
qed

section \<open>The last turn\<close>

text \<open>libcurl reports all transfers done; then a request collects them.\<close>

definition finish_reaction :: "('j, 'eb) fetcher \<Rightarrow> reaction" where
  "finish_reaction s = no_reaction\<lparr>rx_socket_action := (\<lambda>_ _.
     ([], map (\<lambda>h. \<lparr>m_easy = h, m_done = True, m_result = 0, m_code = 200\<rparr>) (f_multi s), 0))\<rparr>"

lemma finish_legal: "transfers_ok s \<Longrightarrow> legal_reaction s (finish_reaction s)"
  by (simp add: finish_reaction_def legal_reaction_def legal_socket_action_def no_reaction_def transfers_ok_def
      comp_def list_all_iff)

lemma check_multi_info_done:
  "check_multi_info L E react msgs s = Inr t \<Longrightarrow> \<forall>h. rx_remove_handle react h = [] \<Longrightarrow> list_all m_done msgs \<Longrightarrow>
   f_multi t = filter (\<lambda>h. h \<notin> m_easy ` set msgs) (f_multi s)"
proof (induction msgs arbitrary: s)
  case Nil
  then show ?case by (simp add: check_multi_info_def)
next
  case (Cons m msgs)
  then obtain u where u: "handle_msg L E [] m s = Inr u" "check_multi_info L E react msgs u = Inr t"
    by (auto simp: check_multi_info_def bind_outcome_Inr_iff)
  obtain e where e: "f_easys s (m_easy m) = Some e" using u(1) by (auto simp: handle_msg_def split: option.splits)
  have "m_done m" using Cons.prems(3) by simp
  then have "f_multi u = List.removeAll (m_easy m) (f_multi s)" using handle_done [OF u(1) _ _ e] by simp
  moreover have "f_multi t = filter (\<lambda>h. h \<notin> m_easy ` set msgs) (f_multi u)"
    using Cons.IH [OF u(2) Cons.prems(2)] Cons.prems(3) by simp
  ultimately show ?case by (auto simp: removeAll_filter_not_eq intro!: filter_cong)
qed

lemma served_done:
  assumes "served s" and "f_multi s = []"
  shows "filter (finished s) (f_tasks s) = f_tasks s"
  using assms by (auto simp: served_def running_def has_transfer_def filter_id_conv)

context libevent_total
begin

lemma transfers_end:
  assumes J: "json_laws J mems items" and fit: "fit live active E y" and "settled y"
  shows "\<exists>z. run_of (fetch_step L live J B E) y z [] [] \<and> fit live active E z \<and> settled z \<and> f_multi (y_fetch z) = []"
proof (cases "f_multi (y_fetch y) = []")
  case True
  with fit assms(3) show ?thesis by (blast intro: run_refl)
next
  case False
  note f = fitD [OF fit]
  have batch: "y_batch y = []" "es_async_callbacks (f_es (y_fetch y)) = []" using assms(3) by (simp_all add: settled_def)
  obtain h where h: "f_timer (y_fetch y) = Some h" using f(7) False by blast
  then obtain hh where hh: "es_handles (f_es (y_fetch y)) h = Some hh"
    using timer_owned [OF safe_invD(3) [OF f(3)]] unfolding es_owned_def by blast
  then have "h_type hh = kTimer" "h_timer_cb hh = Some (ClientTimer MultiTimer)"
    using f(6) h unfolding timer_ok_def multi_at_def by blast+
  then obtain es' where step1: "fetch_step L live J B E y
      (y\<lparr>y_fetch := (y_fetch y)\<lparr>f_es := es'\<rparr>, y_batch := [TimerCall MultiTimer]\<rparr>) [] []"
    and q: "es_async_callbacks es' = []"
    using handle_fires [OF f(3) batch(1) hh, of J B E] batch(2) by (metis Nil_is_append_conv)
  let ?u = "y\<lparr>y_fetch := (y_fetch y)\<lparr>f_es := es'\<rparr>, y_batch := [TimerCall MultiTimer]\<rparr>"
  have "answers_ok ?u" using f(4) by (simp add: answers_ok_def)
  then have fu: "fit live active E ?u" using fit_step [OF step1 fit] f(7) by simp
  note g = fitD [OF fu]
  let ?react = "finish_reaction (y_fetch ?u)"
  have legal: "legal_reaction (y_fetch ?u) ?react" by (rule finish_legal [OF sys_inv_simps(4) [OF g(8)]])
  have b: "y_batch ?u = TimerCall MultiTimer # []" by simp
  obtain t where t: "run_call L J B E ?react (TimerCall MultiTimer) (y_fetch ?u) = Inr t"
    using call_total [OF J g(3) b legal] by blast
  have out: "[] = handed_out (TimerCall MultiTimer) (y_fetch ?u)" by (simp add: handed_out_def)
  let ?z = "?u\<lparr>y_fetch := t, y_batch := [], y_reported := y_reported ?u @ []\<rparr>"
  note step2 = f_call [where L = L and live = live and J = J and B = B and E = E, OF b t legal out]
  have "check_multi_info L E ?react (map (\<lambda>h. \<lparr>m_easy = h, m_done = True, m_result = 0, m_code = 200\<rparr>)
      (f_multi (y_fetch ?u))) (y_fetch ?u) = Inr t"
    using t by (simp add: timer_event_def finish_reaction_def)
  from check_multi_info_done [OF this] have multi: "f_multi t = []"
    by (auto simp: finish_reaction_def no_reaction_def list_all_iff image_image)
  have r: "f_resolver t = f_resolver (y_fetch y)" "es_async_callbacks (f_es t) = []"
    using call_resolver [OF g(8,1) b t legal] call_queue [OF g(8) b t legal] q by simp_all
  have "fit live active E ?z"
    using fit_step [OF step2 fu] g(4) r(1) multi by (simp add: answers_ok_def)
  moreover have "settled ?z" using assms(3) r by (simp add: settled_def)
  moreover have "run_of (fetch_step L live J B E) y ?z [] []"
    using run_consI [OF run_one [where step = "fetch_step L live J B E", OF step2] step1] by simp
  ultimately show ?thesis using multi by (intro exI [of _ ?z]) simp
qed

lemma collect_ends:
  assumes J: "json_laws J mems items" and fit: "fit live active E y" and "settled y" and "f_multi (y_fetch y) = []"
  shows "\<exists>z called. run_of (fetch_step L live J B E) y z [] called \<and> sys_pending z = {#} \<and>
    es_async_callbacks (f_es (y_fetch z)) = [] \<and> y_batch z = []"
proof -
  note f = fitD [OF fit]
  have b: "y_batch y = []" "es_async_callbacks (f_es (y_fetch y)) = []" using assms(3) by (simp_all add: settled_def)
  obtain es where es: "add_async L (CollectDone 0) (f_es (y_fetch y)) = Inr es"
    using async_total [OF safe_invD(3) [OF f(3)]] by blast
  then have "get_done_tasks_req L 0 (y_fetch y) = Inr ((y_fetch y)\<lparr>f_es := es\<rparr>)"
    by (simp add: get_done_tasks_req_def es_do_def)
  note step1 = f_result [where L = L and live = live and J = J and B = B and E = E, OF this]
  let ?u = "y\<lparr>y_fetch := (y_fetch y)\<lparr>f_es := es\<rparr>\<rparr>"
  have "answers_ok ?u" using f(4) by (simp add: answers_ok_def)
  then have fu: "fit live active E ?u" using fit_step [OF step1 fit] f(7) by simp
  note g = fitD [OF fu]
  have q: "es_async_callbacks es = [CollectDone 0]" using async_queue [OF es] b(2) by simp
  have "y_batch ?u = []" using b(1) by simp
  then obtain es' where es': "es_async_callbacks es' = []" and "fetch_step L live J B E ?u (?u\<lparr>y_fetch := (y_fetch ?u)\<lparr>f_es := es'\<rparr>,
      y_batch := map AsyncCall (es_async_callbacks (f_es (y_fetch ?u)))\<rparr>) [] []"
    by (rule drain_fires [OF g(3)])
  then have step2: "fetch_step L live J B E ?u
      (?u\<lparr>y_fetch := (y_fetch ?u)\<lparr>f_es := es'\<rparr>, y_batch := [AsyncCall (CollectDone 0)]\<rparr>) [] []"
    by (simp add: q)
  let ?v = "?u\<lparr>y_fetch := (y_fetch ?u)\<lparr>f_es := es'\<rparr>, y_batch := [AsyncCall (CollectDone 0)]\<rparr>"
  have "answers_ok ?v" using f(4) by (simp add: answers_ok_def)
  then have fv: "fit live active E ?v" using fit_step [OF step2 fu] f(7) by simp
  note i = fitD [OF fv]
  have legal: "legal_reaction (y_fetch ?v) no_reaction" by simp
  have bv: "y_batch ?v = AsyncCall (CollectDone 0) # []" by simp
  obtain t where t: "run_call L J B E no_reaction (AsyncCall (CollectDone 0)) (y_fetch ?v) = Inr t"
    using call_total [OF J i(3) bv legal] by blast
  let ?out = "handed_out (AsyncCall (CollectDone 0)) (y_fetch ?v)"
  let ?z = "?v\<lparr>y_fetch := t, y_batch := [], y_reported := y_reported ?v @ ?out\<rparr>"
  note step3 = f_call [where L = L and live = live and J = J and B = B and E = E, OF bv t legal refl]
  have run: "run_of (fetch_step L live J B E) y ?z [] ?out"
    using run_consI [OF run_consI [OF run_one [where step = "fetch_step L live J B E", OF step3] step2] step1] by simp
  have "sys_pending ?z + mset ?out = sys_pending y"
    using tasks.run_once [OF run] f(1,8) by simp
  moreover have "?out = f_tasks (y_fetch y)"
    using served_done [OF f(5) assms(4)] by (simp add: handed_out_def finished_def [abs_def])
  moreover have "sys_pending y = mset (f_tasks (y_fetch y))"
    using settled_waiting [OF f(8) assms(3)] by (simp add: sys_pending_def)
  ultimately have "sys_pending ?z = {#}" by simp
  moreover have "es_async_callbacks (f_es t) = []"
    using call_queue [OF safe_invD(1) [OF i(3)] bv t legal] es' by simp
  ultimately show ?thesis using run by (intro exI [of _ ?z] exI [of _ ?out]) simp
qed

lemma completes:
  assumes J: "json_laws J mems items" and "fit live active E y"
  shows "\<exists>z called. run_of (fetch_step L live J B E) y z [] called \<and> sys_pending z = {#} \<and>
    es_async_callbacks (f_es (y_fetch z)) = [] \<and> y_batch z = []"
proof -
  obtain u called where u: "run_of (fetch_step L live J B E) y u [] called" "fit live active E u" "settled u"
    using settle.reaches_goal [of E y J B] assms by blast
  obtain v where v: "run_of (fetch_step L live J B E) u v [] []" "fit live active E v" "settled v" "f_multi (y_fetch v) = []"
    using transfers_end [OF J u(2,3)] by blast
  obtain z called' where z: "run_of (fetch_step L live J B E) v z [] called'" "sys_pending z = {#}"
    "es_async_callbacks (f_es (y_fetch z)) = []" "y_batch z = []"
    using collect_ends [OF J v(2-4)] by blast
  from run_trans [OF z(1) run_trans [OF v(1) u(1)]] z(2-4) show ?thesis by auto
qed

end

section \<open>A task that gets no transfer\<close>

definition env_none :: fenv where
  "env_none = env0\<lparr>en_easy_init := (\<lambda>_. None)\<rparr>"

lemma good_env_none: "good_env env_none"
  using good_env0 by (simp add: good_env_def good_alloc_def env_none_def)

lemma run_stuck:
  "\<exists>y. run_of (fetch_step lb lb_live jv rfc4648 env_none) (sys0 fetcher0) y [1] [] \<and>
     running (y_fetch y) 1 \<and> \<not> has_transfer (y_fetch y) 1"
proof -
  obtain y where y: "run_of (fetch_step lb lb_live jv rfc4648 env_none) (sys0 fetcher0) y [1] []"
    "y_batch y = [AsyncCall (StartTransfer 1)]" "f_multi (y_fetch y) = []"
    using run_batch_with [where f = "\<lambda>_. None"] good_env_none unfolding env_none_def by blast
  have inv: "sys_inv y" using reach_inv [OF fetcher0_ok good_env_none y(1)] .
  have w: "1 \<in># waiting y" by (simp add: waiting_def y(2))
  then obtain c where c: "f_ctxs (y_fetch y) 1 = Some c" using sys_inv_waiting_only(3) [OF inv] by blast
  then obtain t where t: "start_transfer lb env_none [] 1 (y_fetch y) = Inr t" "f_multi t = []"
    using y(3) by (simp add: start_transfer_def get_ctx_def Let_def set_ctx_def env_none_def)
  let ?z = "y\<lparr>y_fetch := t, y_batch := [], y_reported := y_reported y @ []\<rparr>"
  have "fetch_step lb lb_live jv rfc4648 env_none y ?z [] []"
    by (rule f_call [OF y(2), where react = no_reaction]) (simp_all add: t [simplified] handed_out_def)
  from run_of.run_step [where step = "fetch_step lb lb_live jv rfc4648 env_none", OF y(1) this]
  have run: "run_of (fetch_step lb lb_live jv rfc4648 env_none) (sys0 fetcher0) ?z [1] []" by simp
  have "f_tasks t = f_tasks (y_fetch y) @ [1] \<and> (\<forall>q. finished t q \<longleftrightarrow> finished (y_fetch y) q)"
    using start_transfer_effect0 [OF t(1) good_env_none sys_inv_simps(4) [OF inv]
        sys_inv_waiting_only(1) [OF inv w] sys_inv_waiting [OF inv w]] by blast
  then have "running (y_fetch ?z) 1 \<and> \<not> has_transfer (y_fetch ?z) 1"
    using t(2) sys_inv_waiting [OF inv w] by (simp add: running_def has_transfer_def)
  with run show ?thesis by blast
qed

section \<open>Reachable states\<close>

lemma reach_fit:
  assumes "libevent_total L live active armed" and "Fetcher L = Inr s" and "good_env E" "eager_env E"
    and "run_of (fetch_step L live J B E) (sys0 s) y reg called"
    and "answers_ok y" and "f_multi (y_fetch y) \<noteq> [] \<longrightarrow> f_timer (y_fetch y) \<noteq> None"
  shows "fit live active E y"
proof -
  have safe: "safe_inv live active y" using libevent_total.reach_safe [OF assms(1,2,3,5)] .
  have "timer_ok (y_fetch (sys0 s))" using timer_init [OF assms(2)] by (simp add: sys0_def)
  then have "timer_ok (y_fetch y)" "served (y_fetch y)"
    using timer_run [OF assms(5,3) sys_init_inv(1) [OF assms(2)]]
      served_run [OF assms(5,3,4) sys_init_inv(1) [OF assms(2)] served_init [OF assms(2)]] by blast+
  with safe assms(3,4,6,7) show ?thesis unfolding fit_def by blast
qed

lemma eager_env0: "eager_env env0"
  by (simp add: eager_env_def env0_def)

lemma sys1_fits: "answers_ok sys1" "f_multi (y_fetch sys1) \<noteq> [] \<longrightarrow> f_timer (y_fetch sys1) \<noteq> None"
  by (simp_all add: answers_ok_def known_addrs_def sys1_def sys0_def set_ctx_def Resolver_def)

section \<open>Properties\<close>





end
