(* ===== verification/Fetcher_Results.thy ===== *)
theory Fetcher_Results
  imports Fetcher_Complete
begin

text \<open>
  A request for results from the moment it queues its closure to its answer: the loop comes to the
  closure, the promise is set by nothing else, and what it then holds is what was finished at that
  moment.
\<close>

section \<open>The promise\<close>

text \<open>The closure of a request is queued or in the batch, or its promise is set.\<close>

definition asked_for :: "nat \<Rightarrow> ('j, 'eb) sys \<Rightarrow> bool" where
  "asked_for q y \<longleftrightarrow> CollectDone q \<in> set (es_async_callbacks (f_es (y_fetch y))) \<union> set (async_calls (y_batch y)) \<or>
     f_promises (y_fetch y) q \<noteq> None"

definition idle :: "('j, 'eb) sys \<Rightarrow> bool" where
  "idle y \<longleftrightarrow> es_async_callbacks (f_es (y_fetch y)) = [] \<and> y_batch y = []"

definition queued :: "('j, 'eb) sys \<Rightarrow> nat" where
  "queued y = 2 * length (es_async_callbacks (f_es (y_fetch y))) + length (y_batch y)"

lemma collect_loop_promises:
  "collect_loop J B ps resp busy s = Inr (t, resp', busy') \<Longrightarrow> f_promises t = f_promises s"
proof (induction ps arbitrary: resp busy s)
  case (Cons p ps)
  then show ?case by (auto simp: bind_outcome_Inr_iff split: if_splits)
qed simp

text \<open>Only the closure of the request sets its promise.\<close>

definition same_promises :: "('j, 'eb) fetcher \<Rightarrow> ('j, 'eb) fetcher \<Rightarrow> bool" where
  "same_promises s t \<longleftrightarrow> f_promises t = f_promises s"

lemma same_promises_refl [simp]: "same_promises s s"
  and same_promises_trans: "same_promises s t \<Longrightarrow> same_promises t u \<Longrightarrow> same_promises s u"
  and same_tasks_promises: "same_tasks s t \<Longrightarrow> same_promises s t"
  by (simp_all add: same_promises_def same_tasks_def)

lemma resolver_cb_promises: "resolver_cb L E p addrs st s = Inr t \<Longrightarrow> same_promises s t"
  by (auto simp: resolver_cb_def bind_outcome_Inr_iff read_ms_def read_clock_def read_rand_def Let_def
      set_ctx_def es_do_Inr same_promises_def split: if_splits)

lemma add_promises:
  assumes "add L E p s = Inr t"
  shows "same_promises s t"
proof -
  obtain c where c: "f_ctxs s p = Some c" using assms by (auto simp: add_def bind_outcome_Inr_iff get_ctx_Inr)
  let ?s = "s\<lparr>f_ctxs := (f_ctxs s)(p \<mapsto> c\<lparr>c_start_req_time_ms := Some (fst (read_ms E s))\<rparr>),
    f_tick := Suc (Suc (f_tick s))\<rparr>"
  obtain r calls where "resolve (en_clock E (Suc (f_tick s))) (u_host (c_uri c)) p (f_resolver s) = (r, calls)"
    by fastforce
  with assms c have run: "fold_outcome (\<lambda>(q, addrs, st). resolver_cb L E q addrs st) calls (?s\<lparr>f_resolver := r\<rparr>) = Inr t"
    by (simp add: add_def get_ctx_def read_ms_def read_clock_def set_ctx_def Let_def)
  show ?thesis
  proof (rule fold_outcome_invariant [OF run])
    show "same_promises s (?s\<lparr>f_resolver := r\<rparr>)" by (simp add: same_promises_def)
  qed (auto dest: resolver_cb_promises intro: same_promises_trans)
qed

lemma perform_promises: "perform L act s = Inr t \<Longrightarrow> same_promises s t"
  by (cases act) (auto simp: bind_outcome_Inr_iff set_ctx_def same_promises_def split: option.splits
      dest!: socket_cb_same_tasks timer_cb_same_tasks same_tasks_promises)

lemma performs_promises: "fold_outcome (perform L) acts s = Inr t \<Longrightarrow> same_promises s t"
  by (erule fold_outcome_invariant) (auto dest: perform_promises intro: same_promises_trans)

lemma handle_msg_promises:
  assumes "handle_msg L E acts m s = Inr t"
  shows "same_promises s t"
  using assms
  by (auto simp: handle_msg_def bind_outcome_Inr_iff read_ms_def read_clock_def set_ctx_def Let_def
      same_promises_def split: option.splits if_splits dest!: performs_promises)

lemma multi_info_promises: "check_multi_info L E react msgs s = Inr t \<Longrightarrow> same_promises s t"
  unfolding check_multi_info_def
  by (erule fold_outcome_invariant) (auto dest: handle_msg_promises intro: same_promises_trans)

lemma collect_promises:
  assumes "collect_done J B q s = Inr t"
  obtains x where "f_promises t = (f_promises s)(q \<mapsto> x)"
proof -
  obtain resp u resp' busy where "collect_loop J B (rev (f_tasks s)) resp [] (s\<lparr>f_tasks := []\<rparr>) = Inr (u, resp', busy)"
    "t = u\<lparr>f_tasks := busy, f_promises := (f_promises u)(q \<mapsto> resp')\<rparr>"
    using assms by (auto simp: collect_done_def bind_outcome_Inr_iff)
  with collect_loop_promises [OF this(1)] that show thesis by simp
qed

lemma call_promises:
  assumes "run_call L J B E react c s = Inr t" and "\<And>q. c \<noteq> AsyncCall (CollectDone q)"
  shows "same_promises s t"
proof (cases "(L, J, B, E, react, c, s)" rule: run_call.cases)
  case (1 _ _ _ _ _ p _)
  with assms(1) show ?thesis
    by (auto simp: start_transfer_def bind_outcome_Inr_iff Let_def set_ctx_def same_promises_def
        split: option.splits if_splits dest!: performs_promises)
next
  case (3 _ _ _ _ _ h sock events _)
  with assms(1) show ?thesis
    by (auto simp: socket_event_def bind_outcome_Inr_iff es_do_Inr same_promises_def
        split: option.splits if_splits prod.splits dest!: performs_promises multi_info_promises)
next
  case (4 _ _ _ _ _ _)
  with assms(1) show ?thesis
    by (auto simp: timer_event_def bind_outcome_Inr_iff split: prod.splits
        dest!: performs_promises multi_info_promises intro: same_promises_trans)
qed (use assms in auto)

lemma promise_step:
  assumes "fetch_step L live J B E y z reg called"
  shows "f_promises (y_fetch z) q = f_promises (y_fetch y) q \<or> collect_done J B q (y_fetch y) = Inr (y_fetch z)"
  using assms
proof cases
  case (f_call c rest react s')
  then show ?thesis
  proof (cases "\<exists>r. c = AsyncCall (CollectDone r)")
    case True
    then obtain r where r: "collect_done J B r (y_fetch y) = Inr (y_fetch z)" using f_call by auto
    then show ?thesis by (cases "r = q") (auto elim: collect_promises)
  next
    case False
    with f_call call_promises [of L J B E react c "y_fetch y" s'] show ?thesis by (auto simp: same_promises_def)
  qed
qed (auto simp: set_ctx_def same_promises_def get_done_tasks_req_def es_do_Inr dest: add_promises resolver_cb_promises)

text \<open>A promise that a run has set holds what its closure collected on the way.\<close>

lemma promise_origin:
  assumes "run_of (fetch_step L live J B E) y z reg called" and "f_promises (y_fetch y) q = None"
    and "f_promises (y_fetch z) q = Some x"
  shows "\<exists>u t reg1 called1 reg2 called2. run_of (fetch_step L live J B E) y u reg1 called1 \<and>
    run_of (fetch_step L live J B E) u z reg2 called2 \<and> reg = reg1 @ reg2 \<and>
    collect_done J B q (y_fetch u) = Inr t \<and> f_promises t q = Some x"
  using assms
proof (induction rule: run_of.induct)
  case (run_step s v reg called w reg' called')
  from promise_step [OF run_step.hyps(2), of q] show ?case
  proof
    assume "f_promises (y_fetch w) q = f_promises (y_fetch v) q"
    with run_step.IH run_step.prems obtain u t reg1 called1 reg2 called2 where
      "run_of (fetch_step L live J B E) s u reg1 called1" "run_of (fetch_step L live J B E) u v reg2 called2"
      "reg = reg1 @ reg2" "collect_done J B q (y_fetch u) = Inr t" "f_promises t q = Some x"
      by auto
    with run_of.run_step [OF this(2) run_step.hyps(2)] show ?case by fastforce
  next
    assume "collect_done J B q (y_fetch v) = Inr (y_fetch w)"
    with run_step.hyps(1) run_one [where step = "fetch_step L live J B E", OF run_step.hyps(2)] run_step.prems(2)
    show ?case by blast
  qed
qed simp

lemma collect_sets: "run_call L J B E react (AsyncCall (CollectDone q)) s = Inr t \<Longrightarrow> f_promises t q \<noteq> None"
  by (auto elim: collect_promises)

lemma promise_kept:
  assumes "fetch_step L live J B E y z reg called" and "f_promises (y_fetch y) q \<noteq> None"
  shows "f_promises (y_fetch z) q \<noteq> None"
  using promise_step [OF assms(1), of q] assms(2) by (auto elim: collect_promises)

context libevent_total
begin

lemma drain_progress:
  assumes J: "json_laws J mems items" and E: "good_env E" and safe: "safe_inv live active y" and ask: "asked_for q y"
    and "\<not> idle y"
  shows "\<exists>z called. fetch_step L live J B E y z [] called \<and> safe_inv live active z \<and> asked_for q z \<and> queued z < queued y"
proof (cases "y_batch y")
  case Nil
  then obtain es' where es': "es_async_callbacks es' = []"
    and step: "fetch_step L live J B E y (y\<lparr>y_fetch := (y_fetch y)\<lparr>f_es := es'\<rparr>,
      y_batch := map AsyncCall (es_async_callbacks (f_es (y_fetch y)))\<rparr>) [] []"
    by (rule drain_fires [OF safe])
  let ?z = "y\<lparr>y_fetch := (y_fetch y)\<lparr>f_es := es'\<rparr>,
    y_batch := map AsyncCall (es_async_callbacks (f_es (y_fetch y)))\<rparr>"
  have "asked_for q ?z" using ask Nil by (auto simp: asked_for_def)
  moreover have "queued ?z < queued y" using assms(5) Nil es' by (simp add: queued_def idle_def)
  ultimately show ?thesis using step safe_step [OF step E safe] by blast
next
  case (Cons c rest)
  have legal: "legal_reaction (y_fetch y) no_reaction" by simp
  obtain t where t: "run_call L J B E no_reaction c (y_fetch y) = Inr t"
    using call_total [OF J safe Cons legal] by blast
  let ?out = "handed_out c (y_fetch y)"
  let ?z = "y\<lparr>y_fetch := t, y_batch := rest, y_reported := y_reported y @ ?out\<rparr>"
  have step: "fetch_step L live J B E y ?z [] ?out" using Cons t legal refl by (rule f_call)
  have q: "es_async_callbacks (f_es t) = es_async_callbacks (f_es (y_fetch y))"
    by (rule call_queue [OF safe_invD(1) [OF safe] Cons t legal])
  have "asked_for q ?z"
  proof (cases "f_promises (y_fetch ?z) q = None")
    case True
    then have "f_promises (y_fetch y) q = None" using promise_kept [OF step] by blast
    moreover have "c \<noteq> AsyncCall (CollectDone q)" using True collect_sets [of L J B E no_reaction q "y_fetch y" t] t by auto
    ultimately show ?thesis
      using ask Cons q by (auto simp: asked_for_def async_calls_def split: call.splits)
  qed (simp add: asked_for_def)
  moreover have "queued ?z < queued y" using Cons q by (simp add: queued_def)
  ultimately show ?thesis using step safe_step [OF step E safe] by blast
qed

end

sublocale libevent_total < drain: progressing "fetch_step L live J B E"
    "\<lambda>y. good_env E \<and> safe_inv live active y \<and> asked_for q y \<and> (\<exists>mems items. json_laws J mems items)" idle queued
  for J :: "'j json" and B E q
proof
  fix s :: "('j, 'a) sys"
  assume "good_env E \<and> safe_inv live active s \<and> asked_for q s \<and> (\<exists>mems items. json_laws J mems items)" "\<not> idle s"
  with drain_progress show "\<exists>t called. fetch_step L live J B E s t [] called \<and>
      (good_env E \<and> safe_inv live active t \<and> asked_for q t \<and> (\<exists>mems items. json_laws J mems items)) \<and>
      queued t < queued s" by blast
qed

context libevent_total
begin

lemma answers:
  assumes "json_laws J mems items" and "good_env E" and "safe_inv live active y" and "asked_for q y"
  shows "\<exists>z called. run_of (fetch_step L live J B E) y z [] called \<and> f_promises (y_fetch z) q \<noteq> None \<and> idle z"
proof -
  obtain z called where z: "run_of (fetch_step L live J B E) y z [] called" "asked_for q z" "idle z"
    using drain.reaches_goal [of E y q J B] assms by blast
  then have "f_promises (y_fetch z) q \<noteq> None" by (auto simp: asked_for_def idle_def async_calls_def)
  with z(1,3) show ?thesis by blast
qed

end

text \<open>What the answer lists.\<close>

definition lists_finished ::
  "('j \<Rightarrow> (string \<rightharpoonup> 'j) option) \<Rightarrow> ('j \<Rightarrow> 'j list option) \<Rightarrow> 'j json \<Rightarrow> b64 \<Rightarrow> 'j \<Rightarrow> ('j, 'eb) fetcher \<Rightarrow> bool" where
  "lists_finished mems items J B x s \<longleftrightarrow> (\<exists>a js. mems x = Some [''tasks'' \<mapsto> a] \<and> items a = Some js \<and>
     list_all2 (\<lambda>p j. to_json J B (the (f_ctxs s p)) = Inr j) (rev (filter (finished s) (f_tasks s))) js)"

lemma collect_lists:
  assumes "json_laws J mems items" and "sys_inv y" and "collect_done J B q (y_fetch y) = Inr t"
    and "f_promises t q = Some x"
  shows "lists_finished mems items J B x (y_fetch y)"
  using collect_done_ok [OF assms(1) sys_inv_tasks(1,2) [OF assms(2)], of B q] assms(3,4)
  unfolding lists_finished_def by fastforce

context libevent_total
begin

text \<open>From any safe state the closure can be queued, and a run of the loop alone then sets the promise.\<close>

lemma result_runs:
  assumes J: "json_laws J mems items" and E: "good_env E" and safe: "safe_inv live active y"
    and new: "f_promises (y_fetch y) q = None"
  shows "\<exists>s z called u called' x. get_done_tasks_req L q (y_fetch y) = Inr s \<and>
    run_of (fetch_step L live J B E) (y\<lparr>y_fetch := s\<rparr>) u [] called \<and>
    run_of (fetch_step L live J B E) u z [] called' \<and>
    f_promises (y_fetch z) q = Some x \<and> lists_finished mems items J B x (y_fetch u)"
proof -
  obtain es where es: "add_async L (CollectDone q) (f_es (y_fetch y)) = Inr es"
    using async_total [OF safe_invD(3) [OF safe]] by blast
  let ?s = "(y_fetch y)\<lparr>f_es := es\<rparr>"
  let ?v = "y\<lparr>y_fetch := ?s\<rparr>"
  have g: "get_done_tasks_req L q (y_fetch y) = Inr ?s"
    using es by (simp add: get_done_tasks_req_def es_do_def)
  have v: "safe_inv live active ?v" using safe_step [OF f_result [OF g] E safe] .
  have "asked_for q ?v" using async_queue [OF es] by (simp add: asked_for_def)
  from answers [OF J E v this, of B] obtain z called x where
    z: "run_of (fetch_step L live J B E) ?v z [] called" "f_promises (y_fetch z) q = Some x" by blast
  obtain u t called1 called2 where u: "run_of (fetch_step L live J B E) ?v u [] called1"
    "run_of (fetch_step L live J B E) u z [] called2" "collect_done J B q (y_fetch u) = Inr t" "f_promises t q = Some x"
    using promise_origin [OF z(1) _ z(2)] new by auto
  have "sys_inv u" using tasks.run_inv [OF u(1)] safe_invD(1) [OF v] E by blast
  from collect_lists [OF J this u(3,4)] g z(2) u(1,2) show ?thesis by blast
qed

end

end
