(* ===== verification/Fairness.thy ===== *)
theory Fairness
  imports Callbacks
begin

text \<open>
  Executions that never end, and what happens in them when no thread is kept waiting for ever. A
  callback goes through stages (a queue, a batch, a request in flight); \<open>staged\<close> promises that a
  step never takes it back, and concludes that it reaches its end in every execution that does not
  leave it in one stage for ever. Fairness is an assumption on the execution, never on the code.
\<close>

section \<open>Executions\<close>

text \<open>\<open>c n\<close> is the state after \<open>n\<close> steps and \<open>out n\<close> what the next step calls; a step may be idle.\<close>

definition execution ::
  "('s \<Rightarrow> 's \<Rightarrow> 'cb list \<Rightarrow> 'cb list \<Rightarrow> bool) \<Rightarrow> (nat \<Rightarrow> 's) \<Rightarrow> (nat \<Rightarrow> 'cb list) \<Rightarrow> bool" where
  "execution step c out \<longleftrightarrow>
     (\<forall>n. (\<exists>reg. step (c n) (c (Suc n)) reg (out n)) \<or> c (Suc n) = c n \<and> out n = [])"

lemma execution_next:
  assumes "execution step c out"
  obtains reg where "step (c n) (c (Suc n)) reg (out n)" | "c (Suc n) = c n" "out n = []"
  using assms unfolding execution_def by blast

lemma execution_run:
  assumes "execution step c out"
  shows "n \<le> m \<Longrightarrow> \<exists>reg. run_of step (c n) (c m) reg (concat (map out [n..<m]))"
proof (induction m rule: dec_induct)
  case base
  show ?case using run_refl by force
next
  case (step m)
  then obtain reg where reg: "run_of step (c n) (c m) reg (concat (map out [n..<m]))" by blast
  from assms show ?case
  proof (cases rule: execution_next [where n = m])
    case (1 reg')
    from run_step [OF reg 1] step.hyps(1) show ?thesis by fastforce
  next
    case 2
    with reg step.hyps(1) show ?thesis by auto
  qed
qed

lemma execution_inv:
  assumes "execution step c out" and "I (c 0)"
    and "\<And>s t reg called. step s t reg called \<Longrightarrow> I s \<Longrightarrow> I t"
  shows "I (c n)"
proof (induction n)
  case (Suc n)
  from assms(1) show ?case
    by (cases rule: execution_next [where n = n]) (use Suc assms(3) in auto)
qed (use assms(2) in simp)

text \<open>An execution that has come to rest can be continued by any run, and rest again after it.\<close>

lemma run_extends:
  assumes "run_of step s t reg called" and "execution step c out" and "\<forall>m\<ge>N. c m = s"
  shows "\<exists>c' out' M. execution step c' out' \<and> N \<le> M \<and> (\<forall>m\<le>N. c' m = c m) \<and> (\<forall>m\<ge>M. c' m = t)"
  using assms
proof (induction rule: run_of.induct)
  case (run_step s t reg called u reg' called')
  then obtain c' out' M where c: "execution step c' out'" "N \<le> M" "\<forall>m\<le>N. c' m = c m" "\<forall>m\<ge>M. c' m = t"
    by blast
  let ?c = "\<lambda>n. if n \<le> M then c' n else u" and ?out = "\<lambda>n. if n < M then out' n else if n = M then called' else []"
  have "execution step ?c ?out"
    unfolding execution_def
  proof
    fix n
    consider "n < M" | "n = M" | "M < n" by linarith
    then show "(\<exists>reg. step (?c n) (?c (Suc n)) reg (?out n)) \<or> ?c (Suc n) = ?c n \<and> ?out n = []"
    proof cases
      case 1
      with c(1) show ?thesis by (simp add: execution_def)
    next
      case 2
      with c(4) run_step.hyps(2) show ?thesis by auto
    qed simp
  qed
  with c(2,3) show ?case by (intro exI [of _ ?c] exI [of _ ?out] exI [of _ "Suc M"]) auto
qed blast

lemma run_execution:
  assumes "run_of step s t reg called" and "run_of step t u reg' called'"
  shows "\<exists>c out N M. execution step c out \<and> c 0 = s \<and> c N = t \<and> (\<forall>m\<ge>M. c m = u)"
proof -
  have "execution step (\<lambda>n. s) (\<lambda>n. [])" by (simp add: execution_def)
  from run_extends [OF assms(1) this, of 0] obtain c out N where
    c: "execution step c out" "c 0 = s" "\<forall>m\<ge>N. c m = t" by auto
  from run_extends [OF assms(2) c(1,3)] obtain c' out' M where
    "execution step c' out'" "\<forall>m\<le>N. c' m = c m" "\<forall>m\<ge>M. c' m = u" by blast
  with c(2,3) show ?thesis
    by (intro exI [of _ c'] exI [of _ out'] exI [of _ N] exI [of _ M]) simp
qed

text \<open>What holds when it has come to rest holds at last.\<close>

lemma rests: "\<forall>m\<ge>M :: nat. c m = u \<Longrightarrow> P u \<Longrightarrow> \<exists>m\<ge>n. P (c m)"
  by (intro exI [of _ "n + M"]) simp

section \<open>Leaving a place\<close>

text \<open>What holds until something happens, and does not hold for ever, makes it happen.\<close>

lemma left_by:
  assumes "P n" and "\<And>i. n \<le> i \<Longrightarrow> P i \<Longrightarrow> P (Suc i) \<or> Q i" and "\<exists>m\<ge>n. \<not> P m"
  shows "\<exists>m\<ge>n. P m \<and> Q m"
proof (rule ccontr)
  assume never: "\<not> (\<exists>m\<ge>n. P m \<and> Q m)"
  have "P m" if "n \<le> m" for m
    using that by (induction m rule: dec_induct) (use assms(1,2) never in blast)+
  with assms(3) show False by blast
qed

text \<open>A list that one thread works off from the front, and that is filled only when it is empty.\<close>

definition worked_off :: "(nat \<Rightarrow> 'x list) \<Rightarrow> bool" where
  "worked_off w \<longleftrightarrow> (\<forall>n. w n \<noteq> [] \<longrightarrow> (\<exists>m\<ge>n. w m \<noteq> w n))"

lemma worked_off_empties:
  assumes "worked_off w" and step: "\<And>i. w i \<noteq> [] \<Longrightarrow> w (Suc i) = w i \<or> w (Suc i) = tl (w i)"
  shows "\<exists>m\<ge>n. w m = []"
proof (induction "length (w n)" arbitrary: n rule: less_induct)
  case less
  show ?case
  proof (cases "w n = []")
    case False
    with assms(1) have "\<exists>m\<ge>n. \<not> w m = w n" unfolding worked_off_def by blast
    with step False obtain m where m: "n \<le> m" "w m = w n" "w (Suc m) = tl (w m)"
      using left_by [of "\<lambda>i. w i = w n" n "\<lambda>i. w (Suc i) = tl (w i)"] by metis
    with False have "length (w (Suc m)) < length (w n)" by simp
    from less.hyps [OF this] m(1) show ?thesis by (meson le_SucI le_trans)
  qed blast
qed

section \<open>Stages\<close>

text \<open>\<open>stage i s\<close> says that the callback is in stage \<open>i\<close>; \<open>ends s t called\<close> that a step ends its way.\<close>

locale staged =
  fixes step :: "'s \<Rightarrow> 's \<Rightarrow> 'cb list \<Rightarrow> 'cb list \<Rightarrow> bool"
    and inv :: "'s \<Rightarrow> bool"
    and stage :: "nat \<Rightarrow> 's \<Rightarrow> bool"
    and ends :: "'s \<Rightarrow> 's \<Rightarrow> 'cb list \<Rightarrow> bool"
  assumes stage_inv: "step s t reg called \<Longrightarrow> inv s \<Longrightarrow> inv t"
    and forward: "step s t reg called \<Longrightarrow> inv s \<Longrightarrow> stage i s \<Longrightarrow>
      (\<exists>j\<le>i. stage j t) \<or> ends s t called"
begin

lemma stage_next:
  assumes "execution step c out" and "inv (c n)" and "stage i (c n)"
  shows "(\<exists>j\<le>i. stage j (c (Suc n))) \<or> ends (c n) (c (Suc n)) (out n)"
  using assms(1)
proof (cases rule: execution_next [where n = n])
  case (1 reg)
  from forward [OF 1 assms(2,3)] show ?thesis .
next
  case 2
  with assms(3) show ?thesis by auto
qed

lemma always_inv: "execution step c out \<Longrightarrow> inv (c 0) \<Longrightarrow> inv (c n)"
  by (erule execution_inv) (auto intro: stage_inv)

lemma reaches_end:
  assumes "execution step c out" and "inv (c 0)"
    and left: "\<And>i n. stage i (c n) \<Longrightarrow> \<exists>m\<ge>n. \<not> stage i (c m)"
  shows "stage i (c n) \<Longrightarrow> \<exists>m\<ge>n. ends (c m) (c (Suc m)) (out m)"
proof (induction i arbitrary: n rule: less_induct)
  case (less i)
  let ?Q = "\<lambda>m. (\<exists>j<i. stage j (c (Suc m))) \<or> ends (c m) (c (Suc m)) (out m)"
  have "stage i (c (Suc m)) \<or> ?Q m" if "stage i (c m)" for m
    using stage_next [OF assms(1) always_inv [OF assms(1,2)] that] nat_less_le by blast
  with left_by [of "\<lambda>m. stage i (c m)" n ?Q] less.prems left obtain m where m: "n \<le> m" "?Q m" by blast
  then show ?case
  proof (elim disjE exE conjE)
    fix j assume "j < i" "stage j (c (Suc m))"
    from less.IH [OF this] m(1) show ?thesis by (meson le_SucI le_trans)
  qed blast
qed

end

end
