(* ===== verification/Resolver_Fair.thy ===== *)
theory Resolver_Fair
  imports Resolver Fairness
begin

text \<open>
  The resolver of \<open>base/Resolver.cpp\<close> when no one keeps it waiting for ever: a callback that waits for
  a name is first in \<open>tasks_\<close>, then in a request evdns has in flight, and then it is called.
\<close>

section \<open>The stages of a callback\<close>

definition waits_at :: "string \<Rightarrow> 'cb \<Rightarrow> 'cb resolver \<Rightarrow> bool" where
  "waits_at name cb r \<longleftrightarrow> (\<exists>i. r_infos r name = Some i \<and> cb \<in> set (ri_cbs i))"

fun name_stage :: "string \<Rightarrow> 'cb \<Rightarrow> nat \<Rightarrow> 'cb resolver_sys \<Rightarrow> bool" where
  "name_stage name cb i (r, fl) \<longleftrightarrow> waits_at name cb r \<and>
     (i = 0 \<and> name \<in> set fl \<or> i = 1 \<and> name \<in> set (r_tasks r))"

lemma pending_waits:
  assumes "resolver_inv (r, fl)"
  shows "cb \<in># resolver_pending (r, fl) \<longleftrightarrow> (\<exists>name. waits_at name cb r)"
proof -
  have "finite (dom (r_infos r))" using assms by simp
  then have "cb \<in># resolver_pending (r, fl) \<longleftrightarrow> (\<exists>name \<in> dom (r_infos r). cb \<in># cbs_of (r_infos r name))"
    by (simp add: set_mset_sum)
  moreover have "cb \<in># cbs_of (r_infos r name) \<longleftrightarrow> waits_at name cb r" for name
    by (cases "r_infos r name") (simp_all add: waits_at_def cbs_of_def)
  moreover have "waits_at name cb r \<Longrightarrow> name \<in> dom (r_infos r)" for name by (auto simp: waits_at_def)
  ultimately show ?thesis by blast
qed

lemma waits_stage:
  assumes "resolver_inv (r, fl)" and "waits_at name cb r"
  obtains i where "name_stage name cb i (r, fl)"
proof -
  obtain j where j: "r_infos r name = Some j" "cb \<in> set (ri_cbs j)" using assms(2) by (auto simp: waits_at_def)
  then have "info_ok name j" using assms(1) by simp
  with j(2) have "ri_state j = kInProcessing" by (auto simp: info_ok_def)
  with j(1) assms(1) have "name \<in> set (r_tasks r @ fl)" by fastforce
  with assms(2) that show thesis by auto
qed

lemma resolve_waits:
  assumes "resolve tv name cb r = (r', calls)" and "waits_at n c r" and "n \<in> set (r_tasks r @ fl)"
    and "resolver_inv (r, fl)"
  shows "waits_at n c r'" "set (r_tasks r) \<subseteq> set (r_tasks r')"
proof -
  obtain j where j: "r_infos r n = Some j" "c \<in> set (ri_cbs j)" "ri_state j = kInProcessing"
    using assms(2-4) by (auto simp: waits_at_def)
  from j assms(1) show "waits_at n c r'" "set (r_tasks r) \<subseteq> set (r_tasks r')"
    by (auto simp: resolve_def Let_def enqueue_def set_info_def waits_at_def info_at_def refresh_def
        split: rstate.splits if_splits)
qed

lemma reply_waits:
  assumes "res_cb es tv a ptr r = Inr (r', calls)" and "waits_at n c r"
  shows "n \<noteq> ptr \<Longrightarrow> waits_at n c r'" "r_tasks r' = r_tasks r" "n = ptr \<Longrightarrow> c \<in> fst ` set calls"
  using assms
  by (auto simp: res_cb_def waits_at_def set_info_def Let_def image_image split: option.splits if_splits)

lemma stage_forward:
  assumes "resolver_step s t reg called" and "resolver_inv s" and "name_stage name cb i s"
  shows "(\<exists>j\<le>i. name_stage name cb j t) \<or> cb \<in> set called"
  using assms
proof (induction rule: resolver_step.induct)
  case (client tv name' cb' r r' calls fl)
  from client(3) have "waits_at name cb r" "name \<in> set (r_tasks r @ fl)" by auto
  from resolve_waits [OF client(1) this client(2)] client(3) show ?case by (intro disjI1 exI [of _ i]) auto
next
  case (notify accepts r r' qs fl)
  then have "r' = r\<lparr>r_tasks := [], r_notified := False\<rparr>" by (auto simp: ev_cb_def bind_outcome_Inr_iff)
  with notify(3) show ?case by (intro disjI1 exI [of _ 0]) (auto simp: waits_at_def)
next
  case (reply ptr fl es tv a r r' calls)
  then have w: "waits_at name cb r" by simp
  show ?case
  proof (cases "name = ptr")
    case True
    with reply_waits(3) [OF reply(2) w] show ?thesis by auto
  next
    case False
    with reply(4) reply_waits(1,2) [OF reply(2) w] show ?thesis
      by (intro disjI1 exI [of _ i]) (auto simp: in_set_remove1)
  qed
qed

interpretation rs_fair: staged resolver_step resolver_inv "name_stage name cb" "\<lambda>s t called. cb \<in> set called"
  for name and cb
  by unfold_locales (rule rs.step_inv, assumption+, rule stage_forward)

section \<open>Fair executions\<close>

text \<open>The resolver's thread takes the queued names at last, and evdns answers every request at last.\<close>

definition fair_resolver :: "(nat \<Rightarrow> 'cb resolver_sys) \<Rightarrow> bool" where
  "fair_resolver c \<longleftrightarrow>
     (\<forall>n. r_tasks (fst (c n)) \<noteq> [] \<longrightarrow> (\<exists>m\<ge>n. r_tasks (fst (c m)) = [])) \<and>
     (\<forall>n. \<forall>name \<in> set (snd (c n)). \<exists>m\<ge>n. name \<notin> set (snd (c m)))"

lemma fair_leaves:
  assumes "fair_resolver c" and "name_stage name cb i (c n)"
  shows "\<exists>m\<ge>n. \<not> name_stage name cb i (c m)"
proof -
  obtain r fl where rf: "c n = (r, fl)" by (cases "c n")
  have "\<exists>m\<ge>n. if i = 0 then name \<notin> set (snd (c m)) else r_tasks (fst (c m)) = []"
    using assms rf by (auto simp: fair_resolver_def)
  then obtain m where m: "n \<le> m" "if i = 0 then name \<notin> set (snd (c m)) else r_tasks (fst (c m)) = []" by blast
  obtain r' fl' where "c m = (r', fl')" by (cases "c m")
  with m have "\<not> name_stage name cb i (c m)" by (auto split: if_splits)
  with m(1) show ?thesis by blast
qed

lemma fair_calls:
  assumes "execution resolver_step c out" and "resolver_inv (c 0)" and "fair_resolver c"
    and "cb \<in># resolver_pending (c n)"
  shows "\<exists>m\<ge>n. cb \<in> set (out m)"
proof -
  obtain r fl where rf: "c n = (r, fl)" by (cases "c n")
  have inv: "resolver_inv (r, fl)" using rs_fair.always_inv [OF assms(1,2)] rf by metis
  then obtain name where "waits_at name cb r" using assms(4) pending_waits [OF inv] rf by auto
  with inv obtain i where "name_stage name cb i (r, fl)" by (rule waits_stage)
  with rf have "name_stage name cb i (c n)" by simp
  from rs_fair.reaches_end [OF assms(1,2) fair_leaves [OF assms(3)] this] show ?thesis .
qed

section \<open>Properties\<close>

text \<open>C6: Every callback gets its answer. In every execution of the resolver, however the clients, its
  thread and evdns interleave, in which the thread takes the names it is notified of and evdns
  answers what it was asked, each callback that waits is called at a later step.\<close>

theorem resolver_always_answers:
  assumes "execution resolver_step c out" and "c 0 = (Resolver, [])" and "fair_resolver c"
    and "cb \<in># resolver_pending (c n)"
  shows "\<exists>m\<ge>n. cb \<in> set (out m)"
  using fair_calls [OF assms(1) _ assms(3,4)] assms(2) resolver_inv_init by metis

theorem resolver_always_answers_witness:
  "\<exists>c out n. execution resolver_step c out \<and> c 0 = (Resolver, []) \<and> (7 :: nat) \<in># resolver_pending (c n) \<and>
     (\<exists>m\<ge>n. 7 \<in> set (out m))"
proof -
  obtain r called where r: "run_of resolver_step (asked, []) (r, []) [] called" "r_tasks r = []"
    using rs_live.reaches_goal [of "(asked, [])"] reachable_inv [OF run_asked] by auto
  obtain c out N M where c: "execution resolver_step c out" "c 0 = (Resolver, [])" "c N = (asked, [])"
    "\<forall>m\<ge>M. c m = (r, [])"
    using run_execution [OF run_asked r(1)] by blast
  have "fair_resolver c"
    unfolding fair_resolver_def using rests [OF c(4), of "\<lambda>s. r_tasks (fst s) = []"]
      rests [OF c(4), of "\<lambda>s. _ \<notin> set (snd s)"] r(2) by simp
  moreover have "waits_at ''h'' 7 asked" by (simp add: waits_at_def asked_info)
  then have "7 \<in># resolver_pending (c N)" using pending_waits [OF reachable_inv [OF run_asked]] c(3) by metis
  ultimately show ?thesis using resolver_always_answers [OF c(1,2)] c(1,2) by blast
qed

end
