(* ===== verification/Fetcher_Fair.thy ===== *)
theory Fetcher_Fair
  imports Fetcher_Results Resolver_Fair
begin

text \<open>
  The fetcher when no thread waits for ever. A task goes through the hands of three threads, a
  request for results through two queues; both are interpreted as \<open>staged\<close>, so that in every fair
  execution each comes to its end. What the threads, libcurl and the clients are assumed to do is
  stated in the four definitions of the section on fairness, and nowhere else.
\<close>

section \<open>The places of a task that waits\<close>

declare resolver_inv.simps [simp del] resolver_pending.simps [simp del]

abbreviation closures :: "('j, 'eb) sys \<Rightarrow> fetcher_cb list" where
  "closures y \<equiv> es_async_callbacks (f_es (y_fetch y))"

abbreviation resolving :: "('j, 'eb) sys \<Rightarrow> nat resolver_sys" where
  "resolving y \<equiv> (f_resolver (y_fetch y), y_flight y)"

definition place :: "('j, 'eb) sys \<Rightarrow> nat \<Rightarrow> nat multiset" where
  "place y i =
     (if i = 6 then mset (y_new y) else if i = 5 then resolver_pending (resolving y)
      else if i = 4 then mset (map fst (y_dns y)) else if i = 3 then mset (starts (closures y))
      else if i = 2 then mset (starts (async_calls (y_batch y))) else {#})"

lemma place_simps:
  "place y 6 = mset (y_new y)" "place y 5 = resolver_pending (resolving y)"
  "place y 4 = mset (map fst (y_dns y))" "place y 3 = mset (starts (closures y))"
  "place y 2 = mset (starts (async_calls (y_batch y)))"
  by (simp_all add: place_def)

lemma waiting_places: "waiting y = place y 6 + place y 5 + place y 4 + place y 3 + place y 2"
  by (simp add: waiting_def place_simps)

lemma place_cases:
  assumes "p \<in># place y i"
  obtains "i = 6" | "i = 5" | "i = 4" | "i = 3" | "i = 2"
  using assms by (simp add: place_def split: if_splits)

lemma place_waiting: "p \<in># place y i \<Longrightarrow> p \<in># waiting y"
  by (rule place_cases, assumption) (auto simp: waiting_places)

lemma waiting_place:
  assumes "p \<in># waiting y"
  obtains i where "p \<in># place y i"
  using assms by (auto simp only: waiting_places union_iff)

lemma place_once:
  assumes "sys_inv y" and "p \<in># place y i" and "p \<in># place y j"
  shows "i = j"
proof (rule ccontr)
  assume "i \<noteq> j"
  have "0 < count (place y i) p" "0 < count (place y j) p" using assms(2,3) by simp_all
  with \<open>i \<noteq> j\<close> have "1 < count (waiting y) p"
    by - (rule place_cases [OF assms(2)]; rule place_cases [OF assms(3)]; simp add: waiting_places del: count_greater_zero_iff)
  with sys_inv_waiting_only(4) [OF assms(1) place_waiting [OF assms(2)]] show False by simp
qed

text \<open>No step takes a task back: what is in a place came from there or from an earlier one.\<close>

definition from_back :: "('j, 'eb) sys \<Rightarrow> ('j, 'eb) sys \<Rightarrow> nat list \<Rightarrow> bool" where
  "from_back y z reg \<longleftrightarrow> (\<forall>i p. p \<in># place z i \<longrightarrow> p \<in> set reg \<or> (\<exists>j\<ge>i. p \<in># place y j))"

lemma from_backI:
  assumes "set (y_new z) \<subseteq> set (y_new y) \<union> set reg"
    and "set_mset (resolver_pending (resolving z)) \<subseteq> set_mset (resolver_pending (resolving y)) \<union> set (y_new y)"
    and "fst ` set (y_dns z) \<subseteq> fst ` set (y_dns y) \<union> set_mset (resolver_pending (resolving y))"
    and "set (starts (closures z)) \<subseteq> set (starts (closures y)) \<union> fst ` set (y_dns y) \<union> set (y_new y)"
    and "set (starts (async_calls (y_batch z))) \<subseteq> set (starts (async_calls (y_batch y))) \<union> set (starts (closures y))"
  shows "from_back y z reg"
  unfolding from_back_def
proof (intro allI impI)
  fix i p
  assume p: "p \<in># place z i"
  have up: "\<exists>j\<ge>i. p \<in># place y j" if "i \<le> k" "p \<in># place y k" for k
    using that by blast
  from p show "p \<in> set reg \<or> (\<exists>j\<ge>i. p \<in># place y j)"
  proof (cases rule: place_cases)
    case 1
    with p assms(1) up [of 6] show ?thesis by (auto simp: place_simps)
  next
    case 2
    with p assms(2) up [of 6] up [of 5] show ?thesis by (auto simp: place_simps)
  next
    case 3
    with p assms(3) up [of 5] up [of 4] show ?thesis by (auto simp: place_simps)
  next
    case 4
    with p assms(4) up [of 6] up [of 4] up [of 3] show ?thesis by (auto simp: place_simps)
  next
    case 5
    with p assms(5) up [of 3] up [of 2] show ?thesis by (auto simp: place_simps)
  qed
qed

lemma resolver_cb_starts:
  assumes "resolver_cb L E p addrs st s = Inr t"
  shows "set (starts (es_async_callbacks (f_es t))) \<subseteq> insert p (set (starts (es_async_callbacks (f_es s))))"
    "set (es_async_callbacks (f_es s)) \<subseteq> set (es_async_callbacks (f_es t))" "f_resolver t = f_resolver s"
  by (rule resolver_cb_effect [OF assms]; cases "is_ok st"; auto)+

lemma add_starts:
  assumes "add L E p s = Inr t"
  obtains tv host r calls where "resolve tv host p (f_resolver s) = (r, calls)" "f_resolver t = r"
    "set (starts (es_async_callbacks (f_es t))) \<subseteq> insert p (set (starts (es_async_callbacks (f_es s))))"
    "set (es_async_callbacks (f_es s)) \<subseteq> set (es_async_callbacks (f_es t))"
proof (rule add_cases [OF assms])
  fix c c' r calls tv s1
  assume a: "resolve tv (u_host (c_uri c)) p (f_resolver s) = (r, calls)" "f_resolver s1 = r" "f_es s1 = f_es s"
    "calls = [] \<and> t = s1 \<or> (\<exists>addrs st. calls = [(p, addrs, st)] \<and> resolver_cb L E p addrs st s1 = Inr t)"
  have "f_resolver t = f_resolver s1 \<and>
      set (starts (es_async_callbacks (f_es t))) \<subseteq> insert p (set (starts (es_async_callbacks (f_es s1)))) \<and>
      set (es_async_callbacks (f_es s1)) \<subseteq> set (es_async_callbacks (f_es t))"
    using a(4)
  proof (elim disjE exE conjE)
    fix addrs st assume "resolver_cb L E p addrs st s1 = Inr t"
    from resolver_cb_starts [OF this] show ?thesis by simp
  qed auto
  with a(2,3) show thesis by (intro that [OF a(1)]) auto
qed

lemma call_batch:
  assumes "y_batch y = c # rest"
  shows "set (async_calls rest) \<subseteq> set (async_calls (y_batch y))"
    "set (starts (async_calls rest)) \<subseteq> set (starts (async_calls (y_batch y)))"
  unfolding assms async_calls_Cons [of c rest] by auto

lemma step_from_back:
  assumes "fetch_step L live J B E y z reg called" and inv: "sys_inv y" and E: "good_env E"
  shows "from_back y z reg"
  using assms(1)
proof cases
  case (f_make t c p)
  then show ?thesis by (intro from_backI) (auto simp: set_ctx_def)
next
  case (f_add p s')
  obtain tv host r calls where a: "resolve tv host p (f_resolver (y_fetch y)) = (r, calls)" "f_resolver s' = r"
    "set (starts (es_async_callbacks (f_es s'))) \<subseteq> insert p (set (starts (closures y)))"
    by (rule add_starts [OF f_add(6)])
  have "resolver_pending (r, y_flight y) + mset (map fst calls) = resolver_pending (resolving y) + {#p#}"
    using resolve_step [OF sys_inv_simps(1) [OF inv] a(1)] by blast
  then have "set_mset (resolver_pending (r, y_flight y)) \<subseteq> insert p (set_mset (resolver_pending (resolving y)))"
    by (metis Un_upper1 set_mset_add_mset_insert set_mset_union add_mset_add_single)
  with a f_add set_remove1_subset [of p "y_new y"] show ?thesis by (intro from_backI) auto
next
  case (f_notify accepts r' qs)
  have "resolver_pending (r', y_flight y @ r_tasks (f_resolver (y_fetch y))) = resolver_pending (resolving y)"
    using ev_cb_step [OF sys_inv_simps(1) [OF inv] f_notify(5)] by blast
  with f_notify show ?thesis by (intro from_backI) auto
next
  case (f_reply name tv a r' calls)
  have "resolver_pending (r', remove1 name (y_flight y)) + mset (map fst calls) = resolver_pending (resolving y)"
    using res_cb_step [OF sys_inv_simps(1) [OF inv] f_reply(5,6)] by blast
  then have "set_mset (resolver_pending (r', remove1 name (y_flight y))) \<union> fst ` set calls = set_mset (resolver_pending (resolving y))"
    by (metis set_mset_union set_mset_mset set_map)
  with f_reply show ?thesis by (intro from_backI) auto
next
  case (f_dns p addrs st rest s')
  with resolver_cb_starts(1,3) [OF f_dns(5)] show ?thesis by (intro from_backI) auto
next
  case (f_result q s')
  then obtain es where "add_async L (CollectDone q) (f_es (y_fetch y)) = Inr es"
    "s' = (y_fetch y)\<lparr>f_es := es\<rparr>" by (auto simp: get_done_tasks_req_def es_do_Inr)
  with async_queue [OF this(1)] f_result show ?thesis by (intro from_backI) auto
next
  case (f_fire ev fd flags h fl es' calls)
  have "closures y = async_calls calls @ es_async_callbacks es'" using ev_cb_queue [OF f_fire(6)] by simp
  with f_fire(1) show ?thesis by (intro from_backI) auto
next
  case (f_call c rest react s')
  with call_queue [OF inv f_call(3-5)] call_resolver [OF inv E f_call(3-5)] call_batch [OF f_call(3)]
  show ?thesis by (intro from_backI) auto
qed

section \<open>The stages of a task\<close>

text \<open>The waiting places, from \<open>y_new\<close> (6) down to the batch (2); then it runs (1) and is done (0).\<close>

definition task_stage :: "nat \<Rightarrow> nat \<Rightarrow> ('j, 'eb) sys \<Rightarrow> bool" where
  "task_stage p i y \<longleftrightarrow> p \<in># place y i \<or> i = 1 \<and> phase y p = Running \<or> i = 0 \<and> phase y p = Done"

lemma phase_waiting_iff:
  assumes "sys_inv y"
  shows "phase y p = Waiting \<longleftrightarrow> p \<in># waiting y"
proof
  assume w: "phase y p = Waiting"
  then have p: "p \<in> dom (f_ctxs (y_fetch y))" "p \<notin> set (y_failed y)" "p \<notin> set (f_tasks (y_fetch y))"
    by (auto simp: phase_def split: if_splits)
  then have "count (waiting y) p = 1"
    using sys_inv_once [OF assms, of p] by (simp add: count_list_0_iff [THEN iffD2])
  then show "p \<in># waiting y" by (simp add: count_inI)
qed (rule phase_waiting [OF assms])

lemma pending_stage:
  assumes "sys_inv y" and "p \<in># sys_pending y"
  obtains i where "task_stage p i y"
proof (cases "p \<in># waiting y")
  case True
  then obtain i where "p \<in># place y i" by (rule waiting_place)
  with that show thesis by (auto simp: task_stage_def)
next
  case False
  with assms(2) have "p \<in> set (f_tasks (y_fetch y))" by (simp add: sys_pending_def)
  with sys_inv_tasks(2,3) [OF assms(1)] have "phase y p = Running \<or> phase y p = Done"
    by (auto simp: phase_def)
  with that show thesis unfolding task_stage_def by blast
qed

lemma place_low: "p \<in># place y i \<Longrightarrow> 2 \<le> i"
  by (erule place_cases) simp_all

lemma phase_ends:
  assumes "phase_step a b reg called"
  shows "a p = Waiting \<Longrightarrow> p \<notin> set reg \<and> (b p = Waiting \<or> b p = Running \<or> p \<in> set called)"
    and "a p = Running \<Longrightarrow> b p = Running \<or> b p = Done"
    and "a p = Done \<Longrightarrow> b p = Done \<or> p \<in> set called"
  using assms
proof (induction rule: phase_step.induct)
  case (a_finish b a)
  {
    case 1 then show ?case using a_finish [rule_format, of p] by auto
  next
    case 2 then show ?case using a_finish [rule_format, of p] by auto
  next
    case 3 then show ?case using a_finish [rule_format, of p] by auto
  }
qed (auto split: if_splits)

lemma task_forward:
  assumes "fetch_step L live J B E y z reg called" and "good_env E \<and> sys_inv y" and "task_stage p i y"
  shows "(\<exists>j\<le>i. task_stage p j z) \<or> p \<in> set called"
proof -
  have inv: "sys_inv y" "sys_inv z" using assms(2) tasks.step_inv [OF assms(1)] by blast+
  have ph: "phase_step (phase y) (phase z) reg called" using tasks.step_refines [OF assms(1,2)] .
  have fb: "from_back y z reg" using step_from_back [OF assms(1)] assms(2) by blast
  consider "p \<in># place y i" | "i = 1" "phase y p = Running" | "i = 0" "phase y p = Done"
    using assms(3) by (auto simp: task_stage_def)
  then show ?thesis
  proof cases
    case 1
    have w: "phase y p = Waiting" using phase_waiting [OF inv(1) place_waiting [OF 1]] .
    then have "p \<notin> set reg" using phase_ends [OF ph, of p] by simp
    show ?thesis
    proof (cases "phase z p = Waiting")
      case True
      then obtain j where j: "p \<in># place z j" using phase_waiting_iff [OF inv(2)] waiting_place by metis
      with fb \<open>p \<notin> set reg\<close> obtain k where "j \<le> k" "p \<in># place y k" unfolding from_back_def by blast
      have "k = i" using inv(1) \<open>p \<in># place y k\<close> 1 by (rule place_once)
      with \<open>j \<le> k\<close> j show ?thesis unfolding task_stage_def by blast
    next
      case False
      with phase_ends [OF ph, of p] w have "phase z p = Running \<or> p \<in> set called" by simp
      moreover have "1 \<le> i" using place_low [OF 1] by simp
      ultimately show ?thesis unfolding task_stage_def by blast
    qed
  next
    case 2
    with phase_ends [OF ph, of p] have "phase z p = Running \<or> phase z p = Done" by simp
    with 2(1) have "task_stage p 1 z \<or> task_stage p 0 z" by (auto simp: task_stage_def)
    with 2(1) show ?thesis by auto
  next
    case 3
    with phase_ends [OF ph, of p] have "phase z p = Done \<or> p \<in> set called" by simp
    with 3(1) show ?thesis unfolding task_stage_def by blast
  qed
qed

interpretation task_stages: staged "fetch_step L live J B E" "\<lambda>y. good_env E \<and> sys_inv y" "task_stage p"
    "\<lambda>y z called. p \<in> set called"
  for L :: "'eb libevent" and live :: "'eb \<Rightarrow> nat \<rightharpoonup> registration" and J :: "'j json" and B E p
  by unfold_locales (rule tasks.step_inv, assumption+, rule task_forward)

section \<open>The stages of a request\<close>

definition request_stage :: "nat \<Rightarrow> nat \<Rightarrow> ('j, 'eb) sys \<Rightarrow> bool" where
  "request_stage q i y \<longleftrightarrow> i = 1 \<and> CollectDone q \<in> set (closures y) \<or>
     i = 0 \<and> CollectDone q \<in> set (async_calls (y_batch y))"

text \<open>Only the loop takes closures out of the queue, and it takes all of them.\<close>

lemma step_queue:
  assumes "fetch_step L live J B E y z reg called" and inv: "sys_inv y" and E: "good_env E"
  shows "set (closures y) \<subseteq> set (closures z) \<union> set (async_calls (y_batch z))"
    and "y_batch z = y_batch y \<or> y_batch y = [] \<or>
      (\<exists>c react. y_batch y = c # y_batch z \<and> run_call L J B E react c (y_fetch y) = Inr (y_fetch z))"
proof -
  have "set (closures y) \<subseteq> set (closures z) \<union> set (async_calls (y_batch z)) \<and>
    (y_batch z = y_batch y \<or> y_batch y = [] \<or>
      (\<exists>c react. y_batch y = c # y_batch z \<and> run_call L J B E react c (y_fetch y) = Inr (y_fetch z)))"
    using assms(1)
  proof cases
    case (f_add p s')
    from add_starts [OF f_add(6)] f_add(1) show ?thesis by auto
  next
    case (f_dns p addrs st rest s')
    with resolver_cb_starts(2) [OF f_dns(5)] show ?thesis by auto
  next
    case (f_result q s')
    then obtain es where "add_async L (CollectDone q) (f_es (y_fetch y)) = Inr es"
      "s' = (y_fetch y)\<lparr>f_es := es\<rparr>" by (auto simp: get_done_tasks_req_def es_do_Inr)
    with async_queue [OF this(1)] f_result show ?thesis by auto
  next
    case (f_fire ev fd flags h fl es' calls)
    have "closures y = async_calls calls @ es_async_callbacks es'" using ev_cb_queue [OF f_fire(6)] by simp
    with f_fire show ?thesis by auto
  next
    case (f_call c rest react s')
    with call_queue [OF inv f_call(3-5)] show ?thesis by auto
  qed (simp_all add: set_ctx_def)
  then show "set (closures y) \<subseteq> set (closures z) \<union> set (async_calls (y_batch z))"
    and "y_batch z = y_batch y \<or> y_batch y = [] \<or>
      (\<exists>c react. y_batch y = c # y_batch z \<and> run_call L J B E react c (y_fetch y) = Inr (y_fetch z))" by blast+
qed

lemma request_forward:
  assumes "fetch_step L live J B E y z reg called" and "good_env E \<and> sys_inv y" and "request_stage q i y"
  shows "(\<exists>j\<le>i. request_stage q j z) \<or> collect_done J B q (y_fetch y) = Inr (y_fetch z)"
proof (cases "i = 0")
  case True
  then have b: "CollectDone q \<in> set (async_calls (y_batch y))" using assms(3) by (simp add: request_stage_def)
  then have "y_batch y \<noteq> []" by (auto simp: async_calls_def)
  with step_queue(2) [OF assms(1)] assms(2) consider "y_batch z = y_batch y"
    | c react where "y_batch y = c # y_batch z" "run_call L J B E react c (y_fetch y) = Inr (y_fetch z)" by blast
  then show ?thesis
  proof cases
    case 1
    with b show ?thesis by (auto simp: request_stage_def)
  next
    case 2
    then have "c = AsyncCall (CollectDone q) \<or> CollectDone q \<in> set (async_calls (y_batch z))"
      using b by (auto simp: async_calls_def split: call.splits)
    with 2(2) True show ?thesis by (auto simp: request_stage_def)
  qed
next
  case False
  then have "CollectDone q \<in> set (closures y)" "i = 1" using assms(3) by (auto simp: request_stage_def)
  with step_queue(1) [OF assms(1)] assms(2) have "request_stage q 1 z \<or> request_stage q 0 z"
    by (auto simp: request_stage_def)
  with \<open>i = 1\<close> show ?thesis by auto
qed

interpretation request_stages: staged "fetch_step L live J B E" "\<lambda>y. good_env E \<and> sys_inv y" "request_stage q"
    "\<lambda>y z called. collect_done J B q (y_fetch y) = Inr (y_fetch z)"
  for L :: "'eb libevent" and live :: "'eb \<Rightarrow> nat \<rightharpoonup> registration" and J :: "'j json" and B E q
  by unfold_locales (rule tasks.step_inv, assumption+, rule request_forward)

section \<open>Fairness\<close>

text \<open>The loop takes what is queued at last, and goes on with what it has taken.\<close>

definition fair_loop :: "(nat \<Rightarrow> ('j, 'eb) sys) \<Rightarrow> bool" where
  "fair_loop c \<longleftrightarrow> (\<forall>n. \<exists>m\<ge>n. closures (c m) = []) \<and> worked_off (\<lambda>n. y_batch (c n))"

text \<open>
  No thread stops: a client adds the contexts it has made, the resolver's thread takes the names it
  is notified of and goes on with its callbacks, evdns answers, and the loop is fair.
\<close>

definition fair_threads :: "(nat \<Rightarrow> ('j, 'eb) sys) \<Rightarrow> bool" where
  "fair_threads c \<longleftrightarrow> (\<forall>n. \<forall>p \<in> set (y_new (c n)). \<exists>m\<ge>n. p \<notin> set (y_new (c m))) \<and>
     fair_resolver (\<lambda>n. resolving (c n)) \<and> worked_off (\<lambda>n. y_dns (c n)) \<and> fair_loop c"

text \<open>Each transfer ends (\<open>CURLOPT_TIMEOUT\<close> is set), and while something is done some client asks.\<close>

definition transfers_finish :: "(nat \<Rightarrow> ('j, 'eb) sys) \<Rightarrow> bool" where
  "transfers_finish c \<longleftrightarrow> (\<forall>n p. phase (c n) p = Running \<longrightarrow> (\<exists>m\<ge>n. phase (c m) p \<noteq> Running))"

definition clients_ask :: "(nat \<Rightarrow> ('j, 'eb) sys) \<Rightarrow> bool" where
  "clients_ask c \<longleftrightarrow> (\<forall>n p. phase (c n) p = Done \<longrightarrow>
     (\<exists>m\<ge>n. phase (c m) p \<noteq> Done \<or> (\<exists>q. CollectDone q \<in> set (closures (c m)))))"

lemma batch_empties:
  assumes "execution (fetch_step L live J B E) c out" and "good_env E" and "sys_inv (c 0)" and "fair_loop c"
  shows "\<exists>m\<ge>n. y_batch (c m) = []"
proof (rule worked_off_empties)
  show "worked_off (\<lambda>n. y_batch (c n))" using assms(4) by (simp add: fair_loop_def)
  fix i assume b: "y_batch (c i) \<noteq> []"
  have inv: "sys_inv (c i)" using task_stages.always_inv [OF assms(1)] assms(2,3) by blast
  from assms(1) show "y_batch (c (Suc i)) = y_batch (c i) \<or> y_batch (c (Suc i)) = tl (y_batch (c i))"
  proof (cases rule: execution_next [where n = i])
    case (1 reg)
    from step_queue(2) [OF 1 inv assms(2)] b show ?thesis by auto
  qed simp
qed

lemma dns_empties:
  assumes "execution (fetch_step L live J B E) c out" and "worked_off (\<lambda>n. y_dns (c n))"
  shows "\<exists>m\<ge>n. y_dns (c m) = []"
proof (rule worked_off_empties [OF assms(2)])
  fix i assume d: "y_dns (c i) \<noteq> []"
  from assms(1) show "y_dns (c (Suc i)) = y_dns (c i) \<or> y_dns (c (Suc i)) = tl (y_dns (c i))"
  proof (cases rule: execution_next [where n = i])
    case (1 reg)
    then show ?thesis by cases (use d in auto)
  qed simp
qed

lemma requests_end:
  assumes ex: "execution (fetch_step L live J B E) c out" and E: "good_env E" and inv: "sys_inv (c 0)"
    and fair: "fair_loop c" and "CollectDone q \<in> set (closures (c n))"
  shows "\<exists>m\<ge>n. collect_done J B q (y_fetch (c m)) = Inr (y_fetch (c (Suc m)))"
proof (rule request_stages.reaches_end [OF ex])
  show "good_env E \<and> sys_inv (c 0)" using E inv by blast
  show "request_stage q 1 (c n)" using assms(5) by (simp add: request_stage_def)
  fix i n
  obtain m k where "n \<le> m" "closures (c m) = []" "n \<le> k" "y_batch (c k) = []"
    using fair batch_empties [OF ex E inv fair] unfolding fair_loop_def by blast
  then have "\<not> request_stage q i (c m) \<or> \<not> request_stage q i (c k)"
    by (auto simp: request_stage_def async_calls_def)
  with \<open>n \<le> m\<close> \<open>n \<le> k\<close> show "\<exists>m\<ge>n. \<not> request_stage q i (c m)" by blast
qed

section \<open>Every stage is left\<close>

text \<open>What a step of the program does to the resolver is a step of the resolver.\<close>

lemma resolver_part:
  assumes "fetch_step L live J B E y z reg called" and inv: "sys_inv y" and E: "good_env E"
  shows "\<exists>calls. ((\<exists>reg. resolver_step (resolving y) (resolving z) reg calls) \<or> resolving z = resolving y \<and> calls = []) \<and>
    set calls \<subseteq> set (y_new y) \<union> fst ` set (y_dns z)"
  using assms(1)
proof cases
  case (f_add p s')
  obtain tv host r calls where a: "resolve tv host p (f_resolver (y_fetch y)) = (r, calls)" "f_resolver s' = r"
    by (rule add_starts [OF f_add(6)])
  have "resolver_step (resolving y) (resolving z) [p] (map fst calls)"
    using client [OF a(1)] a(2) f_add(1) by simp
  moreover have "set (map fst calls) \<subseteq> set (y_new y)"
    using resolve_calls_one [OF a(1)] f_add(4) by auto
  ultimately show ?thesis by blast
next
  case (f_notify accepts r' qs)
  with notify [OF f_notify(5)] show ?thesis by (intro exI [of _ "[]"]) auto
next
  case (f_reply name tv a r' calls)
  with reply [OF f_reply(5,6)] show ?thesis by (intro exI [of _ "map fst calls"]) auto
next
  case (f_dns p addrs st rest s')
  with resolver_cb_starts(3) [OF f_dns(5)] show ?thesis by (intro exI [of _ "[]"]) simp
next
  case (f_call c rest react s')
  with call_resolver [OF inv E f_call(3-5)] show ?thesis by (intro exI [of _ "[]"]) simp
qed (auto simp: set_ctx_def get_done_tasks_req_def es_do_Inr intro!: exI [of _ "[]"])

lemma resolving_left:
  assumes ex: "execution (fetch_step L live J B E) c out" and E: "good_env E" and inv: "\<And>n. sys_inv (c n)"
    and fair: "fair_resolver (\<lambda>n. resolving (c n))"
  shows "\<exists>m\<ge>n. p \<notin># resolver_pending (resolving (c m))"
proof (cases "p \<in># resolver_pending (resolving (c n))")
  case True
  let ?P = "\<lambda>n calls. ((\<exists>reg. resolver_step (resolving (c n)) (resolving (c (Suc n))) reg calls) \<or>
      resolving (c (Suc n)) = resolving (c n) \<and> calls = []) \<and>
    set calls \<subseteq> set (y_new (c n)) \<union> fst ` set (y_dns (c (Suc n)))"
  have "\<exists>calls. ?P k calls" for k
    using ex
  proof (cases rule: execution_next [where n = k])
    case (1 reg)
    from resolver_part [OF 1 inv E] show ?thesis .
  qed auto
  then obtain calls where calls: "\<And>k. ?P k (calls k)" by metis
  then have "execution resolver_step (\<lambda>n. resolving (c n)) calls" by (simp add: execution_def)
  from fair_calls [OF this sys_inv_simps(1) [OF inv] fair True] obtain m where
    m: "n \<le> m" "p \<in> set (calls m)" by blast
  then consider "p \<in> set (y_new (c m))" | "p \<in> fst ` set (y_dns (c (Suc m)))" using calls [of m] by blast
  then show ?thesis
  proof cases
    case 1
    then have "p \<in># place (c m) 6" by (simp add: place_simps)
    with place_once [OF inv, of p m 6 5] m(1) show ?thesis by (auto simp: place_simps)
  next
    case 2
    then have "p \<in># place (c (Suc m)) 4" by (simp add: place_simps)
    with place_once [OF inv, of p "Suc m" 4 5] have "p \<notin># resolver_pending (resolving (c (Suc m)))"
      by (auto simp: place_simps)
    with m(1) show ?thesis using le_SucI by blast
  qed
qed blast

lemma collect_takes_done:
  assumes "collect_done J B q (y_fetch y) = Inr (y_fetch z)" and "sys_inv y" and "sys_inv z"
  shows "phase z p \<noteq> Done"
proof
  assume d: "phase z p = Done"
  then have t: "p \<in> set (f_tasks (y_fetch z))" "finished (y_fetch z) p" by (auto simp: phase_def split: if_splits)
  note e = collect_effect(1,2) [OF assms(1) sys_inv_tasks(1) [OF assms(2)]]
  from t(1) e(1) have "\<not> finished (y_fetch y) p" "p \<in> set (f_tasks (y_fetch y))" by auto
  moreover have "f_ctxs (y_fetch z) p = f_ctxs (y_fetch y) p \<or> f_ctxs (y_fetch z) p = None"
    by (simp add: e(2) restrict_map_def)
  ultimately show False using t(2) by (auto simp: finished_def)
qed

lemma stage_left:
  assumes ex: "execution (fetch_step L live J B E) c out" and E: "good_env E" and init: "sys_inv (c 0)"
    and fair: "fair_threads c" "transfers_finish c" "clients_ask c" and stage: "task_stage p i (c n)"
  shows "\<exists>m\<ge>n. \<not> task_stage p i (c m)"
proof -
  have inv: "sys_inv (c n)" for n using task_stages.always_inv [OF ex] E init by blast
  have low: "\<not> task_stage p i (c m)" if "p \<notin># place (c m) i" "2 \<le> i" for m
    using that by (simp add: task_stage_def)
  from stage consider "p \<in># place (c n) i" | "i = 1" "phase (c n) p = Running" | "i = 0" "phase (c n) p = Done"
    by (auto simp: task_stage_def)
  then show ?thesis
  proof cases
    case 1
    have loop: "fair_loop c" using fair(1) by (simp add: fair_threads_def)
    have "\<exists>m\<ge>n. p \<notin># place (c m) i"
      using 1
    proof (cases rule: place_cases)
      case 1
      with \<open>p \<in># place (c n) i\<close> fair(1) show ?thesis by (simp add: place_simps fair_threads_def)
    next
      case 2
      with resolving_left [OF ex E inv] fair(1) show ?thesis by (simp add: place_simps fair_threads_def)
    next
      case 3
      obtain m where "n \<le> m" "y_dns (c m) = []"
        using dns_empties [OF ex] fair(1) unfolding fair_threads_def by blast
      with 3 show ?thesis by (auto simp: place_simps)
    next
      case 4
      obtain m where "n \<le> m" "closures (c m) = []" using loop unfolding fair_loop_def by blast
      with 4 show ?thesis by (auto simp: place_simps)
    next
      case 5
      obtain m where "n \<le> m" "y_batch (c m) = []" using batch_empties [OF ex E init loop] by blast
      with 5 show ?thesis by (auto simp: place_simps async_calls_def)
    qed
    with low place_low [OF 1] show ?thesis by blast
  next
    case 2
    with fair(2) obtain m where "n \<le> m" "phase (c m) p \<noteq> Running" unfolding transfers_finish_def by blast
    with 2(1) place_low show ?thesis by (fastforce simp: task_stage_def)
  next
    case 3
    with fair(3) obtain m where m: "n \<le> m" "phase (c m) p \<noteq> Done \<or> (\<exists>q. CollectDone q \<in> set (closures (c m)))"
      unfolding clients_ask_def by blast
    have "\<exists>k\<ge>n. phase (c k) p \<noteq> Done"
    proof (cases "phase (c m) p = Done")
      case True
      with m(2) obtain q where q: "CollectDone q \<in> set (closures (c m))" by blast
      have "fair_loop c" using fair(1) by (simp add: fair_threads_def)
      from requests_end [OF ex E init this q] obtain k where
        "m \<le> k" "collect_done J B q (y_fetch (c k)) = Inr (y_fetch (c (Suc k)))" by blast
      with collect_takes_done [OF this(2) inv inv] m(1) show ?thesis by (meson le_SucI le_trans)
    qed (use m(1) in blast)
    with 3(1) place_low show ?thesis by (fastforce simp: task_stage_def)
  qed
qed

section \<open>Executions that come to rest\<close>

lemma pending_at_rest:
  assumes "resolver_inv (r, fl)" and "resolver_pending (r, fl) = {#}"
  shows "r_tasks r = [] \<and> fl = []"
proof (rule ccontr)
  assume "\<not> (r_tasks r = [] \<and> fl = [])"
  then obtain name where "name \<in> set (r_tasks r @ fl)" by (cases "r_tasks r"; cases fl) auto
  with assms(1) obtain i where i: "r_infos r name = Some i" "ri_state i = kInProcessing"
    by (auto simp: resolver_inv.simps)
  with assms(1) have "info_ok name i" by (simp add: resolver_inv.simps)
  with i(2) have "ri_cbs i \<noteq> []" by (simp add: info_ok_def)
  then obtain cb where "cb \<in> set (ri_cbs i)" by (cases "ri_cbs i") auto
  with i(1) have "waits_at name cb r" by (simp add: waits_at_def)
  with pending_waits [OF assms(1)] assms(2) show False by auto
qed

lemma rest_fair:
  assumes "\<forall>m\<ge>M. c m = z" and "closures z = []" and "y_batch z = []"
  shows "fair_loop c"
  unfolding fair_loop_def worked_off_def
  using rests [OF assms(1), of "\<lambda>y. closures y = []"] rests [OF assms(1), of "\<lambda>y. y_batch y \<noteq> _"] assms(2,3) by simp

lemma rest_all_fair:
  assumes rest: "\<forall>m\<ge>M. c m = z" and "closures z = []" and "y_batch z = []" and "sys_pending z = {#}" and inv: "sys_inv z"
  shows "fair_threads c" "transfers_finish c" "clients_ask c"
proof -
  have w: "y_new z = []" "resolver_pending (resolving z) = {#}" "y_dns z = []" "f_tasks (y_fetch z) = []"
    using assms(4) by (simp_all add: sys_pending_def waiting_def)
  have r: "r_tasks (f_resolver (y_fetch z)) = [] \<and> y_flight z = []"
    using pending_at_rest [OF sys_inv_simps(1) [OF inv] w(2)] .
  have "fair_resolver (\<lambda>n. resolving (c n))"
    unfolding fair_resolver_def using rests [OF rest, of "\<lambda>y. r_tasks (f_resolver (y_fetch y)) = []"]
      rests [OF rest, of "\<lambda>y. _ \<notin> set (y_flight y)"] r by simp
  moreover have "worked_off (\<lambda>n. y_dns (c n))"
    unfolding worked_off_def using rests [OF rest, of "\<lambda>y. y_dns y \<noteq> _"] w(3) by simp
  ultimately show "fair_threads c"
    unfolding fair_threads_def using rests [OF rest, of "\<lambda>y. _ \<notin> set (y_new y)"] rest_fair [OF rest assms(2,3)] w(1) by simp
  have p: "phase z p \<noteq> Running" "phase z p \<noteq> Done" for p using w(4) by (auto simp: phase_def)
  show "transfers_finish c"
    unfolding transfers_finish_def using rests [OF rest, of "\<lambda>y. phase y _ \<noteq> Running"] p(1) by simp
  show "clients_ask c"
    unfolding clients_ask_def using rests [OF rest, of "\<lambda>y. phase y _ \<noteq> Done"] p(2) by blast
qed

section \<open>Properties\<close>



text \<open>C5: No request for results waits for ever. In every execution in which the loop is fair, a queued
  request has its promise set at a later step, and what is set lists exactly the tasks that were
  finished just before that step.\<close>

theorem every_request_answered:
  assumes "json_laws J mems items" and "Fetcher L = Inr s" and "good_env E"
    and "execution (fetch_step L live J B E) c out" and "c 0 = sys0 s" and "fair_loop c"
    and "CollectDone q \<in> set (closures (c n))"
  shows "\<exists>m\<ge>n. \<exists>x. f_promises (y_fetch (c (Suc m))) q = Some x \<and> lists_finished mems items J B x (y_fetch (c m))"
proof -
  have init: "sys_inv (c 0)" using sys_init_inv(1) [OF assms(2)] assms(5) by simp
  obtain m where m: "n \<le> m" "collect_done J B q (y_fetch (c m)) = Inr (y_fetch (c (Suc m)))"
    using requests_end [OF assms(4,3) init assms(6,7)] by blast
  obtain x where "f_promises (y_fetch (c (Suc m))) q = Some x"
    using collect_promises [OF m(2)] by (metis fun_upd_same)
  moreover have "sys_inv (c m)" using task_stages.always_inv [OF assms(4)] assms(3) init by blast
  ultimately show ?thesis using collect_lists [OF assms(1) _ m(2)] m(1) by blast
qed

theorem every_request_answered_witness:
  "\<exists>c out n m. execution (fetch_step lb lb_live jv rfc4648 env0) c out \<and> c 0 = sys0 fetcher0 \<and> n \<le> m \<and>
     CollectDone 3 \<in> set (closures (c n)) \<and> f_promises (y_fetch (c (Suc m))) 3 \<noteq> None"
proof -
  have safe: "safe_inv lb_live lb_active sys1"
    using libevent_total.reach_safe [OF lb.libevent_total_axioms fetcher0_ok good_env0 run_made] .
  obtain es where es: "add_async lb (CollectDone 3) (f_es (y_fetch sys1)) = Inr es"
    using lb.async_total [OF safe_invD(3) [OF safe]] by blast
  then have g: "get_done_tasks_req lb 3 (y_fetch sys1) = Inr ((y_fetch sys1)\<lparr>f_es := es\<rparr>)"
    by (simp add: get_done_tasks_req_def es_do_def)
  let ?y = "sys1\<lparr>y_fetch := (y_fetch sys1)\<lparr>f_es := es\<rparr>\<rparr>"
  note step = f_result [where live = lb_live and J = jv and B = rfc4648 and E = env0, OF g]
  have q: "CollectDone 3 \<in> set (closures ?y)" using async_queue [OF es] by simp
  then have "asked_for 3 ?y" by (simp add: asked_for_def)
  from lb.answers [OF jv.json_laws_axioms good_env0 lb.safe_step [OF step good_env0 safe] this, of rfc4648]
  obtain z called where z: "run_of (fetch_step lb lb_live jv rfc4648 env0) ?y z [] called" "idle z" by blast
  obtain c out N M where c: "execution (fetch_step lb lb_live jv rfc4648 env0) c out" "c 0 = sys0 fetcher0"
    "c N = ?y" "\<forall>m\<ge>M. c m = z"
    using run_execution [OF run_of.run_step [OF run_made step] z(1)] by blast
  have "fair_loop c" using rest_fair [OF c(4)] z(2) by (simp add: idle_def)
  from every_request_answered [OF jv.json_laws_axioms fetcher0_ok good_env0 c(1,2) this, of 3 N] c(3) q
  obtain m where "N \<le> m" "f_promises (y_fetch (c (Suc m))) 3 \<noteq> None" by auto
  with c(1,2,3) q show ?thesis by (intro exI [of _ c] exI [of _ out] exI [of _ N] exI [of _ m]) simp
qed

end
