(* ===== verification/HttpServer.thy ===== *)
theory HttpServer
  imports Uri
begin

text \<open>
  \<open>base/HttpServer.cpp\<close>: routes of an \<open>evhttp\<close> server to C++ closures. evhttp is a parameter: the
  operations that change it are fields of the record \<open>evhttp\<close>, and a request is the record \<open>evreq\<close>
  of what its accessors return, a null \<open>char *\<close> being \<open>None\<close>.
\<close>

section \<open>The library\<close>

record 'h evhttp =
  eh_set_cb :: "'h \<Rightarrow> string \<Rightarrow> nat \<Rightarrow> 'h \<times> int"
  eh_add_header :: "(string \<times> string) list \<Rightarrow> string \<Rightarrow> string \<Rightarrow> (string \<times> string) list \<times> int"
  eh_buffer_add :: "string \<Rightarrow> string \<Rightarrow> string \<times> int"

record evreq =
  er_command :: nat
  er_uri :: "string option"
  er_host :: "string option"
  er_scheme :: "string option"
  er_userinfo :: "string option"
  er_uri_host :: "string option"
  er_path :: "string option"
  er_query :: "string option"
  er_fragment :: "string option"
  er_port :: int
  er_input_headers :: "(string \<times> string) list"
  er_input_buffer :: string
  er_output_headers :: "(string \<times> string) list"
  er_output_buffer :: string
  er_reply :: "(int \<times> string) option"

text \<open>
  The documented behaviour (\<open>event2/http.h\<close>, \<open>event2/buffer.h\<close>): a path has one callback, a second
  one for it is refused with -1; a header or data is appended or refused with -1.
\<close>

locale evhttp_laws =
  fixes H :: "'h evhttp" and routes :: "'h \<Rightarrow> string \<rightharpoonup> nat"
  assumes set_cb_taken: "routes h path = Some c' \<Longrightarrow> eh_set_cb H h path c = (h, -1)"
    and set_cb_free: "routes h path = None \<Longrightarrow>
      snd (eh_set_cb H h path c) = 0 \<and> routes (fst (eh_set_cb H h path c)) = (routes h)(path \<mapsto> c) \<or>
      eh_set_cb H h path c = (h, -2)"
    and add_header: "eh_add_header H hs k v = (hs @ [(k, v)], 0) \<or> eh_add_header H hs k v = (hs, -1)"
    and buffer_add: "eh_buffer_add H b d = (b @ d, 0) \<or> eh_buffer_add H b d = (b, -1)"

section \<open>The code\<close>

record request =
  rq_method :: string
  rq_uri :: uri
  rq_body :: string
  rq_headers :: "string \<rightharpoonup> string"

record response =
  rs_code :: int
  rs_reason :: string
  rs_body :: string
  rs_headers :: "string \<rightharpoonup> string"

definition Request :: request where
  "Request = \<lparr>rq_method = [], rq_uri = empty_uri [], rq_body = [], rq_headers = Map.empty\<rparr>"

definition Response :: response where
  "Response = \<lparr>rs_code = 200, rs_reason = ''OK'', rs_body = [], rs_headers = Map.empty\<rparr>"

text \<open>A \<open>HandleCb\<close> reads the request and writes the response; \<open>'s\<close> is what it captured.\<close>

type_synonym 's handle_cb = "request \<Rightarrow> response \<Rightarrow> 's \<Rightarrow> (response \<times> 's) outcome"

text \<open>
  \<open>sock_\<close> is not initialised by the constructor (\<open>None\<close>), and null when the port could not be
  bound (\<open>Some None\<close>). The address of an element of \<open>handle_ctx_\<close> is its index.
\<close>

record ('h, 's) http_server =
  hs_address :: string
  hs_port :: int
  hs_http :: 'h
  hs_sock :: "nat option option"
  hs_handle_ctx :: "'s handle_cb list"

definition HttpServer :: "string \<Rightarrow> int \<Rightarrow> 'h \<Rightarrow> ('h, 's) http_server" where
  "HttpServer address port new_http = \<lparr>hs_address = address, hs_port = port, hs_http = new_http,
     hs_sock = None, hs_handle_ctx = []\<rparr>"

text \<open>What binding and the loop return are inputs.\<close>

definition Run :: "nat option \<Rightarrow> int \<Rightarrow> ('h, 's) http_server \<Rightarrow> ('h, 's) http_server \<times> bool" where
  "Run bound dispatch_result s = (s\<lparr>hs_sock := Some bound\<rparr>, dispatch_result \<noteq> -1)"

definition Stop :: "('h, 's) http_server \<Rightarrow> ('h, 's) http_server outcome" where
  "Stop s = (case hs_sock s of
      None \<Rightarrow> Inl (Undefined ''uninitialised pointer'')
    | Some None \<Rightarrow> Inl (Undefined ''null pointer'')
    | Some (Some k) \<Rightarrow> Inr s)"

definition AddHandle ::
  "'h evhttp \<Rightarrow> string \<Rightarrow> 's handle_cb \<Rightarrow> ('h, 's) http_server \<Rightarrow> ('h, 's) http_server outcome" where
  "AddHandle H path cb s =
     (let (http, rc) = eh_set_cb H (hs_http s) (c_str path) (length (hs_handle_ctx s)) in
      if rc = -1 then Inl CheckFailed
      else Inr (s\<lparr>hs_http := http, hs_handle_ctx := hs_handle_ctx s @ [cb]\<rparr>))"

text \<open>The \<open>switch\<close> over \<open>enum evhttp_cmd_type\<close>, whose members are single bits.\<close>

definition method_name :: "nat \<Rightarrow> string" where
  "method_name cmd =
     (if cmd = 1 then ''GET'' else if cmd = 2 then ''POST'' else if cmd = 4 then ''HEAD''
      else if cmd = 8 then ''PUT'' else if cmd = 16 then ''DELETE'' else if cmd = 32 then ''OPTIONS''
      else if cmd = 64 then ''TRACE'' else if cmd = 128 then ''CONNECT'' else if cmd = 256 then ''PATCH''
      else ''UNKNOWN'')"

definition set_str :: "string option \<Rightarrow> string \<Rightarrow> string" where
  "set_str s d = (case s of None \<Rightarrow> d | Some t \<Rightarrow> c_str t)"

definition request_uri :: "evreq \<Rightarrow> uri \<Rightarrow> uri" where
  "request_uri ev u0 =
     (let u1 = u0\<lparr>u_str := set_str (er_uri ev) (u_str u0)\<rparr>;
          u2 = u1\<lparr>u_host := set_str (er_host ev) (u_host u1)\<rparr>;
          u3 = u2\<lparr>u_scheme := set_str (er_scheme ev) (u_scheme u2)\<rparr>;
          u4 = u3\<lparr>u_username := set_str (er_userinfo ev) (u_username u3)\<rparr>;
          u5 = u4\<lparr>u_password := set_str (er_userinfo ev) (u_password u4)\<rparr>;
          u6 = u5\<lparr>u_host := set_str (er_uri_host ev) (u_host u5)\<rparr>;
          u7 = u6\<lparr>u_path := set_str (er_path ev) (u_path u6)\<rparr>;
          u8 = u7\<lparr>u_query := set_str (er_query ev) (u_query u7)\<rparr>;
          u9 = u8\<lparr>u_fragment := set_str (er_fragment ev) (u_fragment u8)\<rparr>
      in u9\<lparr>u_port := er_port ev\<rparr>)"

definition request_headers :: "(string \<times> string) list \<Rightarrow> (string \<rightharpoonup> string) \<Rightarrow> (string \<rightharpoonup> string)" where
  "request_headers hs m = fold (\<lambda>(k, v) m. m(c_str k \<mapsto> c_str v)) hs m"

text \<open>
  The length of the body goes through an \<open>int\<close>; a negative one is too long for \<open>resize\<close>.
\<close>

definition request_body :: "string \<Rightarrow> string outcome" where
  "request_body buffer =
     (let sz = sint (of_nat (length buffer) :: 32 word) in
      if sz < 0 then Inl (Throw (LengthError ''basic_string::_M_replace_aux''))
      else Inr (take (nat sz) buffer))"

definition to_request :: "evreq \<Rightarrow> request outcome" where
  "to_request ev = bind_outcome (request_body (er_input_buffer ev)) (\<lambda>body.
     Inr (Request\<lparr>rq_method := method_name (er_command ev), rq_uri := request_uri ev (rq_uri Request),
       rq_headers := request_headers (er_input_headers ev) (rq_headers Request), rq_body := body\<rparr>))"

definition add_header :: "'h evhttp \<Rightarrow> string \<times> string \<Rightarrow> evreq \<Rightarrow> evreq outcome" where
  "add_header H e ev =
     (let (hs, rc) = eh_add_header H (er_output_headers ev) (c_str (fst e)) (c_str (snd e)) in
      if rc = -1 then Inl CheckFailed else Inr (ev\<lparr>er_output_headers := hs\<rparr>))"

text \<open>\<open>entries\<close> are the headers in the order in which the map is visited.\<close>

definition send_response ::
  "'h evhttp \<Rightarrow> (string \<times> string) list \<Rightarrow> response \<Rightarrow> evreq \<Rightarrow> evreq outcome" where
  "send_response H entries resp ev = bind_outcome (fold_outcome (add_header H) entries ev) (\<lambda>ev1.
     let (buf, rc) = eh_buffer_add H (er_output_buffer ev1) (rs_body resp) in
     if rc = -1 then Inl CheckFailed
     else Inr (ev1\<lparr>er_output_buffer := buf, er_reply := Some (rs_code resp, c_str (rs_reason resp))\<rparr>))"

text \<open>The callback evhttp runs for a request, with the context it was registered with.\<close>

definition evcb ::
  "'h evhttp \<Rightarrow> ((string \<rightharpoonup> string) \<Rightarrow> (string \<times> string) list) \<Rightarrow> ('h, 's) http_server \<Rightarrow> nat \<Rightarrow> evreq \<Rightarrow> 's \<Rightarrow>
   (evreq \<times> 's) outcome" where
  "evcb H visit s arg ev x =
     (if length (hs_handle_ctx s) \<le> arg then Inl (Undefined ''dangling HandleCtx'')
      else bind_outcome (to_request ev) (\<lambda>req.
        bind_outcome ((hs_handle_ctx s ! arg) req Response x) (\<lambda>(resp, x').
        bind_outcome (send_response H (visit (rs_headers resp)) resp ev) (\<lambda>ev'. Inr (ev', x')))))"

section \<open>Facts on the operations\<close>

lemma request_uri_fields:
  "u_str (request_uri ev u) = set_str (er_uri ev) (u_str u)"
  "u_scheme (request_uri ev u) = set_str (er_scheme ev) (u_scheme u)"
  "u_username (request_uri ev u) = set_str (er_userinfo ev) (u_username u)"
  "u_password (request_uri ev u) = set_str (er_userinfo ev) (u_password u)"
  "u_host (request_uri ev u) = set_str (er_uri_host ev) (set_str (er_host ev) (u_host u))"
  "u_port (request_uri ev u) = er_port ev"
  "u_path (request_uri ev u) = set_str (er_path ev) (u_path u)"
  by (simp_all add: request_uri_def)

text \<open>The loop over the header list against a lookup from its end: the last of equal keys counts.\<close>

lemma request_headers_last:
  "request_headers hs m = m ++ map_of (rev (map (\<lambda>(k, v). (c_str k, c_str v)) hs))"
  by (induction hs arbitrary: m) (auto simp: request_headers_def split_def)

lemma request_body_short:
  assumes "length b < 2 ^ 31"
  shows "request_body b = Inr b"
proof -
  have "sint (of_nat (length b) :: 32 word) = int (length b)"
    using assms by (simp add: signed_of_nat signed_take_bit_int_eq_self)
  then show ?thesis by (simp add: request_body_def)
qed

text \<open>The table of evhttp and the list of contexts stay in step.\<close>

definition routes_to :: "('h \<Rightarrow> string \<rightharpoonup> nat) \<Rightarrow> ('h, 's) http_server \<Rightarrow> (string \<times> 's handle_cb) list \<Rightarrow> 
   bool" where
  "routes_to routes s added \<longleftrightarrow> hs_handle_ctx s = map snd added \<and>
     (\<forall>path i. routes (hs_http s) path = Some i \<longrightarrow> i < length added \<and> c_str (fst (added ! i)) = path)"

context evhttp_laws
begin

lemma add_headers:
  "fold_outcome (add_header H) es ev = Inr ev' \<Longrightarrow>
   ev' = ev\<lparr>er_output_headers := er_output_headers ev @ map (\<lambda>(k, v). (c_str k, c_str v)) es\<rparr>"
proof (induction es arbitrary: ev)
  case Nil
  then show ?case by simp
next
  case (Cons e es)
  then obtain ev1 where ev1: "HttpServer.add_header H e ev = Inr ev1"
    "fold_outcome (HttpServer.add_header H) es ev1 = Inr ev'" by (auto simp: bind_outcome_Inr_iff)
  have "ev1 = ev\<lparr>er_output_headers := er_output_headers ev @ [(c_str (fst e), c_str (snd e))]\<rparr>"
    using ev1(1) add_header [of "er_output_headers ev" "c_str (fst e)" "c_str (snd e)"]
    by (auto simp: HttpServer.add_header_def)
  with Cons.IH [OF ev1(2)] show ?case by (simp add: split_def)
qed

lemma sent:
  assumes "send_response H es resp ev = Inr ev'"
  shows "ev' = ev\<lparr>er_output_headers := er_output_headers ev @ map (\<lambda>(k, v). (c_str k, c_str v)) es,
    er_output_buffer := er_output_buffer ev @ rs_body resp, er_reply := Some (rs_code resp, c_str (rs_reason resp))\<rparr>"
proof -
  from assms obtain ev1 where ev1: "fold_outcome (HttpServer.add_header H) es ev = Inr ev1"
    "snd (eh_buffer_add H (er_output_buffer ev1) (rs_body resp)) \<noteq> -1"
    "ev' = ev1\<lparr>er_output_buffer := fst (eh_buffer_add H (er_output_buffer ev1) (rs_body resp)),
      er_reply := Some (rs_code resp, c_str (rs_reason resp))\<rparr>"
    by (auto simp: send_response_def bind_outcome_Inr_iff split_def Let_def split: if_splits)
  from add_headers [OF ev1(1)] buffer_add [of "er_output_buffer ev1" "rs_body resp"] ev1(2,3)
  show ?thesis by auto
qed

lemma sent_error:
  assumes "send_response H es resp ev = Inl e"
  shows "e = CheckFailed \<and> \<not> ((\<forall>hs k v. snd (eh_add_header H hs k v) \<noteq> -1) \<and>
    (\<forall>b d. snd (eh_buffer_add H b d) \<noteq> -1))"
proof -
  have hd: "e = CheckFailed \<and> (\<exists>hs k v. snd (eh_add_header H hs k v) = -1)"
    if "fold_outcome (HttpServer.add_header H) es ev = Inl e" for ev
    using that
  proof (induction es arbitrary: ev)
    case (Cons x es)
    then show ?case
      by (cases "HttpServer.add_header H x ev")
        (auto simp: HttpServer.add_header_def split: prod.splits if_splits, metis snd_conv)
  qed simp
  show ?thesis
  proof (cases "fold_outcome (HttpServer.add_header H) es ev")
    case (Inl f)
    with assms have "f = e" by (simp add: send_response_def)
    with hd Inl show ?thesis by blast
  next
    case (Inr ev1)
    with assms show ?thesis
      by (auto simp: send_response_def split_def Let_def split: if_splits)
  qed
qed

lemma add_handle_routes:
  assumes "AddHandle H path cb s = Inr s'" and "routes_to routes s added"
  shows "routes_to routes s' (added @ [(path, cb)])"
proof -
  let ?r = "eh_set_cb H (hs_http s) (c_str path) (length (hs_handle_ctx s))"
  have s': "snd ?r \<noteq> -1" "s' = s\<lparr>hs_http := fst ?r, hs_handle_ctx := hs_handle_ctx s @ [cb]\<rparr>"
    using assms(1) by (auto simp: AddHandle_def split: prod.splits if_splits)
  then have free: "routes (hs_http s) (c_str path) = None"
    using set_cb_taken [of "hs_http s" "c_str path" _ "length (hs_handle_ctx s)"] by fastforce
  have len: "length (hs_handle_ctx s) = length added" using assms(2) by (simp add: routes_to_def)
  have "i < length (added @ [(path, cb)]) \<and> c_str (fst ((added @ [(path, cb)]) ! i)) = p"
    if r: "routes (hs_http s') p = Some i" for p i
  proof (cases "routes (hs_http s) p = Some i")
    case True
    with assms(2) have "i < length added" "c_str (fst (added ! i)) = p" by (auto simp: routes_to_def)
    then show ?thesis by (simp add: nth_append)
  next
    case False
    with r s'(2) set_cb_free [OF free, of "length (hs_handle_ctx s)"] have "p = c_str path" "i = length added"
      by (auto simp: len split: if_splits)
    then show ?thesis by simp
  qed
  with assms(2) show ?thesis by (simp add: routes_to_def s'(2))
qed

lemma add_handles_routes:
  "fold_outcome (\<lambda>(path, cb). AddHandle H path cb) hs s = Inr s' \<Longrightarrow> routes_to routes s added \<Longrightarrow>
   routes_to routes s' (added @ hs)"
proof (induction hs arbitrary: s added)
  case (Cons e hs)
  obtain path cb where e: "e = (path, cb)" by (cases e)
  with Cons.prems(1) obtain t where t: "AddHandle H path cb s = Inr t"
    "fold_outcome (\<lambda>(path, cb). AddHandle H path cb) hs t = Inr s'" by (auto simp: bind_outcome_Inr_iff)
  from Cons.IH [OF t(2) add_handle_routes [OF t(1) Cons.prems(2)]] e show ?case by simp
qed simp

end

section \<open>A concrete library\<close>

text \<open>The table as a map; headers with a line feed are refused.\<close>

definition eh :: "(string \<rightharpoonup> nat) evhttp" where
  "eh = \<lparr>eh_set_cb = (\<lambda>h path c. if h path = None then (h(path \<mapsto> c), 0) else (h, -1)),
     eh_add_header = (\<lambda>hs k v. if CHR 0x0A \<in> set k \<union> set v then (hs, -1) else (hs @ [(k, v)], 0)),
     eh_buffer_add = (\<lambda>b d. (b @ d, 0))\<rparr>"

interpretation eh: evhttp_laws eh "\<lambda>h. h"
  by unfold_locales (auto simp: eh_def)

definition get_request :: evreq where
  "get_request = \<lparr>er_command = 1, er_uri = Some ''/x?y'', er_host = Some ''h'', er_scheme = None,
     er_userinfo = Some ''u:p'', er_uri_host = None, er_path = Some ''/x'', er_query = Some ''y'',
     er_fragment = None, er_port = -1, er_input_headers = [(''A'', ''1''), (''A'', ''2'')],
     er_input_buffer = ''body'', er_output_headers = [], er_output_buffer = [], er_reply = None\<rparr>"

section \<open>Properties\<close>



text \<open>What a handler's response becomes: evhttp is given each header of the response once, in the
  order of the map, then the body and the status line; the process ends when evhttp refuses one
  of them, which is the only way the reply can fail.\<close>

theorem http_response_sent:
  assumes "evhttp_laws H routes" and "arg < length (hs_handle_ctx s)" and "to_request ev = Inr req"
    and "(hs_handle_ctx s ! arg) req Response x = Inr (resp, x')"
    and "ev' = ev\<lparr>er_output_headers := er_output_headers ev @
        map (\<lambda>(k, v). (c_str k, c_str v)) (visit (rs_headers resp)),
      er_output_buffer := er_output_buffer ev @ rs_body resp,
      er_reply := Some (rs_code resp, c_str (rs_reason resp))\<rparr>"
  shows "(evcb H visit s arg ev x = Inl CheckFailed \<or> evcb H visit s arg ev x = Inr (ev', x')) \<and>
    ((\<forall>hs k v. snd (eh_add_header H hs k v) \<noteq> -1) \<and> (\<forall>b d. snd (eh_buffer_add H b d) \<noteq> -1) \<longrightarrow>
       evcb H visit s arg ev x = Inr (ev', x'))"
proof -
  let ?r = "send_response H (visit (rs_headers resp)) resp ev"
  have r: "evcb H visit s arg ev x = bind_outcome ?r (\<lambda>ev'. Inr (ev', x'))"
    using assms(2-4) by (simp add: evcb_def)
  show ?thesis
  proof (cases ?r)
    case (Inl e)
    with evhttp_laws.sent_error [OF assms(1) Inl] r show ?thesis by auto
  next
    case (Inr ev1)
    then have "ev1 = ev'" using evhttp_laws.sent [OF assms(1)] assms(5) by blast
    with Inr r show ?thesis by simp
  qed
qed

theorem http_response_sent_witness:
  "\<exists>ev'. evcb eh (\<lambda>_. [(''K'', ''V'')]) (HttpServer ''0.0.0.0'' 80 Map.empty\<lparr>hs_handle_ctx := [\<lambda>req resp n.
      Inr (resp\<lparr>rs_body := rq_body req\<rparr>, n)]\<rparr>) 0 get_request (0 :: nat) = Inr (ev', 0) \<and>
     er_output_buffer ev' = ''body'' \<and> er_output_headers ev' = [(''K'', ''V'')] \<and> er_reply ev' = Some (200, ''OK'')"
proof -
  let ?s = "HttpServer ''0.0.0.0'' 80 Map.empty\<lparr>hs_handle_ctx := [\<lambda>req resp n.
      Inr (resp\<lparr>rs_body := rq_body req\<rparr>, n)]\<rparr> :: (string \<rightharpoonup> nat, nat) http_server"
  obtain req where req: "to_request get_request = Inr req" "rq_body req = ''body''"
    using request_body_short [of "''body''"] by (simp add: to_request_def get_request_def)
  have h: "0 < length (hs_handle_ctx ?s)"
    "(hs_handle_ctx ?s ! 0) req Response 0 = Inr (Response\<lparr>rs_body := ''body''\<rparr>, 0)"
    using req(2) by simp_all
  have g: "er_output_headers get_request = []" "er_output_buffer get_request = []"
    by (simp_all add: get_request_def)
  have "evcb eh (\<lambda>_. [(''K'', ''V'')]) ?s 0 get_request 0 \<noteq> Inl CheckFailed"
    by (simp add: evcb_def req(1) send_response_def HttpServer.add_header_def eh_def c_str_def g)
  with http_response_sent [OF eh.evhttp_laws_axioms h(1) req(1) h(2) refl, of "\<lambda>_. [(''K'', ''V'')]"]
  show ?thesis by (auto simp: g c_str_def Response_def)
qed

text \<open>After any sequence of \<open>AddHandle\<close> that does not end the process, evhttp has at most one
  callback for a path, its context is the closure that was added for that path, and adding a path
  that has one ends the process.\<close>

theorem http_server_routes:
  assumes "evhttp_laws H routes" and "routes http = Map.empty"
    and "fold_outcome (\<lambda>(path, cb). AddHandle H path cb) hs (HttpServer address port http) = Inr s"
    and "routes (hs_http s) (c_str path) = Some i"
  shows "i < length hs \<and> c_str (fst (hs ! i)) = c_str path \<and> hs_handle_ctx s ! i = snd (hs ! i) \<and>
    AddHandle H path cb s = Inl CheckFailed"
proof -
  have "routes_to routes (HttpServer address port http) []"
    using assms(2) by (simp add: routes_to_def HttpServer_def)
  from evhttp_laws.add_handles_routes [OF assms(1,3) this]
  have r: "routes_to routes s hs" by simp
  then have "i < length hs" "c_str (fst (hs ! i)) = c_str path" "hs_handle_ctx s ! i = snd (hs ! i)"
    using assms(4) by (auto simp: routes_to_def)
  moreover have "AddHandle H path cb s = Inl CheckFailed"
    by (simp add: AddHandle_def evhttp_laws.set_cb_taken [OF assms(1,4)])
  ultimately show ?thesis by blast
qed

text \<open>Two closures for the example that follows.\<close>

definition answer_ok :: "unit handle_cb" where
  "answer_ok req resp u = Inr (resp\<lparr>rs_code := 200\<rparr>, u)"

definition answer_echo :: "unit handle_cb" where
  "answer_echo req resp u = Inr (resp\<lparr>rs_body := rq_body req\<rparr>, u)"

theorem http_server_routes_witness:
  "\<exists>s. fold_outcome (\<lambda>(path, cb). AddHandle eh path cb) [(''/a'', answer_ok), (''/b'', answer_echo)]
      (HttpServer ''0.0.0.0'' 80 Map.empty) = Inr s \<and>
     hs_handle_ctx s ! 1 = answer_echo \<and> AddHandle eh ''/b'' answer_ok s = Inl CheckFailed"
proof -
  obtain s where s: "fold_outcome (\<lambda>(path, cb). AddHandle eh path cb) [(''/a'', answer_ok), (''/b'', answer_echo)]
      (HttpServer ''0.0.0.0'' 80 Map.empty) = Inr s" "hs_http s (c_str ''/b'') = Some 1"
    by (simp add: AddHandle_def HttpServer_def eh_def c_str_def)
  have "hs_handle_ctx s ! 1 = snd ([(''/a'', answer_ok), (''/b'', answer_echo)] ! 1) \<and> AddHandle eh ''/b'' answer_ok s = Inl CheckFailed"
    using http_server_routes [where routes = "\<lambda>h. h", OF eh.evhttp_laws_axioms refl s(1,2)] by blast
  with s(1) show ?thesis by simp
qed

end
