(* ===== verification/FetcherServer.thy ===== *)
theory FetcherServer
  imports HttpServer Fetcher_Requests
begin

text \<open>
  \<open>Fetcher/FetcherServer.cpp\<close>: the two routes of the fetcher's HTTP interface. The closures capture
  the fetcher, which is the state the handlers pass on.
\<close>

section \<open>The code\<close>

text \<open>\<open>Json::Reader::parse\<close>, with the formatted messages of a failure, and \<open>Json::StyledWriter::write\<close>.\<close>

record 'j json_text =
  jt_parse :: "string \<Rightarrow> string + 'j"
  jt_write :: "'j \<Rightarrow> string"

definition fetch_handler ::
  "'eb libevent \<Rightarrow> 'j json \<Rightarrow> b64 \<Rightarrow> fenv \<Rightarrow> 'j json_text \<Rightarrow> ('j, 'eb) fetcher handle_cb" where
  "fetch_handler L J B E T req resp s = (case jt_parse T (rq_body req) of
      Inl messages \<Rightarrow>
        Inr (resp\<lparr>rs_code := 400, rs_reason := ''Bad Request'', rs_body := messages\<rparr>, s)
    | Inr r \<Rightarrow> bind_outcome (create_tasks_req L J B E r s) (\<lambda>(s', resp_body).
        bind_outcome (j_is_member J resp_body ''error'') (\<lambda>failed.
          let resp1 = (if failed then resp\<lparr>rs_code := 400, rs_reason := ''Bad Request''\<rparr>
                       else resp\<lparr>rs_code := 201, rs_reason := ''Created''\<rparr>)
          in Inr (resp1\<lparr>rs_headers := (rs_headers resp1)(''Content-Type'' \<mapsto> ''application/json''),
                 rs_body := jt_write T resp_body\<rparr>, s'))))"

text \<open>
  \<open>get_done_tasks_req\<close> waits for its promise \<open>q\<close>; \<open>loop\<close> is what the other threads do to the
  fetcher until it is set, or for ever.
\<close>

definition result_handler ::
  "'eb libevent \<Rightarrow> 'j json_text \<Rightarrow> nat \<Rightarrow> (('j, 'eb) fetcher \<Rightarrow> ('j, 'eb) fetcher outcome) \<Rightarrow>
   ('j, 'eb) fetcher handle_cb" where
  "result_handler L T q loop req resp s = bind_outcome (get_done_tasks_req L q s) (\<lambda>s1.
     bind_outcome (loop s1) (\<lambda>s2. case f_promises s2 q of
        None \<Rightarrow> Inl Deadlock
      | Some r \<Rightarrow> Inr (resp\<lparr>rs_code := 200, rs_reason := ''OK'',
          rs_headers := (rs_headers resp)(''Content-Type'' \<mapsto> ''application/json''), rs_body := jt_write T r\<rparr>, s2)))"

text \<open>The set-up in \<open>main\<close>, and its exit code.\<close>

definition fetcher_server ::
  "'h evhttp \<Rightarrow> 'eb libevent \<Rightarrow> 'j json \<Rightarrow> b64 \<Rightarrow> fenv \<Rightarrow> 'j json_text \<Rightarrow> nat \<Rightarrow>
   (('j, 'eb) fetcher \<Rightarrow> ('j, 'eb) fetcher outcome) \<Rightarrow> int \<Rightarrow> 'h \<Rightarrow>
   ('h, ('j, 'eb) fetcher) http_server outcome" where
  "fetcher_server H L J B E T q loop port http =
     bind_outcome (AddHandle H ''/fetch'' (fetch_handler L J B E T) (HttpServer ''0.0.0.0'' port http))
       (AddHandle H ''/result'' (result_handler L T q loop))"

definition exit_code :: "bool \<Rightarrow> int" where
  "exit_code returned = (if returned then 0 else 1)"

section \<open>A concrete server\<close>

text \<open>A text format with one good request, for the witnesses.\<close>

definition jt :: "jvalue json_text" where
  "jt = \<lparr>jt_parse = (\<lambda>t. if t = ''one'' then Inr (JObject [''tasks'' \<mapsto> JArray [task1]]) else Inl ''bad''),
     jt_write = (\<lambda>j. ''json'')\<rparr>"

section \<open>Properties\<close>

text \<open>C30: The status of an answer of \<open>/fetch\<close> tells what happened: a body that is not JSON gets 400 with
  the parser's messages and no content type; a request that is refused gets 400 with a JSON object
  that holds only \<open>error\<close>, and in both cases no task was made; any other request is answered, if
  at all, with 201 and a JSON object that lists its tasks.\<close>

theorem fetch_handler_status:
  assumes "json_laws J mems items" and "good_alloc E" and "finite (dom (f_ctxs s))"
  shows "(\<forall>messages. jt_parse T (rq_body req) = Inl messages \<longrightarrow>
      fetch_handler L J B E T req Response s =
        Inr (\<lparr>rs_code = 400, rs_reason = ''Bad Request'', rs_body = messages, rs_headers = Map.empty\<rparr>, s)) \<and>
    (\<forall>r e. jt_parse T (rq_body req) = Inr r \<and> parse_request J E r s = Inl (Throw e) \<longrightarrow>
      (\<exists>x. mems x = Some [''error'' \<mapsto> j_string J (what e)] \<and> fetch_handler L J B E T req Response s =
        Inr (\<lparr>rs_code = 400, rs_reason = ''Bad Request'', rs_body = jt_write T x,
          rs_headers = [''Content-Type'' \<mapsto> ''application/json'']\<rparr>, s))) \<and>
    (\<forall>r s1 ps resp s'. jt_parse T (rq_body req) = Inr r \<and> parse_request J E r s = Inr (s1, ps) \<and>
      fetch_handler L J B E T req Response s = Inr (resp, s') \<longrightarrow>
      (\<exists>x a js. mems x = Some [''tasks'' \<mapsto> a] \<and> items a = Some js \<and>
        list_all2 (\<lambda>p j. to_json J B (the (f_ctxs s1 p)) = Inr j) ps js \<and>
        resp = \<lparr>rs_code = 201, rs_reason = ''Created'', rs_body = jt_write T x,
          rs_headers = [''Content-Type'' \<mapsto> ''application/json'']\<rparr>))"
proof (intro conjI allI impI)
  fix messages assume "jt_parse T (rq_body req) = Inl messages"
  then show "fetch_handler L J B E T req Response s =
      Inr (\<lparr>rs_code = 400, rs_reason = ''Bad Request'', rs_body = messages, rs_headers = Map.empty\<rparr>, s)"
    by (simp add: fetch_handler_def Response_def)
next
  fix r e assume r: "jt_parse T (rq_body req) = Inr r \<and> parse_request J E r s = Inl (Throw e)"
  obtain x where x: "create_tasks_req L J B E r s = Inr (s, x)" "mems x = Some [''error'' \<mapsto> j_string J (what e)]"
    using json_laws.create_tasks_refused [OF assms(1) conjunct2 [OF r]] by blast
  have "j_is_member J x ''error'' = Inr True" using json_laws.member_field [OF assms(1) x(2), of "''error''"] by (simp add: dom_def)
  with r x show "\<exists>x. mems x = Some [''error'' \<mapsto> j_string J (what e)] \<and> fetch_handler L J B E T req Response s =
        Inr (\<lparr>rs_code = 400, rs_reason = ''Bad Request'', rs_body = jt_write T x,
          rs_headers = [''Content-Type'' \<mapsto> ''application/json'']\<rparr>, s)"
    by (intro exI [of _ x]) (simp add: fetch_handler_def Response_def)
next
  fix r s1 ps resp s'
  assume r: "jt_parse T (rq_body req) = Inr r \<and> parse_request J E r s = Inr (s1, ps) \<and>
    fetch_handler L J B E T req Response s = Inr (resp, s')"
  from r obtain u x where x: "create_tasks_req L J B E r s = Inr (u, x)"
    by (auto simp: fetch_handler_def bind_outcome_Inr_iff)
  have "distinct ps" using parse_request_distinct [OF conjunct1 [OF conjunct2 [OF r]] assms(2,3)] .
  then obtain a js where a: "mems x = Some [''tasks'' \<mapsto> a]" "items a = Some js"
    "list_all2 (\<lambda>p j. to_json J B (the (f_ctxs s1 p)) = Inr j) ps js"
    using json_laws.create_tasks_accepted [OF assms(1)] r x by blast
  have "j_is_member J x ''error'' = Inr False" using json_laws.member_field [OF assms(1) a(1), of "''error''"] by (simp add: dom_def)
  with r x have "resp = \<lparr>rs_code = 201, rs_reason = ''Created'', rs_body = jt_write T x,
      rs_headers = [''Content-Type'' \<mapsto> ''application/json'']\<rparr>"
    by (auto simp: fetch_handler_def Response_def)
  with a show "\<exists>x a js. mems x = Some [''tasks'' \<mapsto> a] \<and> items a = Some js \<and>
        list_all2 (\<lambda>p j. to_json J B (the (f_ctxs s1 p)) = Inr j) ps js \<and>
        resp = \<lparr>rs_code = 201, rs_reason = ''Created'', rs_body = jt_write T x,
          rs_headers = [''Content-Type'' \<mapsto> ''application/json'']\<rparr>"
    by blast
qed

theorem fetch_handler_status_witness:
  "fetch_handler lb jv rfc4648 env0 jt (Request\<lparr>rq_body := ''x''\<rparr>) Response fetcher0 =
     Inr (\<lparr>rs_code = 400, rs_reason = ''Bad Request'', rs_body = ''bad'', rs_headers = Map.empty\<rparr>, fetcher0)"
proof -
  have "finite (dom (f_ctxs (fetcher0 :: (jvalue, lbase) fetcher)))" by simp
  from fetch_handler_status [OF jv.json_laws_axioms good_alloc_env0 this] show ?thesis
    by (simp add: jt_def)
qed

text \<open>The answer of \<open>/result\<close>: whatever the other threads have done to the fetcher when the queued
  closure runs, the request then returns with status 200 and a JSON object that lists exactly the
  tasks that were finished at that moment, which the fetcher forgets; if the closure never runs the
  request does not return.\<close>

theorem result_handler_answer:
  assumes "json_laws J mems items" and "get_done_tasks_req L q s = Inr s1" and "others s1 = Inr s2"
    and "distinct (f_tasks s2)" "set (f_tasks s2) \<subseteq> dom (f_ctxs s2)"
  shows "\<exists>s' x a js. result_handler L T q (\<lambda>u. bind_outcome (others u) (collect_done J B q)) req Response s =
      Inr (\<lparr>rs_code = 200, rs_reason = ''OK'', rs_body = jt_write T x,
        rs_headers = [''Content-Type'' \<mapsto> ''application/json'']\<rparr>, s') \<and>
    mems x = Some [''tasks'' \<mapsto> a] \<and> items a = Some js \<and>
    list_all2 (\<lambda>p j. to_json J B (the (f_ctxs s2 p)) = Inr j) (rev (filter (finished s2) (f_tasks s2))) js \<and>
    set (f_tasks s') = {p \<in> set (f_tasks s2). \<not> finished s2 p} \<and>
    (f_promises s2 q = None \<longrightarrow> result_handler L T q others req Response s = Inl Deadlock)"
proof -
  obtain s' x a js where c: "collect_done J B q s2 = Inr s'" "f_promises s' = (f_promises s2)(q \<mapsto> x)"
    "mems x = Some [''tasks'' \<mapsto> a]" "items a = Some js"
    "list_all2 (\<lambda>p j. to_json J B (the (f_ctxs s2 p)) = Inr j) (rev (filter (finished s2) (f_tasks s2))) js"
    "f_tasks s' = rev (filter (\<lambda>p. \<not> finished s2 p) (f_tasks s2))"
    using collect_done_ok [OF assms(1,4,5)] by blast
  have "result_handler L T q (\<lambda>u. bind_outcome (others u) (collect_done J B q)) req Response s =
      Inr (\<lparr>rs_code = 200, rs_reason = ''OK'', rs_body = jt_write T x,
        rs_headers = [''Content-Type'' \<mapsto> ''application/json'']\<rparr>, s')"
    using c(1,2) assms(2,3) by (simp add: result_handler_def Response_def)
  moreover have "set (f_tasks s') = {p \<in> set (f_tasks s2). \<not> finished s2 p}" by (simp add: c(6))
  moreover have "f_promises s2 q = None \<longrightarrow> result_handler L T q others req Response s = Inl Deadlock"
    using assms(2,3) by (simp add: result_handler_def)
  ultimately show ?thesis
    using c(3-5) by (intro exI [of _ s'] exI [of _ x] exI [of _ a] exI [of _ js] conjI)
qed

theorem result_handler_answer_witness:
  "\<exists>s' x. result_handler lb jt 0 (\<lambda>u. bind_outcome (Inr u) (collect_done jv rfc4648 0)) Request Response fetcher0 =
     Inr (\<lparr>rs_code = 200, rs_reason = ''OK'', rs_body = x,
       rs_headers = [''Content-Type'' \<mapsto> ''application/json'']\<rparr>, s') \<and> f_tasks s' = []"
proof -
  obtain s1 where s1: "get_done_tasks_req lb 0 fetcher0 = Inr s1" "f_tasks s1 = []"
    by (auto simp: get_done_tasks_req_def es_do_def add_async_def fetcher0_def Fetcher_def EventServer_def
        add_timer_def new_handle_def lb_def start_def event_of_def check_ne_def Let_def)
  then have "distinct (f_tasks s1)" "set (f_tasks s1) \<subseteq> dom (f_ctxs s1)" by simp_all
  from result_handler_answer [OF jv.json_laws_axioms s1(1) _ this, of "\<lambda>u. Inr u" jt rfc4648 Request] s1(2)
  show ?thesis by auto
qed

end
