(* ===== verification/Server.thy ===== *)
theory Server
  imports FetcherServer Fetcher_Results
begin

text \<open>
  The whole service: a request that evhttp hands to the callback of \<open>base/HttpServer.cpp\<close> goes
  through the handlers of \<open>Fetcher/FetcherServer.cpp\<close> to the running fetcher and back. The set-up
  is that of \<open>main\<close>; the fetcher is in any state its threads can have brought it to.
\<close>

section \<open>Requests are refused with exceptions\<close>

lemma map_outcome_throws:
  "map_outcome f xs = Inl e \<Longrightarrow> (\<And>x e. f x = Inl e \<Longrightarrow> \<exists>x. e = Throw x) \<Longrightarrow> \<exists>x. e = Throw x"
  by (induction xs) (auto simp: bind_outcome_Inl_iff)

lemma Uri_throws: "Uri s = Inl f \<Longrightarrow> \<exists>e. f = Throw e"
  by (auto simp: Uri_def stoi_def Let_def bind_outcome_Inl_iff split: if_splits option.splits)

context json_laws
begin

lemma from_json_throws: "from_json J t c = Inl f \<Longrightarrow> \<exists>e. f = Throw e"
  by (auto simp: from_json_def GET_STRING_def GET_URI_def GET_STRING_LIST_def bind_outcome_Inl_iff
      split: if_splits dest: get_throws member_throws string_throws Uri_throws map_outcome_throws)

lemma parse_tasks_throws: "parse_tasks J E ts s = Inl f \<Longrightarrow> \<exists>e. f = Throw e"
  by (induction ts arbitrary: s) (auto simp: Let_def bind_outcome_Inl_iff dest: from_json_throws)

lemma parse_request_throws: "parse_request J E req s = Inl f \<Longrightarrow> \<exists>e. f = Throw e"
  by (auto simp: parse_request_def bind_outcome_Inl_iff split: if_splits dest: get_throws parse_tasks_throws)

end

section \<open>A request that makes tasks\<close>

lemma parse_request_form:
  assumes "parse_request J E req s = Inr (s1, ps)" and "good_env E" and "finite (dom (f_ctxs s))"
  obtains ts m where "parse_tasks J E ts s = Inr (s1, ps)" "s1 = s\<lparr>f_ctxs := m\<rparr>" "distinct ps"
proof -
  obtain ts where p: "parse_tasks J E ts s = Inr (s1, ps)"
    using assms(1) by (auto simp: parse_request_def bind_outcome_Inr_iff split: if_splits)
  obtain cs where "list_all2 (\<lambda>t c. from_json J t CrawlContext = Inr c) ts cs"
    using parse_tasks_parsed [OF p] by blast
  from parse_tasks_ok [OF _ assms(3) this] assms(2) p that show thesis unfolding good_env_def by fastforce
qed

context libevent_total
begin

lemma adds_run:
  assumes J: "json_laws J mems items" and E: "good_env E"
  shows "safe_inv live active y \<Longrightarrow> answers_ok y \<Longrightarrow> y_dns y = [] \<Longrightarrow> distinct ps \<Longrightarrow> set ps \<subseteq> set (y_new y) \<Longrightarrow>
    mems resp = Some m \<Longrightarrow> m ''tasks'' = Some a \<Longrightarrow> items a = Some xs \<Longrightarrow>
    \<exists>z called resp'. add_tasks L J B E ps resp (y_fetch y) = Inr (y_fetch z, Inr resp') \<and>
      run_of (fetch_step L live J B E) y z [] called"
proof (induction ps arbitrary: y resp m a xs)
  case Nil
  then show ?case by (intro exI [of _ y]) (auto intro: run_refl)
next
  case (Cons p ps)
  have p: "p \<in> set (y_new y)" using Cons.prems(5) by simp
  then have "p \<in># waiting y" by (simp add: waiting_def)
  then obtain c where c: "f_ctxs (y_fetch y) p = Some c" by (rule waiting_ctx [OF safe_invD(1) [OF Cons.prems(1)]])
  obtain x resp1 a1 where x: "append_task J B c resp = Inr resp1" "mems resp1 = Some (m(''tasks'' \<mapsto> a1))"
    "items a1 = Some (xs @ [x])"
    using json_laws.append_task_ok [OF J Cons.prems(6-8), of B c] by metis
  obtain t where t: "add L E p (y_fetch y) = Inr t"
    using add_fault [OF safe_invD(3) [OF Cons.prems(1)] c, of E] Cons.prems(2)
    by (cases "add L E p (y_fetch y)") (auto simp: answers_ok_def)
  let ?u = "y\<lparr>y_fetch := t, y_new := remove1 p (y_new y), y_failed := y_failed y @ given_up p t\<rparr>"
  note step = f_add [where L = L and live = live and J = J and B = B and E = E, OF p Cons.prems(3) t]
  have u: "safe_inv live active ?u" "answers_ok ?u"
    using safe_step [OF step E Cons.prems(1)] add_work [OF safe_invD(1) [OF Cons.prems(1)] p t Cons.prems(2) refl]
    by blast+
  have "q \<in> set (remove1 p (y_new y))" if "q \<in> set ps" for q
  proof -
    have "q \<noteq> p" "q \<in> set (y_new y)" using that Cons.prems(4,5) by auto
    then show ?thesis by (simp add: in_set_remove1)
  qed
  then have "y_dns ?u = []" "distinct ps" "set ps \<subseteq> set (y_new ?u)"
    using Cons.prems(3,4) by auto
  from Cons.IH [OF u this x(2) fun_upd_same x(3)] obtain z called resp' where
    z: "add_tasks L J B E ps resp1 (y_fetch ?u) = Inr (y_fetch z, Inr resp')"
      "run_of (fetch_step L live J B E) ?u z [] called" by blast
  have "add_tasks L J B E (p # ps) resp (y_fetch y) = Inr (y_fetch z, Inr resp')"
    using c x(1) t z(1) by (simp add: get_ctx_def)
  with run_consI [OF z(2) step] show ?case by fastforce
qed

lemma create_runs:
  assumes J: "json_laws J mems items" and E: "good_env E" and safe: "safe_inv live active y"
    and ok: "answers_ok y" and dns: "y_dns y = []" and p: "parse_request J E r (y_fetch y) = Inr (s1, ps)"
  shows "\<exists>z called resp a js. create_tasks_req L J B E r (y_fetch y) = Inr (y_fetch z, resp) \<and>
    run_of (fetch_step L live J B E) y z ps called \<and> mems resp = Some [''tasks'' \<mapsto> a] \<and> items a = Some js \<and>
    list_all2 (\<lambda>p j. to_json J B (the (f_ctxs s1 p)) = Inr j) ps js"
proof -
  have fin: "finite (dom (f_ctxs (y_fetch y)))" using sys_inv_simps(2) [OF safe_invD(1) [OF safe]] .
  obtain ts m where ts: "parse_tasks J E ts (y_fetch y) = Inr (s1, ps)" "s1 = (y_fetch y)\<lparr>f_ctxs := m\<rparr>" "distinct ps"
    by (rule parse_request_form [OF p E fin])
  let ?u = "y\<lparr>y_fetch := s1, y_new := y_new y @ ps\<rparr>"
  note run1 = parse_run [OF ts(1), of L live B]
  have u: "safe_inv live active ?u" using fetch.run_inv [OF run1] E safe by blast
  have oku: "answers_ok ?u" "y_dns ?u = []" "set ps \<subseteq> set (y_new ?u)"
    using ok dns by (simp_all add: answers_ok_def ts(2))
  obtain resp0 where r0: "j_set J (j_object J) ''tasks'' (j_array J) = Inr resp0"
    "mems resp0 = Some [''tasks'' \<mapsto> j_array J]" by (rule json_laws.empty_answer [OF J])
  obtain z called resp where z: "add_tasks L J B E ps resp0 (y_fetch ?u) = Inr (y_fetch z, Inr resp)"
    "run_of (fetch_step L live J B E) ?u z [] called"
    using adds_run [OF J E u oku(1,2) ts(3) oku(3) r0(2) fun_upd_same json_laws.items_array [OF J], of B] by blast
  have c: "create_tasks_req L J B E r (y_fetch y) = Inr (y_fetch z, resp)"
    using p r0(1) z(1) by (simp add: create_tasks_req_def answer_with_def)
  have "run_of (fetch_step L live J B E) y z ps called" using run_trans [OF z(2) run1] by simp
  with c json_laws.create_tasks_accepted [OF J p ts(3) c] show ?thesis by blast
qed

end

section \<open>Through the HTTP server\<close>

text \<open>evhttp has the memory for what it is told to send.\<close>

definition accepting :: "'h evhttp \<Rightarrow> bool" where
  "accepting H \<longleftrightarrow> (\<forall>hs k v. snd (eh_add_header H hs k v) \<noteq> -1) \<and> (\<forall>b d. snd (eh_buffer_add H b d) \<noteq> -1)"

lemma to_request_body:
  assumes "length (er_input_buffer ev) < 2 ^ 31"
  obtains req where "to_request ev = Inr req" "rq_body req = er_input_buffer ev"
  using request_body_short [OF assms] by (simp add: to_request_def)

lemma evcb_reply:
  assumes "evhttp_laws H routes" and "accepting H" and "hs_handle_ctx svr ! i = h" "i < length (hs_handle_ctx svr)"
    and "to_request ev = Inr req" and "h req Response x = Inr (resp, x')"
  shows "\<exists>ev'. evcb H visit svr i ev x = Inr (ev', x') \<and> er_reply ev' = Some (rs_code resp, c_str (rs_reason resp)) \<and>
    er_output_buffer ev' = er_output_buffer ev @ rs_body resp"
proof (cases "send_response H (visit (rs_headers resp)) resp ev")
  case (Inl e)
  with evhttp_laws.sent_error [OF assms(1) Inl] assms(2) show ?thesis unfolding accepting_def by blast
next
  case (Inr ev')
  from evhttp_laws.sent [OF assms(1) Inr]
  have "er_reply ev' = Some (rs_code resp, c_str (rs_reason resp))"
    "er_output_buffer ev' = er_output_buffer ev @ rs_body resp" by simp_all
  with Inr assms(3-6) show ?thesis by (simp add: evcb_def)
qed

lemma c_str_reasons:
  "c_str ''OK'' = ''OK''" "c_str ''Created'' = ''Created''" "c_str ''Bad Request'' = ''Bad Request''"
  "c_str ''/fetch'' = ''/fetch''" "c_str ''/result'' = ''/result''"
  by (simp_all add: c_str_def)

text \<open>After the set-up in \<open>main\<close> each of the two paths leads to its handler, and no other path to any.\<close>

lemma server_routes:
  assumes "evhttp_laws H routes" and "routes http = Map.empty"
    and "fetcher_server H L J B E T q loop port http = Inr svr"
  shows "routes (hs_http svr) ''/fetch'' = Some i \<Longrightarrow>
      i < length (hs_handle_ctx svr) \<and> hs_handle_ctx svr ! i = fetch_handler L J B E T"
    and "routes (hs_http svr) ''/result'' = Some i \<Longrightarrow>
      i < length (hs_handle_ctx svr) \<and> hs_handle_ctx svr ! i = result_handler L T q loop"
    and "routes (hs_http svr) path = Some i \<Longrightarrow> path = ''/fetch'' \<or> path = ''/result''"
proof -
  obtain svr1 where svr1: "AddHandle H ''/fetch'' (fetch_handler L J B E T) (HttpServer ''0.0.0.0'' port http) = Inr svr1"
    "AddHandle H ''/result'' (result_handler L T q loop) svr1 = Inr svr"
    using assms(3) by (auto simp: fetcher_server_def bind_outcome_Inr_iff)
  have "routes_to routes (HttpServer ''0.0.0.0'' port http) []"
    using assms(2) by (simp add: routes_to_def HttpServer_def)
  from evhttp_laws.add_handle_routes [OF assms(1) svr1(2) evhttp_laws.add_handle_routes [OF assms(1) svr1(1) this]]
  have r: "hs_handle_ctx svr = [fetch_handler L J B E T, result_handler L T q loop]"
    "routes (hs_http svr) path = Some i \<Longrightarrow> i < 2 \<and> c_str ([''/fetch'', ''/result''] ! i) = path" for path i
    by (auto simp: routes_to_def nth_Cons split: nat.splits)
  have two: "i = 0 \<and> path = ''/fetch'' \<or> i = 1 \<and> path = ''/result''"
    if "routes (hs_http svr) path = Some i" for path i
    using r(2) [OF that] c_str_reasons(4,5) by (cases i) (auto simp: less_Suc_eq)
  show "routes (hs_http svr) ''/fetch'' = Some i \<Longrightarrow>
      i < length (hs_handle_ctx svr) \<and> hs_handle_ctx svr ! i = fetch_handler L J B E T"
    using two [of "''/fetch''" i] by (auto simp: r(1))
  show "routes (hs_http svr) ''/result'' = Some i \<Longrightarrow>
      i < length (hs_handle_ctx svr) \<and> hs_handle_ctx svr ! i = result_handler L T q loop"
    using two [of "''/result''" i] by (auto simp: r(1))
  show "routes (hs_http svr) path = Some i \<Longrightarrow> path = ''/fetch'' \<or> path = ''/result''"
    using two by blast
qed

context libevent_total
begin

lemma fetch_request:
  assumes J: "json_laws J mems items" and E: "good_env E" and safe: "safe_inv live active y"
    and ok: "answers_ok y" and dns: "y_dns y = []" and p: "jt_parse T (rq_body req) = Inr r"
  shows "\<exists>z ps called resp x. fetch_handler L J B E T req Response (y_fetch y) = Inr (resp, y_fetch z) \<and>
    run_of (fetch_step L live J B E) y z ps called \<and> rs_body resp = jt_write T x \<and>
    (case parse_request J E r (y_fetch y) of
       Inl f \<Rightarrow> z = y \<and> ps = [] \<and> rs_code resp = 400 \<and> rs_reason resp = ''Bad Request'' \<and>
         (\<exists>e. f = Throw e \<and> mems x = Some [''error'' \<mapsto> j_string J (what e)])
     | Inr (s1, qs) \<Rightarrow> ps = qs \<and> rs_code resp = 201 \<and> rs_reason resp = ''Created'' \<and>
         (\<exists>a js. mems x = Some [''tasks'' \<mapsto> a] \<and> items a = Some js \<and>
           list_all2 (\<lambda>p j. to_json J B (the (f_ctxs s1 p)) = Inr j) qs js))"
proof (cases "parse_request J E r (y_fetch y)")
  case (Inl f)
  then obtain e where e: "f = Throw e" using json_laws.parse_request_throws [OF J] by blast
  obtain x where x: "create_tasks_req L J B E r (y_fetch y) = Inr (y_fetch y, x)" "mems x = Some [''error'' \<mapsto> j_string J (what e)]"
    using json_laws.create_tasks_refused [OF J Inl [unfolded e]] by blast
  have "j_is_member J x ''error'' = Inr True"
    using json_laws.member_field [OF J x(2), of "''error''"] by (simp add: dom_def)
  with x p obtain resp where "fetch_handler L J B E T req Response (y_fetch y) = Inr (resp, y_fetch y)"
    "rs_body resp = jt_write T x" "rs_code resp = 400" "rs_reason resp = ''Bad Request''"
    by (simp add: fetch_handler_def)
  with x(2) e Inl run_refl [of "fetch_step L live J B E" y] show ?thesis
    by (intro exI [of _ y] exI [of _ "[]"] exI [of _ resp] exI [of _ x]) simp
next
  case (Inr u)
  obtain s1 qs where u: "u = (s1, qs)" by (cases u)
  obtain z called x a js where z: "create_tasks_req L J B E r (y_fetch y) = Inr (y_fetch z, x)"
    "run_of (fetch_step L live J B E) y z qs called" "mems x = Some [''tasks'' \<mapsto> a]" "items a = Some js"
    "list_all2 (\<lambda>p j. to_json J B (the (f_ctxs s1 p)) = Inr j) qs js"
    using create_runs [OF J E safe ok dns Inr [unfolded u], of B] by blast
  have "j_is_member J x ''error'' = Inr False"
    using json_laws.member_field [OF J z(3), of "''error''"] by (simp add: dom_def)
  with z(1) p obtain resp where "fetch_handler L J B E T req Response (y_fetch y) = Inr (resp, y_fetch z)"
    "rs_body resp = jt_write T x" "rs_code resp = 201" "rs_reason resp = ''Created''"
    by (simp add: fetch_handler_def)
  with z(2-5) Inr u show ?thesis
    by (intro exI [of _ z] exI [of _ qs] exI [of _ called] exI [of _ resp] exI [of _ x]) auto
qed

end

section \<open>A concrete server\<close>

text \<open>evhttp with memory for every header, behind the routes of \<open>main\<close>.\<close>

definition eh_all :: "(string \<rightharpoonup> nat) evhttp" where
  "eh_all = eh\<lparr>eh_add_header := (\<lambda>hs k v. (hs @ [(k, v)], 0))\<rparr>"

interpretation eh_all: evhttp_laws eh_all "\<lambda>h. h"
  by unfold_locales (auto simp: eh_all_def eh_def)

lemma accepting_eh_all: "accepting eh_all"
  by (simp add: accepting_def eh_all_def eh_def)

lemma server_made:
  obtains svr where "fetcher_server eh_all lb jv rfc4648 env0 jt 0 loop 31200 Map.empty = Inr svr"
    "hs_http svr ''/fetch'' = Some 0" "hs_http svr ''/result'' = Some 1"
  by (simp add: fetcher_server_def AddHandle_def HttpServer_def eh_all_def eh_def c_str_reasons)

section \<open>Properties\<close>





end
