(* ===== verification/Ares.thy ===== *)
theory Ares
  imports Callbacks Status
begin

text \<open>
  \<open>base/Ares.cpp\<close>: the name resolver over c-ares that \<open>Resolver\<close> took the place of. \<open>resolve\<close> runs
  in the caller's thread under the mutex; the worker holds the mutex while it hands the new
  names to \<open>ares_gethostbyname\<close>, and not while it runs \<open>ares_process\<close>, whose callback \<open>ares_cb\<close>
  locks it. c-ares is the environment: which names it answers inside the call, what \<open>select\<close>
  returns and the answers are inputs. A cached answer never expires here.
\<close>

section \<open>The code\<close>

datatype State = kNew | kInProcessing | kDone

text \<open>\<open>ai_ares\<close> says that the back pointer \<open>ares\<close> has been set.\<close>

record 'cb ResolveInfo =
  ai_ares :: bool
  ai_name :: string
  ai_cbs :: "'cb list"
  ai_resolve_status :: status
  ai_addrs :: "string list"
  ai_state :: State

text \<open>As in \<open>Resolver\<close>, the key of an element of \<open>resolve_infos\<close> stands for its address.\<close>

record 'cb Impl =
  im_new_tasks :: "string list"
  im_resolve_infos :: "string \<rightharpoonup> 'cb ResolveInfo"

type_synonym 'cb calls = "('cb \<times> string list \<times> status) list"

definition ResolveInfo :: "'cb ResolveInfo" where
  "ResolveInfo = \<lparr>ai_ares = False, ai_name = [], ai_cbs = [], ai_resolve_status = Status,
     ai_addrs = [], ai_state = kNew\<rparr>"

text \<open>Constants of \<open>ares.h\<close>.\<close>

definition ARES_SUCCESS :: int where "ARES_SUCCESS = 0"
definition ARES_ENOTFOUND :: int where "ARES_ENOTFOUND = 4"
definition ARES_ENOTIMP :: int where "ARES_ENOTIMP = 5"
definition ARES_EBADNAME :: int where "ARES_EBADNAME = 8"
definition ARES_ENOMEM :: int where "ARES_ENOMEM = 15"
definition ARES_EDESTRUCTION :: int where "ARES_EDESTRUCTION = 16"
definition ARES_ECANCELLED :: int where "ARES_ECANCELLED = 24"

text \<open>The constructor, from what the two initialisations of the library return.\<close>

definition Ares :: "int \<Rightarrow> int \<Rightarrow> 'cb Impl outcome" where
  "Ares library_init init_options =
     (if library_init \<noteq> 0 then Inl CheckFailed
      else if init_options \<noteq> ARES_SUCCESS then Inl CheckFailed
      else Inr \<lparr>im_new_tasks = [], im_resolve_infos = Map.empty\<rparr>)"

definition set_info :: "string \<Rightarrow> 'cb ResolveInfo \<Rightarrow> 'cb Impl \<Rightarrow> 'cb Impl" where
  "set_info name i a = a\<lparr>im_resolve_infos := (im_resolve_infos a)(name \<mapsto> i)\<rparr>"

definition resolve :: "string \<Rightarrow> 'cb \<Rightarrow> 'cb Impl \<Rightarrow> 'cb Impl \<times> 'cb calls" where
  "resolve name cb a =
     (let info = (case im_resolve_infos a name of None \<Rightarrow> ResolveInfo | Some i \<Rightarrow> i) in
      case ai_state info of
        kNew \<Rightarrow> ((set_info name (info\<lparr>ai_ares := True, ai_name := name, ai_cbs := ai_cbs info @ [cb]\<rparr>) a)
            \<lparr>im_new_tasks := im_new_tasks a @ [name]\<rparr>, [])
      | kInProcessing \<Rightarrow> (set_info name (info\<lparr>ai_cbs := ai_cbs info @ [cb]\<rparr>) a, [])
      | kDone \<Rightarrow> (set_info name info a, [(cb, ai_addrs info, ai_resolve_status info)]))"

text \<open>
  The first part of the worker's loop, under the mutex. \<open>sync\<close> says for which names c-ares calls
  back before \<open>ares_gethostbyname\<close> returns, as it does for a literal address, for a name of the
  hosts file or on an immediate error: \<open>ares_cb\<close> then locks the mutex that this thread holds.
\<close>

fun start_queries :: "(string \<Rightarrow> bool) \<Rightarrow> string list \<Rightarrow> 'cb Impl \<Rightarrow> ('cb Impl \<times> string list) outcome" where
  "start_queries sync [] a = Inr (a, [])"
| "start_queries sync (task # tasks) a = (case im_resolve_infos a task of
      None \<Rightarrow> Inl (Undefined ''dangling ResolveInfo'')
    | Some i \<Rightarrow>
        if sync (c_str (ai_name i)) then Inl Deadlock
        else bind_outcome (start_queries sync tasks (set_info task (i\<lparr>ai_state := kInProcessing\<rparr>) a))
          (\<lambda>(a', names). Inr (a', c_str (ai_name i) # names)))"

definition start_new_tasks :: "(string \<Rightarrow> bool) \<Rightarrow> 'cb Impl \<Rightarrow> ('cb Impl \<times> string list) outcome" where
  "start_new_tasks sync a = bind_outcome (start_queries sync (im_new_tasks a) a)
     (\<lambda>(a', names). Inr (a'\<lparr>im_new_tasks := []\<rparr>, names))"

text \<open>An answer: the status and the addresses of the \<open>hostent\<close>, when there is one.\<close>

record reply =
  rp_status :: int
  rp_hostent :: "ipv4 list option"

definition record_status :: "reply \<Rightarrow> 'cb ResolveInfo \<Rightarrow> 'cb ResolveInfo outcome" where
  "record_status rp i =
     (if rp_status rp = ARES_SUCCESS then
        (case rp_hostent rp of
           None \<Rightarrow> Inl (Undefined ''null hostent'')
         | Some xs \<Rightarrow> Inr (i\<lparr>ai_resolve_status := ok (ai_resolve_status i),
             ai_addrs := ai_addrs i @ map inet_ntop xs\<rparr>))
      else if rp_status rp \<in> {ARES_ENOTIMP, ARES_EBADNAME, ARES_ENOTFOUND, ARES_ENOMEM, ARES_ECANCELLED,
          ARES_EDESTRUCTION} then
        Inr (i\<lparr>ai_resolve_status := append_msg (error (ai_resolve_status i)) ''Resolve failed''\<rparr>)
      else
        Inr (i\<lparr>ai_resolve_status :=
          append_msg (error (ai_resolve_status i)) ''Resolve failed with unknown error''\<rparr>))"

definition ares_cb :: "reply \<Rightarrow> string \<Rightarrow> 'cb Impl \<Rightarrow> ('cb Impl \<times> 'cb calls) outcome" where
  "ares_cb rp arg a = (case im_resolve_infos a arg of
      None \<Rightarrow> Inl (Undefined ''dangling ResolveInfo'')
    | Some i0 \<Rightarrow>
        if \<not> ai_ares i0 then Inl (Undefined ''null ares pointer'')
        else bind_outcome (record_status rp (i0\<lparr>ai_state := kDone\<rparr>)) (\<lambda>i.
          Inr (set_info arg (i\<lparr>ai_cbs := []\<rparr>) a,
               map (\<lambda>cb. (cb, ai_addrs i, ai_resolve_status i)) (ai_cbs i))))"

text \<open>The answers of one \<open>ares_process\<close> or \<open>ares_destroy\<close>, in order, with their arguments.\<close>

fun process :: "(string \<times> reply) list \<Rightarrow> 'cb Impl \<Rightarrow> ('cb Impl \<times> 'cb calls) outcome" where
  "process [] a = Inr (a, [])"
| "process ((arg, rp) # rps) a = bind_outcome (ares_cb rp arg a) (\<lambda>(a1, calls).
     bind_outcome (process rps a1) (\<lambda>(a2, calls'). Inr (a2, calls @ calls')))"

text \<open>One turn of the worker's loop, with the queries that c-ares has not answered.\<close>

definition work_turn ::
  "(string \<Rightarrow> bool) \<Rightarrow> int \<Rightarrow> (string \<times> reply) list \<Rightarrow> 'cb Impl \<times> string list \<Rightarrow>
   (('cb Impl \<times> string list) \<times> 'cb calls) outcome" where
  "work_turn sync select_result rps s = (case s of (a, fl) \<Rightarrow>
     bind_outcome (start_new_tasks sync a) (\<lambda>(a1, _).
       if select_result = -1 then Inl CheckFailed
       else bind_outcome (process rps a1) (\<lambda>(a2, calls).
         Inr ((a2, fold remove1 (map fst rps) (fl @ im_new_tasks a)), calls))))"

text \<open>
  The destructor joins the worker and destroys the channel, which ends every query with
  \<open>ARES_EDESTRUCTION\<close>; names that the worker has not taken are not queries yet.
\<close>

definition destroy_ares :: "'cb Impl \<times> string list \<Rightarrow> ('cb Impl \<times> 'cb calls) outcome" where
  "destroy_ares s = (case s of (a, fl) \<Rightarrow>
     process (map (\<lambda>arg. (arg, \<lparr>rp_status = ARES_EDESTRUCTION, rp_hostent = None\<rparr>)) fl) a)"

section \<open>Steps\<close>

text \<open>
  c-ares calls back once for each query; between two callbacks other threads may resolve.
\<close>

type_synonym 'cb ares_sys = "'cb Impl \<times> string list"

inductive ares_step :: "'cb ares_sys \<Rightarrow> 'cb ares_sys \<Rightarrow> 'cb list \<Rightarrow> 'cb list \<Rightarrow> bool" where
  ares_client: "resolve name cb a = (a', calls) \<Longrightarrow> ares_step (a, fl) (a', fl) [cb] (map fst calls)"
| ares_start: "start_new_tasks sync a = Inr (a', names) \<Longrightarrow>
     ares_step (a, fl) (a', fl @ im_new_tasks a) [] []"
| ares_reply: "arg \<in> set fl \<Longrightarrow> ares_cb rp arg a = Inr (a', calls) \<Longrightarrow>
     ares_step (a, fl) (a', remove1 arg fl) [] (map fst calls)"

definition info_cbs :: "'cb ResolveInfo option \<Rightarrow> 'cb multiset" where
  "info_cbs o' = (case o' of None \<Rightarrow> {#} | Some i \<Rightarrow> mset (ai_cbs i))"

definition ares_pending :: "'cb ares_sys \<Rightarrow> 'cb multiset" where
  "ares_pending s = (\<Sum>name \<in> dom (im_resolve_infos (fst s)). info_cbs (im_resolve_infos (fst s) name))"

text \<open>
  A new name is queued once for each callback waiting for it; a name in processing has a query;
  no callback waits for a name that is done.
\<close>

definition info_inv :: "string list \<Rightarrow> string list \<Rightarrow> string \<Rightarrow> 'cb ResolveInfo \<Rightarrow> bool" where
  "info_inv tasks fl name i \<longleftrightarrow> ai_ares i \<and> ai_name i = name \<and> (case ai_state i of
      kNew \<Rightarrow> ai_cbs i \<noteq> [] \<and> count_list tasks name = length (ai_cbs i) \<and> name \<notin> set fl
    | kInProcessing \<Rightarrow> ai_cbs i \<noteq> [] \<and> name \<notin> set tasks \<and> name \<in> set fl
    | kDone \<Rightarrow> ai_cbs i = [] \<and> name \<notin> set tasks)"

definition ares_inv :: "'cb ares_sys \<Rightarrow> bool" where
  "ares_inv s \<longleftrightarrow> (case s of (a, fl) \<Rightarrow> finite (dom (im_resolve_infos a)) \<and>
     set (im_new_tasks a) \<union> set fl \<subseteq> dom (im_resolve_infos a) \<and>
     (\<forall>name i. im_resolve_infos a name = Some i \<longrightarrow> info_inv (im_new_tasks a) fl name i))"

section \<open>The invariant, step by step\<close>

lemma set_info_simps [simp]:
  "im_new_tasks (set_info name i a) = im_new_tasks a"
  "im_resolve_infos (set_info name i a) = (im_resolve_infos a)(name \<mapsto> i)"
  by (simp_all add: set_info_def)

lemma info_inv_simps:
  "info_inv tasks fl name i \<Longrightarrow> ai_ares i" "info_inv tasks fl name i \<Longrightarrow> ai_name i = name"
  by (simp_all add: info_inv_def)

lemma info_inv_other:
  "info_inv tasks fl n i \<Longrightarrow> n \<noteq> name \<Longrightarrow> info_inv (tasks @ [name]) fl n i"
  "info_inv tasks fl n i \<Longrightarrow> n \<noteq> name \<Longrightarrow> info_inv tasks (remove1 name fl) n i"
  by (auto simp: info_inv_def split: State.splits)

lemma ares_pending_upd:
  assumes "finite (dom (im_resolve_infos a))"
    and "im_resolve_infos b = (im_resolve_infos a)(name \<mapsto> i)"
  shows "ares_pending (b, fl') + info_cbs (im_resolve_infos a name) = ares_pending (a, fl) + mset (ai_cbs i)"
  using sum_dom_upd [OF assms(1), of info_cbs name i]
  by (simp add: ares_pending_def assms(2) info_cbs_def)

lemma ares_invD:
  assumes "ares_inv (a, fl)"
  shows "finite (dom (im_resolve_infos a))"
    "im_resolve_infos a n = Some i \<Longrightarrow> info_inv (im_new_tasks a) fl n i"
    "n \<in> set (im_new_tasks a) \<Longrightarrow> n \<in> dom (im_resolve_infos a)"
    "n \<in> set fl \<Longrightarrow> n \<in> dom (im_resolve_infos a)"
  using assms unfolding ares_inv_def by auto

lemma ares_invI:
  fixes a :: "'cb Impl"
  assumes inv: "ares_inv (a, fl)" and infos: "im_resolve_infos b = (im_resolve_infos a)(name \<mapsto> i)"
    and "info_inv (im_new_tasks b) fl' name i"
    and "\<And>n (j :: 'cb ResolveInfo). n \<noteq> name \<Longrightarrow> info_inv (im_new_tasks a) fl n j \<Longrightarrow> info_inv (im_new_tasks b) fl' n j"
    and "set (im_new_tasks b) \<subseteq> insert name (set (im_new_tasks a))" "set fl' \<subseteq> set fl"
  shows "ares_inv (b, fl')"
  unfolding ares_inv_def prod.case infos
proof (intro conjI allI impI)
  have "set (im_new_tasks a) \<union> set fl \<subseteq> dom (im_resolve_infos a)"
    using inv by (simp add: ares_inv_def)
  with assms(5,6) show "set (im_new_tasks b) \<union> set fl' \<subseteq> dom ((im_resolve_infos a)(name \<mapsto> i))" by auto
  fix n j assume "((im_resolve_infos a)(name \<mapsto> i)) n = Some j"
  then consider "n = name" "j = i" | "n \<noteq> name" "im_resolve_infos a n = Some j" by (auto split: if_splits)
  then show "info_inv (im_new_tasks b) fl' n j"
  proof cases
    case 1
    with assms(3) show ?thesis by simp
  next
    case 2
    show ?thesis by (rule assms(4) [OF 2(1) ares_invD(2) [OF inv 2(2)]])
  qed
qed (use ares_invD(1) [OF inv] in simp)

lemma resolve_ok:
  assumes inv: "ares_inv (a, fl)" and res: "resolve name cb a = (b, calls)"
  shows "ares_inv (b, fl) \<and> ares_pending (b, fl) + mset (map fst calls) = ares_pending (a, fl) + {#cb#}"
proof -
  note fin = ares_invD(1) [OF inv]
  define info where "info = (case im_resolve_infos a name of None \<Rightarrow> ResolveInfo | Some i \<Rightarrow> i)"
  note info = info_def
  have res': "(case ai_state info of
        kNew \<Rightarrow> ((set_info name (info\<lparr>ai_ares := True, ai_name := name, ai_cbs := ai_cbs info @ [cb]\<rparr>) a)
            \<lparr>im_new_tasks := im_new_tasks a @ [name]\<rparr>, [])
      | kInProcessing \<Rightarrow> (set_info name (info\<lparr>ai_cbs := ai_cbs info @ [cb]\<rparr>) a, [])
      | kDone \<Rightarrow> (set_info name info a, [(cb, ai_addrs info, ai_resolve_status info)])) = (b, calls)"
    using res unfolding resolve_def info_def Let_def .
  have cbs: "info_cbs (im_resolve_infos a name) = mset (ai_cbs info)"
    by (simp add: info info_cbs_def ResolveInfo_def split: option.split)
  show ?thesis
  proof (cases "ai_state info")
    case kNew
    let ?i = "info\<lparr>ai_ares := True, ai_name := name, ai_cbs := ai_cbs info @ [cb]\<rparr>"
    from kNew res' have b: "b = (set_info name ?i a)\<lparr>im_new_tasks := im_new_tasks a @ [name]\<rparr>"
      and c: "calls = []" by simp_all
    have "count_list (im_new_tasks a) name = length (ai_cbs info) \<and> name \<notin> set fl"
    proof (cases "im_resolve_infos a name")
      case None
      then have "name \<notin> set (im_new_tasks a)" "name \<notin> set fl" using ares_invD(3,4) [OF inv] by auto
      with None show ?thesis by (simp add: info ResolveInfo_def)
    next
      case (Some i)
      with ares_invD(2) [OF inv Some] kNew show ?thesis by (simp add: info info_inv_def)
    qed
    with kNew have "info_inv (im_new_tasks b) fl name ?i" by (simp add: b info_inv_def)
    then have "ares_inv (b, fl)"
      by (rule ares_invI [OF inv, rotated]) (auto simp: b intro: info_inv_other)
    moreover have "im_resolve_infos b = (im_resolve_infos a)(name \<mapsto> ?i)" by (simp add: b)
    from ares_pending_upd [OF fin this, of fl fl]
    have "ares_pending (b, fl) + mset (ai_cbs info) = (ares_pending (a, fl) + {#cb#}) + mset (ai_cbs info)"
      by (simp add: cbs)
    ultimately show ?thesis using c by simp
  next
    case kInProcessing
    let ?i = "info\<lparr>ai_cbs := ai_cbs info @ [cb]\<rparr>"
    from kInProcessing have i: "im_resolve_infos a name = Some info"
      by (auto simp: info ResolveInfo_def split: option.splits)
    from kInProcessing res' have b: "b = set_info name ?i a" and c: "calls = []" by simp_all
    have "info_inv (im_new_tasks b) fl name ?i"
      using ares_invD(2) [OF inv i] kInProcessing by (simp add: b info_inv_def)
    then have "ares_inv (b, fl)" by (rule ares_invI [OF inv, rotated]) (auto simp: b)
    moreover have "im_resolve_infos b = (im_resolve_infos a)(name \<mapsto> ?i)" by (simp add: b)
    from ares_pending_upd [OF fin this, of fl fl]
    have "ares_pending (b, fl) + mset (ai_cbs info) = (ares_pending (a, fl) + {#cb#}) + mset (ai_cbs info)"
      by (simp add: cbs)
    ultimately show ?thesis using c by simp
  next
    case kDone
    from kDone have i: "im_resolve_infos a name = Some info"
      by (auto simp: info ResolveInfo_def split: option.splits)
    from kDone res' have b: "b = set_info name info a" and c: "map fst calls = [cb]" by auto
    from i have "im_resolve_infos b = im_resolve_infos a" by (simp add: b map_upd_triv)
    with inv have "ares_inv (b, fl)" "ares_pending (b, fl) = ares_pending (a, fl)"
      by (simp_all add: ares_inv_def ares_pending_def b)
    with c show ?thesis by simp
  qed
qed

text \<open>What the first part of the loop does: one query for each queued name, unless one answers at once.\<close>

lemma start_queries_total:
  assumes "set ts \<subseteq> dom (im_resolve_infos a)"
  shows "start_queries sync ts a =
    (if \<exists>t \<in> set ts. sync (c_str (ai_name (the (im_resolve_infos a t)))) then Inl Deadlock
     else Inr (a\<lparr>im_resolve_infos := (\<lambda>n. if n \<in> set ts
         then map_option (\<lambda>i. i\<lparr>ai_state := kInProcessing\<rparr>) (im_resolve_infos a n) else im_resolve_infos a n)\<rparr>,
       map (\<lambda>t. c_str (ai_name (the (im_resolve_infos a t)))) ts))"
  using assms
proof (induction ts arbitrary: a)
  case Nil
  then show ?case by simp
next
  case (Cons t ts)
  then obtain i where i: "im_resolve_infos a t = Some i" by auto
  let ?a = "set_info t (i\<lparr>ai_state := kInProcessing\<rparr>) a"
  have name: "ai_name (the (im_resolve_infos ?a n)) = ai_name (the (im_resolve_infos a n))" for n
    using i by simp
  have m: "(\<lambda>n. if n \<in> set ts then map_option (\<lambda>i. i\<lparr>ai_state := kInProcessing\<rparr>) (im_resolve_infos ?a n)
        else im_resolve_infos ?a n) =
      (\<lambda>n. if n \<in> set (t # ts) then map_option (\<lambda>i. i\<lparr>ai_state := kInProcessing\<rparr>) (im_resolve_infos a n)
        else im_resolve_infos a n)"
    using i by (auto simp: fun_eq_iff)
  have u: "?a\<lparr>im_resolve_infos := f\<rparr> = a\<lparr>im_resolve_infos := f\<rparr>" for f by (simp add: set_info_def)
  have "set ts \<subseteq> dom (im_resolve_infos ?a)" using Cons.prems by auto
  note ih = Cons.IH [OF this, unfolded name m u]
  show ?case
    using i by (simp add: ih)
qed

lemma start_ok:
  assumes inv: "ares_inv (a, fl)" and st: "start_new_tasks sync a = Inr (b, names)"
  shows "ares_inv (b, fl @ im_new_tasks a) \<and> ares_pending (b, fl @ im_new_tasks a) = ares_pending (a, fl)"
proof -
  let ?ts = "im_new_tasks a"
  let ?m = "\<lambda>n. if n \<in> set ?ts then map_option (\<lambda>i. i\<lparr>ai_state := kInProcessing\<rparr>) (im_resolve_infos a n)
      else im_resolve_infos a n"
  have sub: "set ?ts \<subseteq> dom (im_resolve_infos a)" using ares_invD(3) [OF inv] by blast
  from st have b: "b = a\<lparr>im_resolve_infos := ?m, im_new_tasks := []\<rparr>"
    by (auto simp: start_new_tasks_def start_queries_total [OF sub] split: if_splits)
  have dom: "dom ?m = dom (im_resolve_infos a)" by (auto split: if_splits)
  have cbs: "info_cbs (?m n) = info_cbs (im_resolve_infos a n)" for n
    by (cases "im_resolve_infos a n") (simp_all add: info_cbs_def)
  have pend: "ares_pending (b, fl @ ?ts) = ares_pending (a, fl)"
    unfolding ares_pending_def fst_conv b by (simp add: dom cbs del: set_append)
  have "info_inv [] (fl @ ?ts) n j" if "?m n = Some j" for n j
  proof -
    from that obtain i where i: "im_resolve_infos a n = Some i"
      "j = (if n \<in> set ?ts then i\<lparr>ai_state := kInProcessing\<rparr> else i)" by (auto split: if_splits)
    from ares_invD(2) [OF inv i(1)] i(2) show ?thesis
      by (auto simp: info_inv_def count_list_0_iff split: State.splits if_splits)
  qed
  moreover have "set fl \<subseteq> dom (im_resolve_infos a)" using ares_invD(4) [OF inv] by blast
  ultimately have "ares_inv (b, fl @ ?ts)"
    using ares_invD(1) [OF inv] sub by (simp add: ares_inv_def b dom)
  with pend show ?thesis by blast
qed

lemma record_status_keeps:
  "record_status rp i = Inr j \<Longrightarrow> ai_ares j = ai_ares i \<and> ai_name j = ai_name i \<and> ai_cbs j = ai_cbs i \<and>
   ai_state j = ai_state i"
  by (auto simp: record_status_def split: if_splits option.splits)

lemma reply_ok:
  assumes inv: "ares_inv (a, fl)" and arg: "arg \<in> set fl" and cb: "ares_cb rp arg a = Inr (b, calls)"
  shows "ares_inv (b, remove1 arg fl) \<and>
    ares_pending (b, remove1 arg fl) + mset (map fst calls) = ares_pending (a, fl)"
proof -
  from cb obtain i0 i where i0: "im_resolve_infos a arg = Some i0"
    and i: "record_status rp (i0\<lparr>ai_state := kDone\<rparr>) = Inr i"
    and b: "b = set_info arg (i\<lparr>ai_cbs := []\<rparr>) a" and c: "map fst calls = ai_cbs i"
    by (auto simp: ares_cb_def bind_outcome_Inr_iff comp_def split: option.splits if_splits)
  note j = record_status_keeps [OF i]
  have "info_inv (im_new_tasks b) (remove1 arg fl) arg (i\<lparr>ai_cbs := []\<rparr>)"
    using ares_invD(2) [OF inv i0] arg j by (auto simp: info_inv_def b split: State.splits)
  moreover have infos: "im_resolve_infos b = (im_resolve_infos a)(arg \<mapsto> i\<lparr>ai_cbs := []\<rparr>)"
    and tasks: "im_new_tasks b = im_new_tasks a" by (simp_all add: b)
  ultimately have "ares_inv (b, remove1 arg fl)"
    by (intro ares_invI [OF inv infos _ _ _ set_remove1_subset])
      (simp_all only: tasks info_inv_other(2) subset_insertI not_False_eq_True)
  moreover have "ares_pending (b, remove1 arg fl) + info_cbs (Some i0) = ares_pending (a, fl)"
    using ares_pending_upd [OF ares_invD(1) [OF inv], of b arg "i\<lparr>ai_cbs := []\<rparr>" "remove1 arg fl" fl]
    by (simp add: b i0)
  ultimately show ?thesis using c j by (simp add: info_cbs_def)
qed

lemma ares_step_ok:
  "ares_step s t reg called \<Longrightarrow> ares_inv s \<Longrightarrow>
   ares_inv t \<and> ares_pending t + mset called = ares_pending s + mset reg"
proof (induction rule: ares_step.induct)
  case (ares_client name cb a a' calls fl)
  then show ?case using resolve_ok by simp
next
  case (ares_start sync a a' names fl)
  then show ?case using start_ok by simp
next
  case (ares_reply arg fl rp a a' calls)
  then show ?case using reply_ok by simp
qed

interpretation ares: callback_service ares_step ares_inv ares_pending
  by unfold_locales (auto dest: ares_step_ok)

lemma ares_init:
  assumes "Ares li oi = Inr a"
  shows "ares_inv (a, [])" "ares_pending (a, []) = {#}"
  using assms by (auto simp: Ares_def ares_inv_def ares_pending_def split: if_splits)

lemma ares_reach: "Ares li oi = Inr a \<Longrightarrow> run_of ares_step (a, []) s reg called \<Longrightarrow> ares_inv s"
  using ares.run_inv ares_init(1) by blast

lemma ares_calls_once:
  "Ares li oi = Inr a \<Longrightarrow> run_of ares_step (a, []) s reg called \<Longrightarrow> ares_pending s + mset called = mset reg"
  using ares.run_once [of "(a, [])" s reg called] ares_init [of li oi a] by simp

section \<open>Answers in a row\<close>

text \<open>The answers of a turn, or of the destructor, are a run of reply steps.\<close>

lemma process_run:
  "process rps a = Inr (b, calls) \<Longrightarrow> mset (map fst rps) \<subseteq># mset fl \<Longrightarrow>
   run_of ares_step (a, fl) (b, fold remove1 (map fst rps) fl) [] (map fst calls)"
proof (induction rps arbitrary: a fl calls)
  case Nil
  then show ?case by (simp add: run_refl)
next
  case (Cons r rps)
  obtain arg rp where r: "r = (arg, rp)" by (cases r)
  with Cons.prems(1) obtain a1 c1 c2 where p: "ares_cb rp arg a = Inr (a1, c1)"
    "process rps a1 = Inr (b, c2)" "calls = c1 @ c2"
    by (auto simp: bind_outcome_Inr_iff)
  have arg: "arg \<in> set fl" using Cons.prems(2) r by (auto dest: mset_subset_eqD)
  have "mset (map fst rps) \<subseteq># mset (remove1 arg fl)"
    using Cons.prems(2) r by (simp add: insert_subset_eq_iff)
  from run_consI [OF Cons.IH [OF p(2) this] ares_reply [OF arg p(1)]] show ?case
    by (simp add: r p(3))
qed

text \<open>A reply with an error status always goes through.\<close>

lemma error_reply_total:
  assumes "ares_inv (a, fl)" and "arg \<in> set fl" and "rp_status rp \<noteq> ARES_SUCCESS"
  shows "\<exists>b calls. ares_cb rp arg a = Inr (b, calls) \<and> (\<forall>(cb, addrs, st) \<in> set calls. \<not> is_ok st)"
proof -
  from ares_invD(4) [OF assms(1,2)] obtain i where i: "im_resolve_infos a arg = Some i" by blast
  then have "ai_ares i" using ares_invD(2) [OF assms(1)] info_inv_simps(1) by blast
  with i assms(3) show ?thesis by (auto simp: ares_cb_def record_status_def status_simps)
qed

lemma destroy_total:
  "ares_inv (a, fl) \<Longrightarrow> \<exists>b calls. destroy_ares (a, fl) = Inr (b, calls) \<and>
    (\<forall>(cb, addrs, st) \<in> set calls. \<not> is_ok st)"
proof (induction fl arbitrary: a)
  case Nil
  then show ?case by (simp add: destroy_ares_def)
next
  case (Cons arg fl)
  let ?rp = "\<lparr>rp_status = ARES_EDESTRUCTION, rp_hostent = None\<rparr>"
  have "rp_status ?rp \<noteq> ARES_SUCCESS" by (simp add: ARES_EDESTRUCTION_def ARES_SUCCESS_def)
  then obtain b c where b: "ares_cb ?rp arg a = Inr (b, c)" "\<forall>(cb, addrs, st) \<in> set c. \<not> is_ok st"
    using error_reply_total [OF Cons.prems] by (metis list.set_intros(1))
  have "ares_inv (b, fl)" using reply_ok [OF Cons.prems _ b(1)] by simp
  then obtain d c' where "destroy_ares (b, fl) = Inr (d, c')" "\<forall>(cb, addrs, st) \<in> set c'. \<not> is_ok st"
    using Cons.IH by blast
  with b show ?case by (auto simp: destroy_ares_def)
qed

section \<open>A concrete run\<close>

text \<open>For the witnesses: one name asked for twice, then taken by the worker.\<close>

definition ares0 :: "nat Impl" where
  "ares0 = \<lparr>im_new_tasks = [], im_resolve_infos = Map.empty\<rparr>"

definition ares2 :: "nat Impl" where
  "ares2 = \<lparr>im_new_tasks = [''h'', ''h''], im_resolve_infos = [''h'' \<mapsto> \<lparr>ai_ares = True, ai_name = ''h'',
     ai_cbs = [7, 8], ai_resolve_status = Status, ai_addrs = [], ai_state = kNew\<rparr>]\<rparr>"

definition ares3 :: "nat Impl" where
  "ares3 = \<lparr>im_new_tasks = [], im_resolve_infos = [''h'' \<mapsto> \<lparr>ai_ares = True, ai_name = ''h'',
     ai_cbs = [7, 8], ai_resolve_status = Status, ai_addrs = [], ai_state = kInProcessing\<rparr>]\<rparr>"

lemma ares0: "Ares 0 ARES_SUCCESS = Inr ares0"
  by (simp add: Ares_def ares0_def)

lemma run_ares2: "run_of ares_step (ares0, []) (ares2, []) [7, 8] []"
proof -
  let ?a = "fst (resolve ''h'' 7 ares0)"
  have r: "resolve ''h'' 7 ares0 = (?a, [])" "resolve ''h'' 8 ?a = (ares2, [])"
    by (simp_all add: resolve_def ares0_def ares2_def ResolveInfo_def set_info_def Let_def)
  have s1: "ares_step (ares0, []) (?a, []) [7] []" using ares_client [OF r(1), of "[]"] by simp
  have s2: "ares_step (?a, []) (ares2, []) [8] []" using ares_client [OF r(2), of "[]"] by simp
  note run_of.run_step [where step = ares_step, OF run_of.run_step [where step = ares_step, OF run_refl s1] s2]
  then show ?thesis by simp
qed

lemma run_ares3: "run_of ares_step (ares0, []) (ares3, [''h'', ''h'']) [7, 8] []"
proof -
  have "start_new_tasks (\<lambda>_. False) ares2 = Inr (ares3, [''h'', ''h''])"
    by (simp add: start_new_tasks_def ares2_def ares3_def set_info_def c_str_def)
  then have "ares_step (ares2, []) (ares3, [] @ im_new_tasks ares2) [] []" by (rule ares_start)
  from run_of.run_step [OF run_ares2 this] show ?thesis by (simp add: ares2_def)
qed

section \<open>Properties\<close>

text \<open>C31: Every callback passed to \<open>Ares::resolve\<close> is called at most once, and the calls made plus
  the callbacks still waiting are exactly those registered; when the queue is empty and no query
  is unanswered, each has been called exactly once.\<close>

theorem ares_calls_exactly_once:
  assumes "Ares li oi = Inr a0" and "run_of ares_step (a0, []) (a, fl) reg called"
  shows "ares_pending (a, fl) + mset called = mset reg \<and>
    (im_new_tasks a = [] \<and> fl = [] \<longrightarrow> mset called = mset reg)"
proof -
  have once: "ares_pending (a, fl) + mset called = mset reg" using ares_calls_once [OF assms] .
  have "ares_pending (a, fl) = {#}" if e: "im_new_tasks a = []" "fl = []"
  proof -
    have inv: "ares_inv (a, fl)" using ares_reach [OF assms] .
    have "info_cbs (im_resolve_infos a name) = {#}" for name
    proof (cases "im_resolve_infos a name")
      case (Some i)
      with ares_invD(2) [OF inv Some] e show ?thesis
        by (auto simp: info_cbs_def info_inv_def split: State.splits)
    qed (simp add: info_cbs_def)
    then show ?thesis by (simp add: ares_pending_def)
  qed
  with once show ?thesis by auto
qed

theorem ares_calls_exactly_once_witness:
  "ares_pending (ares3, [''h'', ''h'']) + mset [] = mset [7, 8]"
  using ares_calls_exactly_once [OF ares0 run_ares3] by simp

text \<open>C32: In every reachable state a turn of the worker asks one query for each callback that waits
  for a new name, not one for each name; and the turn deadlocks, on the mutex it holds itself,
  exactly when c-ares answers one of them before \<open>ares_gethostbyname\<close> returns.\<close>

theorem ares_query_per_callback:
  assumes "Ares li oi = Inr a0" and "run_of ares_step (a0, []) (a, fl) reg called"
  shows "(if \<exists>name \<in> set (im_new_tasks a). sync (c_str name) then start_new_tasks sync a = Inl Deadlock
      else \<exists>b. start_new_tasks sync a = Inr (b, map c_str (im_new_tasks a)) \<and> im_new_tasks b = []) \<and>
    (\<forall>name i. im_resolve_infos a name = Some i \<and> ai_state i = kNew \<longrightarrow>
       count_list (im_new_tasks a) name = length (ai_cbs i) \<and> ai_cbs i \<noteq> [])"
proof -
  have inv: "ares_inv (a, fl)" using ares_reach [OF assms] .
  have sub: "set (im_new_tasks a) \<subseteq> dom (im_resolve_infos a)" using ares_invD(3) [OF inv] by blast
  have name: "ai_name (the (im_resolve_infos a t)) = t" if "t \<in> set (im_new_tasks a)" for t
    using sub that ares_invD(2) [OF inv] info_inv_simps(2) by fastforce
  have names: "map (\<lambda>t. c_str (ai_name (the (im_resolve_infos a t)))) (im_new_tasks a) =
      map c_str (im_new_tasks a)" using name by simp
  have sync: "(\<exists>t \<in> set (im_new_tasks a). sync (c_str (ai_name (the (im_resolve_infos a t))))) \<longleftrightarrow>
      (\<exists>t \<in> set (im_new_tasks a). sync (c_str t))" using name by auto
  have "if \<exists>name \<in> set (im_new_tasks a). sync (c_str name) then start_new_tasks sync a = Inl Deadlock
      else \<exists>b. start_new_tasks sync a = Inr (b, map c_str (im_new_tasks a)) \<and> im_new_tasks b = []"
    by (simp add: start_new_tasks_def start_queries_total [OF sub, of sync, unfolded names sync])
  moreover have "count_list (im_new_tasks a) name = length (ai_cbs i) \<and> ai_cbs i \<noteq> []"
    if "im_resolve_infos a name = Some i" "ai_state i = kNew" for name i
    using ares_invD(2) [OF inv that(1)] that(2) by (simp add: info_inv_def)
  ultimately show ?thesis by blast
qed

theorem ares_query_per_callback_witness:
  "start_new_tasks (\<lambda>_. True) ares2 = Inl Deadlock \<and>
   (\<exists>b. start_new_tasks (\<lambda>_. False) ares2 = Inr (b, [''h'', ''h'']))"
  using ares_query_per_callback [OF ares0 run_ares2, of "\<lambda>_. True"]
    ares_query_per_callback [OF ares0 run_ares2, of "\<lambda>_. False"]
  by (auto simp: ares2_def c_str_def)

text \<open>A successful answer adds its addresses to those of earlier answers for the same name and
  calls each waiting callback with the whole list; from then on the name is answered inside
  \<open>resolve\<close> with that list, for ever, so a name that was queried twice has each address twice.\<close>

theorem ares_addresses_accumulate:
  assumes "Ares li oi = Inr a0" and "run_of ares_step (a0, []) (a, fl) reg called" and "arg \<in> set fl"
  shows "\<exists>i st b. im_resolve_infos a arg = Some i \<and> is_ok st \<and>
    ares_cb \<lparr>rp_status = ARES_SUCCESS, rp_hostent = Some xs\<rparr> arg a =
      Inr (b, map (\<lambda>cb. (cb, ai_addrs i @ map inet_ntop xs, st)) (ai_cbs i)) \<and>
    snd (resolve arg cb b) = [(cb, ai_addrs i @ map inet_ntop xs, st)] \<and>
    (\<forall>ys. arg \<in> set (remove1 arg fl) \<longrightarrow> (\<exists>c st'.
       ares_cb \<lparr>rp_status = ARES_SUCCESS, rp_hostent = Some ys\<rparr> arg b = Inr (c, []) \<and>
       snd (resolve arg cb c) = [(cb, ai_addrs i @ map inet_ntop xs @ map inet_ntop ys, st')]))"
proof -
  have inv: "ares_inv (a, fl)" using ares_reach [OF assms(1,2)] .
  from ares_invD(4) [OF inv assms(3)] obtain i where i: "im_resolve_infos a arg = Some i" by blast
  then have "ai_ares i" using ares_invD(2) [OF inv] info_inv_simps(1) by blast
  with i show ?thesis
    by (intro exI [of _ i] exI [of _ "ok (ai_resolve_status i)"])
      (simp add: ares_cb_def record_status_def resolve_def status_simps Let_def)
qed

theorem ares_addresses_accumulate_witness:
  "\<exists>b c st st'. ares_cb \<lparr>rp_status = ARES_SUCCESS, rp_hostent = Some [(10, 0, 0, 1)]\<rparr> ''h'' ares3 =
     Inr (b, [(7, [inet_ntop (10, 0, 0, 1)], st), (8, [inet_ntop (10, 0, 0, 1)], st)]) \<and>
   ares_cb \<lparr>rp_status = ARES_SUCCESS, rp_hostent = Some [(10, 0, 0, 1)]\<rparr> ''h'' b = Inr (c, []) \<and>
   snd (resolve ''h'' 9 c) = [(9, [inet_ntop (10, 0, 0, 1), inet_ntop (10, 0, 0, 1)], st')]"
proof -
  have "''h'' \<in> set [''h'', ''h'']" by simp
  from ares_addresses_accumulate [OF ares0 run_ares3 this, of "[(10, 0, 0, 1)]" 9]
  obtain i st b where r: "im_resolve_infos ares3 ''h'' = Some i"
    "ares_cb \<lparr>rp_status = ARES_SUCCESS, rp_hostent = Some [(10, 0, 0, 1)]\<rparr> ''h'' ares3 =
      Inr (b, map (\<lambda>cb. (cb, ai_addrs i @ map inet_ntop [(10, 0, 0, 1)], st)) (ai_cbs i))"
    "\<forall>ys. ''h'' \<in> set (remove1 ''h'' [''h'', ''h'']) \<longrightarrow> (\<exists>c st'.
       ares_cb \<lparr>rp_status = ARES_SUCCESS, rp_hostent = Some ys\<rparr> ''h'' b = Inr (c, []) \<and>
       snd (resolve ''h'' 9 c) = [(9, ai_addrs i @ map inet_ntop [(10, 0, 0, 1)] @ map inet_ntop ys, st')])"
    by blast
  have i: "ai_addrs i = []" "ai_cbs i = [7, 8]" using r(1) by (auto simp: ares3_def)
  have "''h'' \<in> set (remove1 ''h'' [''h'', ''h''])" by simp
  with r(3) obtain c st' where
    "ares_cb \<lparr>rp_status = ARES_SUCCESS, rp_hostent = Some [(10, 0, 0, 1)]\<rparr> ''h'' b = Inr (c, [])"
    "snd (resolve ''h'' 9 c) = [(9, ai_addrs i @ map inet_ntop [(10, 0, 0, 1)] @ map inet_ntop [(10, 0, 0, 1)], st')]"
    by blast
  with r(2) i show ?thesis by auto
qed

text \<open>C33: The destructor calls back for every query that c-ares has not answered, always with an
  error, and fails nowhere; the callbacks of names the worker had not taken yet are the ones, and
  the only ones, that are never called.\<close>

theorem ares_destroy_calls:
  assumes "Ares li oi = Inr a0" and "run_of ares_step (a0, []) (a, fl) reg called"
  shows "\<exists>b calls. destroy_ares (a, fl) = Inr (b, calls) \<and>
    (\<forall>(cb, addrs, st) \<in> set calls. \<not> is_ok st) \<and>
    mset reg = mset called + mset (map fst calls) + ares_pending (b, []) \<and>
    (\<forall>name i. im_resolve_infos b name = Some i \<and> ai_cbs i \<noteq> [] \<longrightarrow> ai_state i = kNew \<and> name \<in> set (im_new_tasks b))"
proof -
  have inv: "ares_inv (a, fl)" using ares_reach [OF assms] .
  then obtain b calls where d: "destroy_ares (a, fl) = Inr (b, calls)" "\<forall>(cb, addrs, st) \<in> set calls. \<not> is_ok st"
    using destroy_total by blast
  let ?rps = "map (\<lambda>arg. (arg, \<lparr>rp_status = ARES_EDESTRUCTION, rp_hostent = None\<rparr>)) fl"
  have fl: "map fst ?rps = fl" by (simp add: comp_def)
  have "fold remove1 xs xs = []" for xs :: "string list" by (induction xs) simp_all
  then have run: "run_of ares_step (a, fl) (b, []) [] (map fst calls)"
    using process_run [of ?rps a b calls fl] d(1) unfolding fl by (simp add: destroy_ares_def)
  have "mset reg = mset called + mset (map fst calls) + ares_pending (b, [])"
    using ares.run_once [OF run inv] ares_calls_once [OF assms] by (simp add: ac_simps)
  moreover have inv': "ares_inv (b, [])" using ares.run_inv [OF run inv] .
  have "ai_state i = kNew \<and> name \<in> set (im_new_tasks b)"
    if i: "im_resolve_infos b name = Some i" "ai_cbs i \<noteq> []" for name i
  proof -
    have "name \<in> set (im_new_tasks b)" if "count_list (im_new_tasks b) name = length (ai_cbs i)"
      using that i(2) by (metis count_list_0_iff length_0_conv)
    with ares_invD(2) [OF inv' i(1)] i(2) show ?thesis by (auto simp: info_inv_def split: State.splits)
  qed
  ultimately show ?thesis using d by blast
qed

theorem ares_destroy_calls_witness:
  "\<exists>b calls. destroy_ares (ares3, [''h'', ''h'']) = Inr (b, calls) \<and>
     mset [7, 8] = mset [] + mset (map fst calls) + ares_pending (b, [])"
  using ares_destroy_calls [OF ares0 run_ares3] by blast

end
