(* ===== verification/Libuves.thy ===== *)
theory Libuves
  imports Callbacks
begin

text \<open>
  \<open>libuves/EventServer.cpp\<close> (the copy under \<open>Fetcher/libuves\<close> is identical): the event server over
  libuv that \<open>base/EventServer\<close> took the place of. libuv is a parameter, the functions that change
  its loop being the fields of \<open>libuv\<close>. All operations but \<open>add_async\<close> and \<open>stop\<close> check that they
  run in the thread of the loop; \<open>me\<close> is the thread that calls.
\<close>

section \<open>The library\<close>

record 'lp libuv =
  lu_loop_init :: "'lp \<times> int"
  lu_loop_close :: "'lp \<Rightarrow> 'lp \<times> int"
  lu_async_init :: "'lp \<Rightarrow> nat \<Rightarrow> 'lp \<times> int"
  lu_async_send :: "'lp \<Rightarrow> nat \<Rightarrow> 'lp \<times> int"
  lu_timer_init :: "'lp \<Rightarrow> nat \<Rightarrow> 'lp \<times> int"
  lu_timer_start :: "'lp \<Rightarrow> nat \<Rightarrow> 64 word \<Rightarrow> 64 word \<Rightarrow> 'lp \<times> int"
  lu_timer_stop :: "'lp \<Rightarrow> nat \<Rightarrow> 'lp \<times> int"
  lu_poll_init_socket :: "'lp \<Rightarrow> nat \<Rightarrow> int \<Rightarrow> 'lp \<times> int"
  lu_poll_start :: "'lp \<Rightarrow> nat \<Rightarrow> int \<Rightarrow> 'lp \<times> int"
  lu_poll_stop :: "'lp \<Rightarrow> nat \<Rightarrow> 'lp \<times> int"
  lu_is_closing :: "'lp \<Rightarrow> nat \<Rightarrow> bool"
  lu_close :: "'lp \<Rightarrow> nat \<Rightarrow> 'lp"
  lu_closed :: "'lp \<Rightarrow> nat \<Rightarrow> 'lp"                  \<comment> \<open>the loop is about to run a close callback\<close>
  lu_walk :: "'lp \<Rightarrow> nat list"
  lu_strerror :: "int \<Rightarrow> string"

section \<open>The code\<close>

text \<open>
  What a \<open>Handle\<close> points to, by its address. The id of a timer is its address. The closure that
  \<open>stop\<close> queues is \<open>StopAll\<close>.
\<close>

datatype 'cb uv_handle = AsyncHandle | TimerHandle 'cb | PollHandle 'cb

datatype 'cb async_cb = AsyncCb 'cb | StopAll

record ('cb, 'lp) uv_server =
  us_thread_id :: nat
  us_async_queue :: "'cb async_cb list"
  us_timer_handles :: "nat \<rightharpoonup> nat"
  us_poll_handles :: "int \<rightharpoonup> nat"
  us_uv_loop :: 'lp
  us_async_handle :: "nat option"
  us_heap :: "nat \<rightharpoonup> 'cb uv_handle"
  us_next :: nat

text \<open>\<open>CHECK_EQ(0, rc)\<close> after a call that also changes the loop.\<close>

definition check_zero :: "'lp \<times> int \<Rightarrow> ('cb, 'lp) uv_server \<Rightarrow> ('cb, 'lp) uv_server outcome" where
  "check_zero r s = (if snd r \<noteq> 0 then Inl CheckFailed else Inr (s\<lparr>us_uv_loop := fst r\<rparr>))"

definition new_async_handle :: "'lp libuv \<Rightarrow> ('cb, 'lp) uv_server \<Rightarrow> ('cb, 'lp) uv_server outcome" where
  "new_async_handle L s = (let h = us_next s in
     check_zero (lu_async_init L (us_uv_loop s) h)
       (s\<lparr>us_async_handle := Some h, us_heap := (us_heap s)(h \<mapsto> AsyncHandle), us_next := Suc h\<rparr>))"

definition EventServer :: "'lp libuv \<Rightarrow> nat \<Rightarrow> ('cb, 'lp) uv_server outcome" where
  "EventServer L me =
     (if snd (lu_loop_init L) \<noteq> 0 then Inl CheckFailed
      else new_async_handle L \<lparr>us_thread_id = me, us_async_queue = [], us_timer_handles = Map.empty,
        us_poll_handles = Map.empty, us_uv_loop = fst (lu_loop_init L), us_async_handle = None,
        us_heap = Map.empty, us_next = 1\<rparr>)"

definition destroy :: "'lp libuv \<Rightarrow> ('cb, 'lp) uv_server \<Rightarrow> ('cb, 'lp) uv_server outcome" where
  "destroy L s = check_zero (lu_loop_close L (us_uv_loop s)) s"

text \<open>\<open>start\<close> takes the loop over and runs it; what \<open>uv_run\<close> returns in the end is checked.\<close>

definition start :: "nat \<Rightarrow> ('cb, 'lp) uv_server \<Rightarrow> ('cb, 'lp) uv_server" where
  "start me s = s\<lparr>us_thread_id := me\<rparr>"

definition start_returns :: "int \<Rightarrow> ('cb, 'lp) uv_server \<Rightarrow> ('cb, 'lp) uv_server outcome" where
  "start_returns run_result s = (if run_result \<noteq> 0 then Inl CheckFailed else Inr s)"

definition add_async ::
  "'lp libuv \<Rightarrow> 'cb async_cb \<Rightarrow> ('cb, 'lp) uv_server \<Rightarrow> ('cb, 'lp) uv_server outcome" where
  "add_async L cb s =
     bind_outcome (case us_async_handle s of None \<Rightarrow> new_async_handle L s | Some h \<Rightarrow> Inr s) (\<lambda>s1.
       let s2 = s1\<lparr>us_async_queue := us_async_queue s1 @ [cb]\<rparr> in
       case us_async_handle s2 of
         None \<Rightarrow> Inl (Undefined ''null async handle'')
       | Some h \<Rightarrow> check_zero (lu_async_send L (us_uv_loop s2) h) s2)"

definition stop :: "'lp libuv \<Rightarrow> ('cb, 'lp) uv_server \<Rightarrow> ('cb, 'lp) uv_server outcome" where
  "stop L s = add_async L StopAll s"

definition check_thread :: "nat \<Rightarrow> ('cb, 'lp) uv_server \<Rightarrow> 'a outcome \<Rightarrow> 'a outcome" where
  "check_thread me s r = (if me \<noteq> us_thread_id s then Inl CheckFailed else r)"

text \<open>\<open>uv_close\<close>: a handle that is being closed already must not be passed again.\<close>

definition close_handle :: "'lp libuv \<Rightarrow> nat \<Rightarrow> ('cb, 'lp) uv_server \<Rightarrow> ('cb, 'lp) uv_server outcome" where
  "close_handle L h s =
     (if lu_is_closing L (us_uv_loop s) h then Inl (Undefined ''uv_close on a closing handle'')
      else Inr (s\<lparr>us_uv_loop := lu_close L (us_uv_loop s) h\<rparr>))"

text \<open>The closure of \<open>stop\<close>.\<close>

definition run_stop :: "'lp libuv \<Rightarrow> nat \<Rightarrow> ('cb, 'lp) uv_server \<Rightarrow> ('cb, 'lp) uv_server outcome" where
  "run_stop L me s = check_thread me s
     (bind_outcome (fold_outcome (close_handle L) (lu_walk L (us_uv_loop s)) s) (\<lambda>s1.
       Inr (s1\<lparr>us_timer_handles := Map.empty, us_poll_handles := Map.empty, us_async_handle := None\<rparr>)))"

definition add_timer ::
  "'lp libuv \<Rightarrow> nat \<Rightarrow> 'cb \<Rightarrow> ('cb, 'lp) uv_server \<Rightarrow> (('cb, 'lp) uv_server \<times> nat) outcome" where
  "add_timer L me cb s = check_thread me s (let h = us_next s in
     bind_outcome (check_zero (lu_timer_init L (us_uv_loop s) h)
       (s\<lparr>us_heap := (us_heap s)(h \<mapsto> TimerHandle cb), us_next := Suc h,
          us_timer_handles := (us_timer_handles s)(h \<mapsto> h)\<rparr>)) (\<lambda>s1. Inr (s1, h)))"

text \<open>
  \<open>timer_handles_[handle]\<close> and \<open>poll_handles_[desc]\<close> make a null pointer for a missing key, and the
  member \<open>uv_handle\<close> of that is what libuv gets.
\<close>

definition handle_at :: "('k \<rightharpoonup> nat) \<Rightarrow> 'k \<Rightarrow> ('cb, 'lp) uv_server \<Rightarrow> nat outcome" where
  "handle_at m k s = (case m k of
      None \<Rightarrow> Inl (Undefined ''null handle'')
    | Some h \<Rightarrow> if us_heap s h = None then Inl (Undefined ''dangling handle'') else Inr h)"

definition start_timer ::
  "'lp libuv \<Rightarrow> nat \<Rightarrow> nat \<Rightarrow> 64 word \<Rightarrow> 64 word \<Rightarrow> ('cb, 'lp) uv_server \<Rightarrow> ('cb, 'lp) uv_server outcome" where
  "start_timer L me handle timeout repeat s = check_thread me s
     (bind_outcome (handle_at (us_timer_handles s) handle s) (\<lambda>h.
       check_zero (lu_timer_start L (us_uv_loop s) h timeout repeat) s))"

definition stop_timer ::
  "'lp libuv \<Rightarrow> nat \<Rightarrow> nat \<Rightarrow> ('cb, 'lp) uv_server \<Rightarrow> ('cb, 'lp) uv_server outcome" where
  "stop_timer L me handle s = check_thread me s
     (bind_outcome (handle_at (us_timer_handles s) handle s) (\<lambda>h.
       check_zero (lu_timer_stop L (us_uv_loop s) h) s))"

definition remove_timer ::
  "'lp libuv \<Rightarrow> nat \<Rightarrow> nat \<Rightarrow> ('cb, 'lp) uv_server \<Rightarrow> ('cb, 'lp) uv_server outcome" where
  "remove_timer L me handle s = check_thread me s
     (bind_outcome (handle_at (us_timer_handles s) handle s) (\<lambda>h.
      bind_outcome (check_zero (lu_timer_stop L (us_uv_loop s) h) s) (\<lambda>s1.
      bind_outcome (close_handle L h s1) (\<lambda>s2.
        Inr (s2\<lparr>us_timer_handles := (us_timer_handles s2)(handle := None)\<rparr>)))))"

definition add_poll ::
  "'lp libuv \<Rightarrow> nat \<Rightarrow> int \<Rightarrow> 'cb \<Rightarrow> ('cb, 'lp) uv_server \<Rightarrow> ('cb, 'lp) uv_server outcome" where
  "add_poll L me desc cb s = check_thread me s (let h = us_next s in
     check_zero (lu_poll_init_socket L (us_uv_loop s) h desc)
       (s\<lparr>us_heap := (us_heap s)(h \<mapsto> PollHandle cb), us_next := Suc h,
          us_poll_handles := (us_poll_handles s)(desc \<mapsto> h)\<rparr>))"

definition start_poll ::
  "'lp libuv \<Rightarrow> nat \<Rightarrow> int \<Rightarrow> int \<Rightarrow> ('cb, 'lp) uv_server \<Rightarrow> ('cb, 'lp) uv_server outcome" where
  "start_poll L me desc events s = check_thread me s
     (bind_outcome (handle_at (us_poll_handles s) desc s) (\<lambda>h.
       check_zero (lu_poll_start L (us_uv_loop s) h events) s))"

definition remove_poll ::
  "'lp libuv \<Rightarrow> nat \<Rightarrow> int \<Rightarrow> ('cb, 'lp) uv_server \<Rightarrow> ('cb, 'lp) uv_server outcome" where
  "remove_poll L me desc s = check_thread me s
     (bind_outcome (handle_at (us_poll_handles s) desc s) (\<lambda>h.
      bind_outcome (close_handle L h s) (\<lambda>s1.
        Inr (s1\<lparr>us_poll_handles := (us_poll_handles s1)(desc := None)\<rparr>))))"

definition stop_poll ::
  "'lp libuv \<Rightarrow> nat \<Rightarrow> int \<Rightarrow> ('cb, 'lp) uv_server \<Rightarrow> ('cb, 'lp) uv_server outcome" where
  "stop_poll L me desc s = check_thread me s
     (bind_outcome (handle_at (us_poll_handles s) desc s) (\<lambda>h.
      bind_outcome (check_zero (lu_poll_stop L (us_uv_loop s) h) s) (\<lambda>s1.
      bind_outcome (close_handle L h s1) (\<lambda>s2.
        Inr (s2\<lparr>us_poll_handles := (us_poll_handles s2)(desc := None)\<rparr>)))))"

text \<open>The callbacks libuv runs; they return the closures they call, in order, with their arguments.\<close>

datatype 'cb uv_call = AsyncCall "'cb async_cb" | TimerCall 'cb | PollCall 'cb int "string option"

definition uv_async_cb ::
  "nat \<Rightarrow> nat \<Rightarrow> ('cb, 'lp) uv_server \<Rightarrow> (('cb, 'lp) uv_server \<times> 'cb uv_call list) outcome" where
  "uv_async_cb me h s = (case us_heap s h of
      None \<Rightarrow> Inl (Undefined ''dangling handle'')
    | Some _ \<Rightarrow> check_thread me s
        (Inr (s\<lparr>us_async_queue := []\<rparr>, map AsyncCall (us_async_queue s))))"

definition uv_timer_cb ::
  "nat \<Rightarrow> nat \<Rightarrow> ('cb, 'lp) uv_server \<Rightarrow> (('cb, 'lp) uv_server \<times> 'cb uv_call list) outcome" where
  "uv_timer_cb me h s = (case us_heap s h of
      Some (TimerHandle cb) \<Rightarrow> check_thread me s (Inr (s, [TimerCall cb]))
    | _ \<Rightarrow> Inl (Undefined ''dangling handle''))"

definition uv_poll_cb ::
  "'lp libuv \<Rightarrow> nat \<Rightarrow> nat \<Rightarrow> int \<Rightarrow> int \<Rightarrow> ('cb, 'lp) uv_server \<Rightarrow>
   (('cb, 'lp) uv_server \<times> 'cb uv_call list) outcome" where
  "uv_poll_cb L me h status events s = (case us_heap s h of
      Some (PollHandle cb) \<Rightarrow> check_thread me s (Inr (s,
        [PollCall cb events (if status < 0 then Some (lu_strerror L status) else None)]))
    | _ \<Rightarrow> Inl (Undefined ''dangling handle''))"

definition uv_close_cb :: "nat \<Rightarrow> ('cb, 'lp) uv_server \<Rightarrow> ('cb, 'lp) uv_server outcome" where
  "uv_close_cb h s = (case us_heap s h of
      None \<Rightarrow> Inl (Undefined ''double free'')
    | Some _ \<Rightarrow> Inr (s\<lparr>us_heap := (us_heap s)(h := None)\<rparr>))"

section \<open>The laws of libuv\<close>

text \<open>
  A handle is open from its initialisation until \<open>uv_close\<close>, then closing until the loop runs its
  close callback. \<open>uv_walk\<close> visits every open handle, and may visit closing ones.
\<close>

locale libuv_laws =
  fixes L :: "'lp libuv" and open_h closing :: "'lp \<Rightarrow> nat set"
  assumes apart: "open_h lp \<inter> closing lp = {}"
    and loop_init: "open_h (fst (lu_loop_init L)) = {}" "closing (fst (lu_loop_init L)) = {}"
    and init: "h \<notin> open_h lp \<Longrightarrow> h \<notin> closing lp \<Longrightarrow>
      r = lu_async_init L lp h \<or> r = lu_timer_init L lp h \<or> r = lu_poll_init_socket L lp h desc \<Longrightarrow>
      snd r = 0 \<Longrightarrow> open_h (fst r) = insert h (open_h lp) \<and> closing (fst r) = closing lp"
    and act: "h \<in> open_h lp \<Longrightarrow>
      r = lu_async_send L lp h \<or> r = lu_timer_start L lp h timeout repeat \<or> r = lu_timer_stop L lp h \<or>
      r = lu_poll_start L lp h events \<or> r = lu_poll_stop L lp h \<Longrightarrow>
      open_h (fst r) = open_h lp \<and> closing (fst r) = closing lp"
    and is_closing: "h \<in> open_h lp \<union> closing lp \<Longrightarrow> lu_is_closing L lp h \<longleftrightarrow> h \<in> closing lp"
    and close: "h \<in> open_h lp \<Longrightarrow>
      open_h (lu_close L lp h) = open_h lp - {h} \<and> closing (lu_close L lp h) = insert h (closing lp)"
    and closed: "h \<in> closing lp \<Longrightarrow>
      open_h (lu_closed L lp h) = open_h lp \<and> closing (lu_closed L lp h) = closing lp - {h}"
    and walk: "distinct (lu_walk L lp)" "open_h lp \<subseteq> set (lu_walk L lp)"
      "set (lu_walk L lp) \<subseteq> open_h lp \<union> closing lp"

text \<open>The functions that do not fail on an open handle.\<close>

locale libuv_total = libuv_laws +
  assumes act_ok: "h \<in> open_h lp \<Longrightarrow>
    snd (lu_async_send L lp h) = 0 \<and> snd (lu_timer_start L lp h timeout repeat) = 0 \<and>
    snd (lu_timer_stop L lp h) = 0 \<and> snd (lu_poll_stop L lp h) = 0"

section \<open>Steps and invariant\<close>

definition async_calls :: "'cb uv_call list \<Rightarrow> 'cb async_cb list" where
  "async_calls calls = concat (map (\<lambda>c. case c of AsyncCall cb \<Rightarrow> [cb] | _ \<Rightarrow> []) calls)"

text \<open>
  \<open>loop_op\<close>: an operation of a client, the closure of \<open>stop\<close>, or the loop freeing a closed handle.
\<close>

inductive loop_op ::
  "'lp libuv \<Rightarrow> ('lp \<Rightarrow> nat set) \<Rightarrow> ('cb, 'lp) uv_server \<Rightarrow> ('cb, 'lp) uv_server \<Rightarrow> bool"
  for L closing where
  op_start: "loop_op L closing s (start me s)"
| op_add_timer: "add_timer L me cb s = Inr (t, h) \<Longrightarrow> loop_op L closing s t"
| op_start_timer: "start_timer L me handle timeout repeat s = Inr t \<Longrightarrow> loop_op L closing s t"
| op_stop_timer: "stop_timer L me handle s = Inr t \<Longrightarrow> loop_op L closing s t"
| op_remove_timer: "remove_timer L me handle s = Inr t \<Longrightarrow> loop_op L closing s t"
| op_add_poll: "add_poll L me desc cb s = Inr t \<Longrightarrow> loop_op L closing s t"
| op_start_poll: "start_poll L me desc events s = Inr t \<Longrightarrow> loop_op L closing s t"
| op_stop_poll: "stop_poll L me desc s = Inr t \<Longrightarrow> loop_op L closing s t"
| op_remove_poll: "remove_poll L me desc s = Inr t \<Longrightarrow> loop_op L closing s t"
| op_run_stop: "run_stop L me s = Inr t \<Longrightarrow> loop_op L closing s t"
| op_closed: "h \<in> closing (us_uv_loop s) \<Longrightarrow>
     uv_close_cb h (s\<lparr>us_uv_loop := lu_closed L (us_uv_loop s) h\<rparr>) = Inr t \<Longrightarrow> loop_op L closing s t"

inductive uv_step ::
  "'lp libuv \<Rightarrow> ('lp \<Rightarrow> nat set) \<Rightarrow> ('cb, 'lp) uv_server \<Rightarrow> ('cb, 'lp) uv_server \<Rightarrow>
   'cb async_cb list \<Rightarrow> 'cb async_cb list \<Rightarrow> bool"
  for L closing where
  uv_add: "add_async L cb s = Inr t \<Longrightarrow> uv_step L closing s t [cb] []"
| uv_op: "loop_op L closing s t \<Longrightarrow> uv_step L closing s t [] []"
| uv_drain: "uv_async_cb me h s = Inr (t, calls) \<Longrightarrow> uv_step L closing s t [] (async_calls calls)"

definition uv_inv ::
  "('lp \<Rightarrow> nat set) \<Rightarrow> ('lp \<Rightarrow> nat set) \<Rightarrow> ('cb, 'lp) uv_server \<Rightarrow> bool" where
  "uv_inv open_h closing s \<longleftrightarrow>
     dom (us_heap s) = open_h (us_uv_loop s) \<union> closing (us_uv_loop s) \<and>
     (\<forall>h \<in> dom (us_heap s). h < us_next s) \<and>
     (\<forall>k h. us_timer_handles s k = Some h \<longrightarrow> h = k \<and> h \<in> open_h (us_uv_loop s) \<and>
        (\<exists>cb. us_heap s h = Some (TimerHandle cb))) \<and>
     (\<forall>k h. us_poll_handles s k = Some h \<longrightarrow> h \<in> open_h (us_uv_loop s) \<and>
        (\<exists>cb. us_heap s h = Some (PollHandle cb)) \<and> (\<forall>k'. us_poll_handles s k' = Some h \<longrightarrow> k' = k)) \<and>
     (\<forall>h. us_async_handle s = Some h \<longrightarrow> h \<in> open_h (us_uv_loop s) \<and> us_heap s h = Some AsyncHandle)"

lemma uv_invD:
  assumes "uv_inv open_h closing s"
  shows "dom (us_heap s) = open_h (us_uv_loop s) \<union> closing (us_uv_loop s)"
    "h \<in> dom (us_heap s) \<Longrightarrow> h < us_next s"
    "us_timer_handles s k = Some h \<Longrightarrow> h = k \<and> h \<in> open_h (us_uv_loop s) \<and> (\<exists>cb. us_heap s h = Some (TimerHandle cb))"
    "us_poll_handles s d = Some h \<Longrightarrow> h \<in> open_h (us_uv_loop s) \<and>
      (\<exists>cb. us_heap s h = Some (PollHandle cb)) \<and> (\<forall>d'. us_poll_handles s d' = Some h \<longrightarrow> d' = d)"
    "us_async_handle s = Some h \<Longrightarrow> h \<in> open_h (us_uv_loop s) \<and> us_heap s h = Some AsyncHandle"
  using assms unfolding uv_inv_def by blast+

lemma check_zero_Inr: "check_zero r s = Inr t \<longleftrightarrow> snd r = 0 \<and> t = s\<lparr>us_uv_loop := fst r\<rparr>"
  by (auto simp: check_zero_def)

lemma check_thread_Inr: "check_thread me s r = Inr t \<longleftrightarrow> me = us_thread_id s \<and> r = Inr t"
  by (auto simp: check_thread_def)

lemma handle_at_Inr: "handle_at m k s = Inr h \<longleftrightarrow> m k = Some h \<and> h \<in> dom (us_heap s)"
  by (auto simp: handle_at_def split: option.splits)

lemma close_handle_Inr: "close_handle L h s = Inr t \<longleftrightarrow>
  \<not> lu_is_closing L (us_uv_loop s) h \<and> t = s\<lparr>us_uv_loop := lu_close L (us_uv_loop s) h\<rparr>"
  by (auto simp: close_handle_def)

lemmas uv_simps = check_zero_Inr check_thread_Inr handle_at_Inr close_handle_Inr bind_outcome_Inr_iff

text \<open>The queue and the batch of closures.\<close>

lemma async_calls_map [simp]: "async_calls (map AsyncCall cbs) = cbs"
  by (induction cbs) (simp_all add: async_calls_def)

lemma add_async_queue: "add_async L cb s = Inr t \<Longrightarrow> us_async_queue t = us_async_queue s @ [cb]"
  by (auto simp: add_async_def new_async_handle_def uv_simps Let_def split: option.splits)

lemma close_all_frame:
  "fold_outcome (close_handle L) hs s = Inr t \<Longrightarrow> t = s\<lparr>us_uv_loop := us_uv_loop t\<rparr>"
proof (induction hs arbitrary: s)
  case (Cons h hs)
  then obtain u where u: "u = s\<lparr>us_uv_loop := lu_close L (us_uv_loop s) h\<rparr>"
    "fold_outcome (close_handle L) hs u = Inr t" by (auto simp: uv_simps)
  from Cons.IH [OF u(2)] show ?case unfolding u(1) by simp
qed simp

lemma loop_op_queue: "loop_op L closing s t \<Longrightarrow> us_async_queue t = us_async_queue s"
proof (induction rule: loop_op.induct)
  case (op_run_stop me s t)
  then obtain u where u: "fold_outcome (close_handle L) (lu_walk L (us_uv_loop s)) s = Inr u"
    "us_async_queue t = us_async_queue u" by (auto simp: run_stop_def uv_simps)
  from close_all_frame [OF u(1)] have "us_async_queue u = us_async_queue s"
    by (metis uv_server.select_convs(2) uv_server.surjective uv_server.update_convs(5))
  with u(2) show ?case by simp
next
  case (op_closed h s t)
  then show ?case by (auto simp: uv_close_cb_def split: option.splits)
qed (auto simp: start_def add_timer_def start_timer_def stop_timer_def remove_timer_def add_poll_def
    start_poll_def stop_poll_def remove_poll_def uv_simps Let_def)

lemma drain_queue:
  "uv_async_cb me h s = Inr (t, calls) \<Longrightarrow> t = s\<lparr>us_async_queue := []\<rparr> \<and> async_calls calls = us_async_queue s"
  by (auto simp: uv_async_cb_def uv_simps split: option.splits)

context libuv_laws
begin

lemma uv_inv_fresh:
  assumes "uv_inv open_h closing s"
  shows "us_next s \<notin> open_h (us_uv_loop s)" "us_next s \<notin> closing (us_uv_loop s)"
    "us_heap s (us_next s) = None"
  using uv_invD(1) [OF assms] uv_invD(2) [OF assms, of "us_next s"] by auto

lemma inv_loop:
  assumes "uv_inv open_h closing s" and "open_h lp = open_h (us_uv_loop s)" "closing lp = closing (us_uv_loop s)"
  shows "uv_inv open_h closing (s\<lparr>us_uv_loop := lp\<rparr>)"
  using assms by (simp add: uv_inv_def)

lemma inv_act:
  assumes "uv_inv open_h closing s" and "h \<in> open_h (us_uv_loop s)"
    and "r = lu_async_send L (us_uv_loop s) h \<or> r = lu_timer_start L (us_uv_loop s) h timeout repeat \<or>
      r = lu_timer_stop L (us_uv_loop s) h \<or> r = lu_poll_start L (us_uv_loop s) h events \<or>
      r = lu_poll_stop L (us_uv_loop s) h"
  shows "uv_inv open_h closing (s\<lparr>us_uv_loop := fst r\<rparr>)"
  using inv_loop [OF assms(1)] act [OF assms(2,3)] by blast

text \<open>A new handle, in one of the tables.\<close>

lemma inv_newI:
  assumes inv: "uv_inv open_h closing s"
    and r: "r = lu_async_init L (us_uv_loop s) (us_next s) \<or> r = lu_timer_init L (us_uv_loop s) (us_next s) \<or>
      r = lu_poll_init_socket L (us_uv_loop s) (us_next s) desc" "snd r = 0"
    and t: "us_heap t = (us_heap s)(us_next s \<mapsto> x)" "us_next t = Suc (us_next s)" "us_uv_loop t = fst r"
    and timers: "\<And>k h. us_timer_handles t k = Some h \<Longrightarrow>
      us_timer_handles s k = Some h \<or> k = us_next s \<and> h = us_next s \<and> (\<exists>cb. x = TimerHandle cb)"
    and polls: "\<And>k h. us_poll_handles t k = Some h \<Longrightarrow>
      us_poll_handles s k = Some h \<or> k = d \<and> h = us_next s \<and> (\<exists>cb. x = PollHandle cb)"
    and async: "\<And>h. us_async_handle t = Some h \<Longrightarrow>
      us_async_handle s = Some h \<or> h = us_next s \<and> x = AsyncHandle"
  shows "uv_inv open_h closing t"
proof -
  note D = uv_invD [OF inv] and fresh = uv_inv_fresh [OF inv]
  have lp: "open_h (us_uv_loop t) = insert (us_next s) (open_h (us_uv_loop s))"
    "closing (us_uv_loop t) = closing (us_uv_loop s)"
    using init [OF fresh(1,2) r] t(3) by simp_all
  have old: "us_heap t h = us_heap s h \<and> h \<in> open_h (us_uv_loop t)" if "h \<in> open_h (us_uv_loop s)" for h
    using that fresh(1) by (auto simp: t(1) lp)
  have new: "us_heap t (us_next s) = Some x" "us_next s \<in> open_h (us_uv_loop t)" by (simp_all add: t(1) lp)
  have "dom (us_heap t) = open_h (us_uv_loop t) \<union> closing (us_uv_loop t)" using D(1) by (auto simp: t(1) lp)
  moreover have "\<forall>h \<in> dom (us_heap t). h < us_next t" using D(2) by (auto simp: t(1,2) intro: less_SucI)
  moreover have "h = k \<and> h \<in> open_h (us_uv_loop t) \<and> (\<exists>cb. us_heap t h = Some (TimerHandle cb))"
    if "us_timer_handles t k = Some h" for k h
    using timers [OF that] D(3) [of k h] old [of h] new by auto
  moreover have "h \<in> open_h (us_uv_loop t) \<and> (\<exists>cb. us_heap t h = Some (PollHandle cb))"
    if "us_poll_handles t k = Some h" for k h
    using polls [OF that] D(4) [of k h] old [of h] new by auto
  moreover have "k' = k" if "us_poll_handles t k = Some h" "us_poll_handles t k' = Some h" for k k' h
    using polls [OF that(1)] polls [OF that(2)] D(4) [of k h] D(4) [of k' h] fresh(1) by auto
  moreover have "h \<in> open_h (us_uv_loop t) \<and> us_heap t h = Some AsyncHandle" if "us_async_handle t = Some h" for h
    using async [OF that] D(5) [of h] old [of h] new by auto
  ultimately show ?thesis unfolding uv_inv_def by blast
qed

lemma inv_closeI:
  assumes inv: "uv_inv open_h closing s"
    and lp: "open_h lp = open_h (us_uv_loop s)" "closing lp = closing (us_uv_loop s)" "h \<in> open_h (us_uv_loop s)"
    and t: "us_heap t = us_heap s" "us_next t = us_next s" "us_uv_loop t = lu_close L lp h"
    and timers: "\<And>k k'. us_timer_handles t k = Some k' \<Longrightarrow> us_timer_handles s k = Some k' \<and> k' \<noteq> h"
    and polls: "\<And>k k'. us_poll_handles t k = Some k' \<Longrightarrow> us_poll_handles s k = Some k' \<and> k' \<noteq> h"
    and async: "\<And>k'. us_async_handle t = Some k' \<Longrightarrow> us_async_handle s = Some k' \<and> k' \<noteq> h"
  shows "uv_inv open_h closing t"
proof -
  note D = uv_invD [OF inv]
  have c: "open_h (us_uv_loop t) = open_h (us_uv_loop s) - {h}"
    "closing (us_uv_loop t) = insert h (closing (us_uv_loop s))"
    using close [of h lp] lp t(3) by simp_all
  have "dom (us_heap t) = open_h (us_uv_loop t) \<union> closing (us_uv_loop t)"
    using D(1) lp(3) by (auto simp: t(1) c)
  moreover have "\<forall>k \<in> dom (us_heap t). k < us_next t" using D(2) by (simp add: t(1,2))
  moreover have "k' = k \<and> k' \<in> open_h (us_uv_loop t) \<and> (\<exists>cb. us_heap t k' = Some (TimerHandle cb))"
    if "us_timer_handles t k = Some k'" for k k'
    using timers [OF that] D(3) [of k k'] by (auto simp: c t(1))
  moreover have "k' \<in> open_h (us_uv_loop t) \<and> (\<exists>cb. us_heap t k' = Some (PollHandle cb))"
    if "us_poll_handles t k = Some k'" for k k'
    using polls [OF that] D(4) [of k k'] by (simp add: c t(1))
  moreover have "i = k" if "us_poll_handles t k = Some k'" "us_poll_handles t i = Some k'" for k i k'
    using polls [OF that(1)] polls [OF that(2)] D(4) [of k k'] by blast
  moreover have "k' \<in> open_h (us_uv_loop t) \<and> us_heap t k' = Some AsyncHandle" if "us_async_handle t = Some k'" for k'
    using async [OF that] D(5) [of k'] by (simp add: c t(1))
  ultimately show ?thesis unfolding uv_inv_def by blast
qed

lemma inv_add_async:
  assumes inv: "uv_inv open_h closing s" and add: "add_async L cb s = Inr t"
  shows "uv_inv open_h closing t"
proof -
  obtain u where u: "(case us_async_handle s of None \<Rightarrow> new_async_handle L s | Some h \<Rightarrow> Inr s) = Inr u"
    and t: "(let s2 = u\<lparr>us_async_queue := us_async_queue u @ [cb]\<rparr> in
       case us_async_handle s2 of
         None \<Rightarrow> Inl (Undefined ''null async handle'')
       | Some h \<Rightarrow> check_zero (lu_async_send L (us_uv_loop s2) h) s2) = Inr t"
    using add unfolding add_async_def bind_outcome_Inr_iff by blast
  have iu: "uv_inv open_h closing u"
  proof (cases "us_async_handle s")
    case None
    let ?r = "lu_async_init L (us_uv_loop s) (us_next s)"
    from None u have r: "snd ?r = 0" and u': "u = s\<lparr>us_async_handle := Some (us_next s),
        us_heap := (us_heap s)(us_next s \<mapsto> AsyncHandle), us_next := Suc (us_next s), us_uv_loop := fst ?r\<rparr>"
      by (auto simp: new_async_handle_def uv_simps Let_def)
    show ?thesis by (rule inv_newI [OF inv _ r, where x = AsyncHandle]) (simp_all add: u')
  qed (use u inv in simp)
  from t obtain h where h: "us_async_handle u = Some h"
    "t = u\<lparr>us_async_queue := us_async_queue u @ [cb], us_uv_loop := fst (lu_async_send L (us_uv_loop u) h)\<rparr>"
    by (auto simp: uv_simps Let_def split: option.splits)
  have "h \<in> open_h (us_uv_loop u)" using uv_invD(5) [OF iu h(1)] by blast
  from inv_act [OF iu this, of "lu_async_send L (us_uv_loop u) h"] show ?thesis
    by (simp add: h(2) uv_inv_def)
qed

text \<open>Which handle an id or a descriptor stands for.\<close>

lemma timer_owned:
  assumes "uv_inv open_h closing s" and "us_timer_handles s k = Some h"
  shows "h = k" "h \<in> open_h (us_uv_loop s)" "h \<in> dom (us_heap s)"
    "us_poll_handles s d \<noteq> Some h" "us_async_handle s \<noteq> Some h"
  using uv_invD(3) [OF assms] uv_invD(4) [OF assms(1), of d h] uv_invD(5) [OF assms(1), of h] by auto

lemma poll_owned:
  assumes "uv_inv open_h closing s" and "us_poll_handles s d = Some h"
  shows "h \<in> open_h (us_uv_loop s)" "h \<in> dom (us_heap s)"
    "us_timer_handles s k \<noteq> Some h" "us_async_handle s \<noteq> Some h" "us_poll_handles s d' = Some h \<Longrightarrow> d' = d"
  using uv_invD(4) [OF assms] uv_invD(3) [OF assms(1), of k h] uv_invD(5) [OF assms(1), of h] by auto

lemma inv_remove_poll:
  assumes inv: "uv_inv open_h closing s" and p: "us_poll_handles s desc = Some h"
    and lp: "open_h lp = open_h (us_uv_loop s)" "closing lp = closing (us_uv_loop s)"
    and t: "t = s\<lparr>us_uv_loop := lu_close L lp h, us_poll_handles := (us_poll_handles s)(desc := None)\<rparr>"
  shows "uv_inv open_h closing t"
proof (rule inv_closeI [OF inv lp])
  note o = poll_owned [OF inv p]
  show "h \<in> open_h (us_uv_loop s)" by (rule o(1))
  fix k k' assume "us_poll_handles t k = Some k'"
  then have "us_poll_handles s k = Some k'" "k \<noteq> desc" by (auto simp: t split: if_splits)
  with o(5) [of k] show "us_poll_handles s k = Some k' \<and> k' \<noteq> h" by auto
qed (use poll_owned(3,4) [OF inv p] in \<open>auto simp: t\<close>)

lemma inv_remove_timer:
  assumes inv: "uv_inv open_h closing s" and p: "us_timer_handles s handle = Some h"
    and lp: "open_h lp = open_h (us_uv_loop s)" "closing lp = closing (us_uv_loop s)"
    and t: "t = s\<lparr>us_uv_loop := lu_close L lp h, us_timer_handles := (us_timer_handles s)(handle := None)\<rparr>"
  shows "uv_inv open_h closing t"
proof (rule inv_closeI [OF inv lp])
  note o = timer_owned [OF inv p]
  show "h \<in> open_h (us_uv_loop s)" by (rule o(2))
  fix k k' assume "us_timer_handles t k = Some k'"
  then have "us_timer_handles s k = Some k'" "k \<noteq> handle" by (auto simp: t split: if_splits)
  with o(1) timer_owned(1) [OF inv, of k k'] show "us_timer_handles s k = Some k' \<and> k' \<noteq> h" by auto
qed (use timer_owned(4,5) [OF inv p] in \<open>auto simp: t\<close>)

text \<open>Closing a list of open handles.\<close>

lemma close_all:
  "fold_outcome (close_handle L) hs s = Inr t \<Longrightarrow> distinct hs \<Longrightarrow>
   set hs \<subseteq> open_h (us_uv_loop s) \<union> closing (us_uv_loop s) \<Longrightarrow>
   set hs \<subseteq> open_h (us_uv_loop s) \<and> open_h (us_uv_loop t) = open_h (us_uv_loop s) - set hs \<and>
   closing (us_uv_loop t) = closing (us_uv_loop s) \<union> set hs"
proof (induction hs arbitrary: s)
  case (Cons h hs)
  let ?u = "s\<lparr>us_uv_loop := lu_close L (us_uv_loop s) h\<rparr>"
  from Cons.prems(1) have u: "\<not> lu_is_closing L (us_uv_loop s) h" "fold_outcome (close_handle L) hs ?u = Inr t"
    by (auto simp: uv_simps)
  have h: "h \<in> open_h (us_uv_loop s)" using u(1) is_closing [of h "us_uv_loop s"] Cons.prems(3) by auto
  note c = close [OF h]
  have "set hs \<subseteq> open_h (us_uv_loop ?u) \<union> closing (us_uv_loop ?u)" using Cons.prems(3) c by auto
  moreover have "distinct hs" "h \<notin> set hs" using Cons.prems(2) by auto
  ultimately have "set hs \<subseteq> open_h (us_uv_loop s) - {h} \<and>
      open_h (us_uv_loop t) = open_h (us_uv_loop s) - {h} - set hs \<and>
      closing (us_uv_loop t) = insert h (closing (us_uv_loop s)) \<union> set hs"
    using Cons.IH [OF u(2)] c by simp
  with h show ?case by auto
qed simp

lemma close_all_total:
  "distinct hs \<Longrightarrow> set hs \<subseteq> open_h (us_uv_loop s) \<Longrightarrow> \<exists>t. fold_outcome (close_handle L) hs s = Inr t"
proof (induction hs arbitrary: s)
  case (Cons h hs)
  let ?u = "s\<lparr>us_uv_loop := lu_close L (us_uv_loop s) h\<rparr>"
  have h: "h \<in> open_h (us_uv_loop s)" "h \<notin> closing (us_uv_loop s)"
    using Cons.prems(2) apart [of "us_uv_loop s"] by auto
  then have "\<not> lu_is_closing L (us_uv_loop s) h" using is_closing by blast
  moreover have "set hs \<subseteq> open_h (us_uv_loop ?u)" using Cons.prems close [OF h(1)] by auto
  moreover have "distinct hs" using Cons.prems(1) by simp
  ultimately show ?case using Cons.IH [of ?u] by (simp add: close_handle_def)
qed simp

lemma run_stop_effect:
  assumes inv: "uv_inv open_h closing s" and run: "run_stop L me s = Inr t"
  shows "uv_inv open_h closing t" "open_h (us_uv_loop t) = {}"
    "closing (us_uv_loop t) = open_h (us_uv_loop s) \<union> closing (us_uv_loop s)"
    "us_heap t = us_heap s" "us_async_queue t = us_async_queue s" "us_async_handle t = None"
    "us_timer_handles t = Map.empty" "us_poll_handles t = Map.empty"
proof -
  from run obtain u where u: "fold_outcome (close_handle L) (lu_walk L (us_uv_loop s)) s = Inr u"
    and t: "t = u\<lparr>us_timer_handles := Map.empty, us_poll_handles := Map.empty, us_async_handle := None\<rparr>"
    by (auto simp: run_stop_def uv_simps)
  define lp where "lp = us_uv_loop u"
  from close_all_frame [OF u] have us: "u = s\<lparr>us_uv_loop := lp\<rparr>" by (simp only: lp_def)
  note c = close_all [OF u walk(1,3)]
  then have lps: "open_h lp = {}" "closing lp = open_h (us_uv_loop s) \<union> closing (us_uv_loop s)"
    using walk(2) [of "us_uv_loop s"] by (auto simp: lp_def)
  show "open_h (us_uv_loop t) = {}" "closing (us_uv_loop t) = open_h (us_uv_loop s) \<union> closing (us_uv_loop s)"
    "us_heap t = us_heap s" "us_async_queue t = us_async_queue s" "us_async_handle t = None"
    "us_timer_handles t = Map.empty" "us_poll_handles t = Map.empty"
    using lps by (simp_all add: t us)
  show "uv_inv open_h closing t"
    using uv_invD(1,2) [OF inv] lps by (auto simp: uv_inv_def t us)
qed

lemma inv_loop_op:
  assumes "loop_op L closing s t" and inv: "uv_inv open_h closing s"
  shows "uv_inv open_h closing t"
  using assms(1)
proof cases
  case (op_start me)
  with inv show ?thesis by (simp add: start_def uv_inv_def)
next
  case (op_add_timer me cb h)
  let ?r = "lu_timer_init L (us_uv_loop s) (us_next s)"
  from op_add_timer have r: "snd ?r = 0" and t: "t = s\<lparr>us_heap := (us_heap s)(us_next s \<mapsto> TimerHandle cb),
      us_next := Suc (us_next s), us_timer_handles := (us_timer_handles s)(us_next s \<mapsto> us_next s), us_uv_loop := fst ?r\<rparr>"
    by (auto simp: add_timer_def uv_simps Let_def)
  show ?thesis
    by (rule inv_newI [OF inv _ r, where x = "TimerHandle cb"]) (simp_all add: t split: if_splits)
next
  case (op_start_timer me handle timeout repeat)
  then obtain h where h: "us_timer_handles s handle = Some h"
    "t = s\<lparr>us_uv_loop := fst (lu_timer_start L (us_uv_loop s) h timeout repeat)\<rparr>"
    by (auto simp: start_timer_def uv_simps)
  show ?thesis unfolding h(2) by (rule inv_act [OF inv timer_owned(2) [OF inv h(1)]]) blast
next
  case (op_stop_timer me handle)
  then obtain h where h: "us_timer_handles s handle = Some h" "t = s\<lparr>us_uv_loop := fst (lu_timer_stop L (us_uv_loop s) h)\<rparr>"
    by (auto simp: stop_timer_def uv_simps)
  show ?thesis unfolding h(2) by (rule inv_act [OF inv timer_owned(2) [OF inv h(1)]]) blast
next
  case (op_remove_timer me handle)
  then obtain h where h: "us_timer_handles s handle = Some h"
    "t = s\<lparr>us_uv_loop := lu_close L (fst (lu_timer_stop L (us_uv_loop s) h)) h,
      us_timer_handles := (us_timer_handles s)(handle := None)\<rparr>"
    by (auto simp: remove_timer_def uv_simps)
  note a = act [OF timer_owned(2) [OF inv h(1)], of "lu_timer_stop L (us_uv_loop s) h"]
  show ?thesis by (rule inv_remove_timer [OF inv h(1) _ _ h(2)]) (use a in blast)+
next
  case (op_add_poll me desc cb)
  let ?r = "lu_poll_init_socket L (us_uv_loop s) (us_next s) desc"
  from op_add_poll have r: "snd ?r = 0" and t: "t = s\<lparr>us_heap := (us_heap s)(us_next s \<mapsto> PollHandle cb),
      us_next := Suc (us_next s), us_poll_handles := (us_poll_handles s)(desc \<mapsto> us_next s), us_uv_loop := fst ?r\<rparr>"
    by (auto simp: add_poll_def uv_simps Let_def)
  show ?thesis
    by (rule inv_newI [OF inv _ r, where x = "PollHandle cb" and d = desc and desc = desc])
      (simp_all add: t split: if_splits)
next
  case (op_start_poll me desc events)
  then obtain h where h: "us_poll_handles s desc = Some h" "t = s\<lparr>us_uv_loop := fst (lu_poll_start L (us_uv_loop s) h events)\<rparr>"
    by (auto simp: start_poll_def uv_simps)
  show ?thesis unfolding h(2) by (rule inv_act [OF inv poll_owned(1) [OF inv h(1)]]) blast
next
  case (op_stop_poll me desc)
  then obtain h where h: "us_poll_handles s desc = Some h"
    "t = s\<lparr>us_uv_loop := lu_close L (fst (lu_poll_stop L (us_uv_loop s) h)) h,
      us_poll_handles := (us_poll_handles s)(desc := None)\<rparr>"
    by (auto simp: stop_poll_def uv_simps)
  note a = act [OF poll_owned(1) [OF inv h(1)], of "lu_poll_stop L (us_uv_loop s) h"]
  show ?thesis by (rule inv_remove_poll [OF inv h(1) _ _ h(2)]) (use a in blast)+
next
  case (op_remove_poll me desc)
  then obtain h where h: "us_poll_handles s desc = Some h"
    "t = s\<lparr>us_uv_loop := lu_close L (us_uv_loop s) h, us_poll_handles := (us_poll_handles s)(desc := None)\<rparr>"
    by (auto simp: remove_poll_def uv_simps)
  show ?thesis by (rule inv_remove_poll [OF inv h(1) refl refl h(2)])
next
  case (op_run_stop me)
  then show ?thesis using run_stop_effect(1) [OF inv] by blast
next
  case (op_closed h)
  let ?lp = "lu_closed L (us_uv_loop s) h"
  from op_closed(2) have t: "t = s\<lparr>us_uv_loop := ?lp, us_heap := (us_heap s)(h := None)\<rparr>"
    by (auto simp: uv_close_cb_def split: option.splits)
  have c: "open_h ?lp = open_h (us_uv_loop s)" "closing ?lp = closing (us_uv_loop s) - {h}"
    using closed [OF op_closed(1)] by auto
  have h: "h \<notin> open_h (us_uv_loop s)" using apart [of "us_uv_loop s"] op_closed(1) by auto
  have ne: "k \<noteq> h" if "k \<in> open_h (us_uv_loop s)" for k using that h by auto
  have "dom (us_heap t) = open_h ?lp \<union> closing ?lp" using uv_invD(1) [OF inv] h by (auto simp: t c)
  moreover have "\<forall>k \<in> dom (us_heap t). k < us_next t" using uv_invD(2) [OF inv] by (auto simp: t)
  ultimately show ?thesis
    using inv ne unfolding uv_inv_def by (simp add: t c)
qed

lemma uv_step_ok:
  assumes "uv_step L closing s t reg called" and "uv_inv open_h closing s"
  shows "uv_inv open_h closing t \<and> called @ us_async_queue t = us_async_queue s @ reg"
  using assms(1)
proof cases
  case (uv_add cb)
  then show ?thesis using inv_add_async [OF assms(2)] add_async_queue by auto
next
  case uv_op
  then show ?thesis using inv_loop_op [OF _ assms(2)] loop_op_queue by auto
next
  case (uv_drain me h calls)
  with drain_queue [OF uv_drain(3)] assms(2) show ?thesis by (simp add: uv_inv_def)
qed

end

sublocale libuv_laws < uv_queue: fifo_service "uv_step L closing" "uv_inv open_h closing" us_async_queue
  using uv_step_ok by unfold_locales blast+

text \<open>The loop runs the close callback of every closing handle.\<close>

definition finish :: "'lp libuv \<Rightarrow> nat \<Rightarrow> ('cb, 'lp) uv_server \<Rightarrow> ('cb, 'lp) uv_server outcome" where
  "finish L h s = uv_close_cb h (s\<lparr>us_uv_loop := lu_closed L (us_uv_loop s) h\<rparr>)"

context libuv_laws
begin

lemma init_inv:
  assumes "EventServer L me = Inr s"
  shows "uv_inv open_h closing s" "us_async_queue s = []" "closing (us_uv_loop s) = {}"
    "us_async_handle s \<noteq> None"
proof -
  let ?lp = "fst (lu_loop_init L)"
  let ?r = "lu_async_init L ?lp 1"
  from assms have r: "snd ?r = 0" and s: "s = \<lparr>us_thread_id = me, us_async_queue = [], us_timer_handles = Map.empty,
      us_poll_handles = Map.empty, us_uv_loop = fst ?r, us_async_handle = Some 1,
      us_heap = [1 \<mapsto> AsyncHandle], us_next = 2\<rparr>"
    by (auto simp: EventServer_def new_async_handle_def uv_simps Let_def split: if_splits)
  have lp: "open_h (fst ?r) = {1}" "closing (fst ?r) = {}"
    using init [of 1 ?lp ?r] r loop_init by auto
  show "uv_inv open_h closing s" using lp by (simp add: uv_inv_def s)
  show "us_async_queue s = []" "closing (us_uv_loop s) = {}" "us_async_handle s \<noteq> None"
    using lp by (simp_all add: s)
qed

lemma reach_fifo:
  assumes "run_of (uv_step L closing) s t reg called" and "uv_inv open_h closing s"
  shows "called @ us_async_queue t = us_async_queue s @ reg"
  by (rule uv_queue.run_fifo [OF assms])

lemma reach: "EventServer L me = Inr s \<Longrightarrow> run_of (uv_step L closing) s t reg called \<Longrightarrow> uv_inv open_h closing t"
  using uv_queue.run_inv init_inv(1) by blast

lemma finish_all:
  "uv_inv open_h closing s \<Longrightarrow> distinct hs \<Longrightarrow> set hs \<subseteq> closing (us_uv_loop s) \<Longrightarrow>
   \<exists>t. fold_outcome (finish L) hs s = Inr t \<and> uv_inv open_h closing t \<and>
     dom (us_heap t) = dom (us_heap s) - set hs \<and> open_h (us_uv_loop t) = open_h (us_uv_loop s)"
proof (induction hs arbitrary: s)
  case (Cons h hs)
  let ?u = "s\<lparr>us_uv_loop := lu_closed L (us_uv_loop s) h, us_heap := (us_heap s)(h := None)\<rparr>"
  have h: "h \<in> closing (us_uv_loop s)" using Cons.prems(3) by simp
  then have "us_heap s h \<noteq> None" using uv_invD(1) [OF Cons.prems(1)] by blast
  then have u: "finish L h s = Inr ?u" by (auto simp: finish_def uv_close_cb_def)
  then have "loop_op L closing s ?u"
    using op_closed [where closing = closing and L = L and s = s and h = h and t = ?u] h
    by (simp add: finish_def)
  from inv_loop_op [OF this Cons.prems(1)] have iu: "uv_inv open_h closing ?u" .
  have "set hs \<subseteq> closing (us_uv_loop ?u)" "distinct hs"
    using Cons.prems(2,3) closed [OF h] by auto
  from Cons.IH [OF iu this(2,1)] obtain t where t: "fold_outcome (finish L) hs ?u = Inr t"
    "uv_inv open_h closing t" "dom (us_heap t) = dom (us_heap ?u) - set hs"
    "open_h (us_uv_loop t) = open_h (us_uv_loop ?u)" by blast
  have "dom (us_heap ?u) - set hs = dom (us_heap s) - set (h # hs)" by (auto split: if_splits)
  with t u closed [OF h] show ?case by simp
qed simp

end

section \<open>A concrete library\<close>

record luv =
  lv_open :: "nat list"
  lv_closing :: "nat list"

definition lv_open_h :: "luv \<Rightarrow> nat set" where
  "lv_open_h lp = set (lv_open lp) - set (lv_closing lp)"

definition lv_closing_h :: "luv \<Rightarrow> nat set" where
  "lv_closing_h lp = set (lv_closing lp)"

definition lv :: "luv libuv" where
  "lv = \<lparr>lu_loop_init = (\<lparr>lv_open = [], lv_closing = []\<rparr>, 0),
     lu_loop_close = (\<lambda>lp. (lp, if lv_open lp = [] then 0 else -16)),
     lu_async_init = (\<lambda>lp h. (lp\<lparr>lv_open := h # lv_open lp\<rparr>, 0)),
     lu_async_send = (\<lambda>lp h. (lp, 0)),
     lu_timer_init = (\<lambda>lp h. (lp\<lparr>lv_open := h # lv_open lp\<rparr>, 0)),
     lu_timer_start = (\<lambda>lp h t r. (lp, 0)), lu_timer_stop = (\<lambda>lp h. (lp, 0)),
     lu_poll_init_socket = (\<lambda>lp h fd. (lp\<lparr>lv_open := h # lv_open lp\<rparr>, 0)),
     lu_poll_start = (\<lambda>lp h e. (lp, 0)), lu_poll_stop = (\<lambda>lp h. (lp, 0)),
     lu_is_closing = (\<lambda>lp h. h \<in> set (lv_closing lp)),
     lu_close = (\<lambda>lp h. lp\<lparr>lv_closing := h # lv_closing lp\<rparr>),
     lu_closed = (\<lambda>lp h. lp\<lparr>lv_open := List.removeAll h (lv_open lp), lv_closing := List.removeAll h (lv_closing lp)\<rparr>),
     lu_walk = (\<lambda>lp. remdups (lv_open lp)), lu_strerror = (\<lambda>_. ''error'')\<rparr>"

interpretation lv: libuv_total lv lv_open_h lv_closing_h
  by unfold_locales (auto simp: lv_def lv_open_h_def lv_closing_h_def)

definition uv1 :: "(nat, luv) uv_server" where
  "uv1 = \<lparr>us_thread_id = 3, us_async_queue = [AsyncCb 7], us_timer_handles = [2 \<mapsto> 2],
     us_poll_handles = [9 \<mapsto> 4], us_uv_loop = \<lparr>lv_open = [4, 3, 2, 1], lv_closing = []\<rparr>,
     us_async_handle = Some 1,
     us_heap = [1 \<mapsto> AsyncHandle, 2 \<mapsto> TimerHandle 5, 3 \<mapsto> PollHandle 5, 4 \<mapsto> PollHandle 6], us_next = 5\<rparr>"

definition uv0 :: "(nat, luv) uv_server" where
  "uv0 = \<lparr>us_thread_id = 3, us_async_queue = [], us_timer_handles = Map.empty,
     us_poll_handles = Map.empty, us_uv_loop = \<lparr>lv_open = [1], lv_closing = []\<rparr>,
     us_async_handle = Some 1, us_heap = [1 \<mapsto> AsyncHandle], us_next = 2\<rparr>"

lemma uv0: "EventServer lv 3 = Inr uv0"
  by (simp add: EventServer_def new_async_handle_def check_zero_def lv_def uv0_def Let_def)

text \<open>A queued closure, a timer, and two polls of the same descriptor.\<close>

lemma run_uv1: "run_of (uv_step lv lv_closing_h) uv0 uv1 [AsyncCb 7] []"
proof -
  let ?s1 = "uv0\<lparr>us_async_queue := [AsyncCb 7]\<rparr>"
  let ?s2 = "?s1\<lparr>us_heap := (us_heap ?s1)(2 \<mapsto> TimerHandle 5), us_next := 3, us_timer_handles := [2 \<mapsto> 2],
    us_uv_loop := \<lparr>lv_open = [2, 1], lv_closing = []\<rparr>\<rparr>"
  let ?s3 = "?s2\<lparr>us_heap := (us_heap ?s2)(3 \<mapsto> PollHandle 5), us_next := 4, us_poll_handles := [9 \<mapsto> 3],
    us_uv_loop := \<lparr>lv_open = [3, 2, 1], lv_closing = []\<rparr>\<rparr>"
  have "add_async lv (AsyncCb 7) uv0 = Inr ?s1"
    by (simp add: add_async_def uv0_def lv_def check_zero_def)
  then have r1: "uv_step lv lv_closing_h uv0 ?s1 [AsyncCb 7] []" by (rule uv_add)
  have "add_timer lv 3 5 ?s1 = Inr (?s2, 2)"
    by (simp add: add_timer_def check_thread_def uv0_def lv_def check_zero_def Let_def)
  then have r2: "uv_step lv lv_closing_h ?s1 ?s2 [] []" by (intro uv_op op_add_timer)
  have "add_poll lv 3 9 5 ?s2 = Inr ?s3"
    by (simp add: add_poll_def check_thread_def uv0_def lv_def check_zero_def Let_def)
  then have r3: "uv_step lv lv_closing_h ?s2 ?s3 [] []" by (intro uv_op op_add_poll)
  have "add_poll lv 3 9 6 ?s3 = Inr uv1"
    by (simp add: add_poll_def check_thread_def uv0_def uv1_def lv_def check_zero_def Let_def)
  then have r4: "uv_step lv lv_closing_h ?s3 uv1 [] []" by (intro uv_op op_add_poll)
  note run_of.run_step [where step = "uv_step lv lv_closing_h", OF run_of.run_step
    [where step = "uv_step lv lv_closing_h", OF run_of.run_step
    [where step = "uv_step lv lv_closing_h", OF run_of.run_step
    [where step = "uv_step lv lv_closing_h", OF run_refl r1] r2] r3] r4]
  then show ?thesis by simp
qed

section \<open>Properties\<close>

text \<open>C34: The queue of the libuv server is first in, first out and loses nothing: the closures run,
  followed by those still queued, are those passed to \<open>add_async\<close> and \<open>stop\<close>, in that order,
  whatever timers and polls do in between and whether or not the server has been stopped.\<close>

theorem uv_async_fifo:
  assumes "libuv_laws L open_h closing" and "EventServer L me = Inr s0"
    and "run_of (uv_step L closing) s0 s reg called"
  shows "called @ us_async_queue s = reg"
  using libuv_laws.reach_fifo [OF assms(1,3)] libuv_laws.init_inv(1,2) [OF assms(1,2)] by simp

theorem uv_async_fifo_witness: "[] @ us_async_queue uv1 = [AsyncCb 7]"
  by (rule uv_async_fifo [OF lv.libuv_laws_axioms uv0 run_uv1])



text \<open>C36: When no handle is being closed, the closure of \<open>stop\<close> closes every handle there is, also one
  that \<open>add_poll\<close> lost by adding its descriptor twice, and empties the tables; once the loop has run
  the close callbacks, in any order, each object is freed exactly once and none is left. Closures
  queued meanwhile stay queued, with no handle left that would wake the loop for them.\<close>

theorem uv_stop_frees_all:
  assumes "libuv_laws L open_h closing" and "EventServer L me0 = Inr s0"
    and "run_of (uv_step L closing) s0 s reg called"
    and "me = us_thread_id s" and "closing (us_uv_loop s) = {}"
  shows "\<exists>t. run_stop L me s = Inr t \<and> us_timer_handles t = Map.empty \<and> us_poll_handles t = Map.empty \<and>
    us_async_handle t = None \<and> us_async_queue t = us_async_queue s \<and> open_h (us_uv_loop t) = {} \<and>
    (\<forall>hs. distinct hs \<and> set hs = closing (us_uv_loop t) \<longrightarrow>
       (\<exists>u. fold_outcome (finish L) hs t = Inr u \<and> us_heap u = Map.empty \<and> open_h (us_uv_loop u) = {}))"
proof -
  have inv: "uv_inv open_h closing s" using libuv_laws.reach [OF assms(1-3)] .
  have "set (lu_walk L (us_uv_loop s)) \<subseteq> open_h (us_uv_loop s)"
    using libuv_laws.walk(3) [OF assms(1), of "us_uv_loop s"] assms(5) by simp
  from libuv_laws.close_all_total [OF assms(1) libuv_laws.walk(1) [OF assms(1)] this]
  obtain t where t: "run_stop L me s = Inr t" by (auto simp: run_stop_def check_thread_def assms(4))
  note e = libuv_laws.run_stop_effect [OF assms(1) inv t]
  have "\<exists>u. fold_outcome (finish L) hs t = Inr u \<and> us_heap u = Map.empty \<and> open_h (us_uv_loop u) = {}"
    if hs: "distinct hs \<and> set hs = closing (us_uv_loop t)" for hs
  proof -
    from hs libuv_laws.finish_all [OF assms(1) e(1), of hs] obtain u where
      u: "fold_outcome (finish L) hs t = Inr u" "dom (us_heap u) = dom (us_heap t) - set hs"
        "open_h (us_uv_loop u) = open_h (us_uv_loop t)" by auto
    have "dom (us_heap t) = set hs" using uv_invD(1) [OF e(1)] e(2) hs by simp
    with u e(2) show ?thesis by auto
  qed
  with t e show ?thesis by blast
qed

theorem uv_stop_frees_all_witness:
  "\<exists>t. run_stop lv 3 uv1 = Inr t \<and> us_async_handle t = None \<and> us_async_queue t = [AsyncCb 7]"
proof -
  have "3 = us_thread_id uv1" "lv_closing_h (us_uv_loop uv1) = {}"
    by (simp_all add: uv1_def lv_closing_h_def)
  from uv_stop_frees_all [OF lv.libuv_laws_axioms uv0 run_uv1 this] show ?thesis
    by (auto simp: uv1_def)
qed

end
