(* ===== verification/Spec2Isabelle.thy ===== *)
theory Spec2Isabelle
  imports Uri Utils Status Base64 Resolver EventServer Json_Api CrawlContext Fetcher Fetcher_Requests Fetcher_Handles
    Fetcher_Tasks Fetcher_Life Fetcher_Safe Fetcher_Complete Fetcher_Results Fairness Resolver_Fair Fetcher_Fair
    HttpServer FetcherServer Server Ares Libuves
begin

text \<open>
  A model of the web crawler's C++ services, with the theorems that make them correct.

  \<^bold>\<open>The program.\<close> \<open>Fetcher/FetcherServer.cpp\<close> is a process that fetches web pages for clients. It
  has three kinds of threads. The HTTP thread (\<open>base/HttpServer.cpp\<close>, evhttp) takes \<open>POST /fetch\<close>
  and \<open>/result\<close>. The loop of \<open>base/EventServer.cpp\<close> (libevent) runs timers, socket events and a
  queue of closures that other threads fill with \<open>add_async\<close>; all of libcurl runs in it. The
  resolver thread (\<open>base/Resolver.cpp\<close>, evdns) turns host names into addresses. A task enters by
  \<open>Fetcher::create_tasks_req\<close>, which makes its \<open>CrawlContext\<close> from JSON (\<open>Fetcher/CrawlContext.cpp\<close>,
  \<open>base/Uri.cpp\<close>) and asks the resolver; the resolver's callback queues a closure; the loop runs
  it, which starts the transfer and puts the context into \<open>tasks_\<close>; libcurl's callbacks fill the
  context and mark it done; \<open>/result\<close> queues a closure that hands out and forgets what is done.
  \<open>base/Ares.cpp\<close> and \<open>libuves/EventServer.cpp\<close> are the c-ares resolver and the libuv event server
  that \<open>Resolver\<close> and \<open>base/EventServer\<close> took the place of.

  \<^bold>\<open>Theories and sources.\<close>
  \<^item> \<open>Prelude\<close>: how a run of C++ code ends (\<open>outcome\<close>: a value, a thrown exception with its text, a
    failed glog \<open>CHECK\<close>, undefined behaviour, or a thread that waits for ever), sequencing, C
    strings, decimal numbers.
  \<^item> \<open>Regex\<close>, \<open>Uri\<close>: \<open>std::regex_match\<close> as a backtracking matcher (\<open>regex_match\<close>) beside the
    relation \<open>derives\<close> of what a pattern matches, proved equivalent; \<open>base/Uri.cpp\<close> over them.
  \<^item> \<open>Utils\<close>, \<open>Status\<close>, \<open>Base64\<close>: the files of these names under \<open>base\<close>.
  \<^item> \<open>Callbacks\<close>: the contract of everything asynchronous here, as four locales. A step registers
    and calls callbacks; \<open>callback_service\<close> promises that what was registered has been called or is
    pending, \<open>fifo_service\<close> that the order is kept, \<open>refined_service\<close> that the steps implement an
    abstract step relation as well, \<open>progressing\<close> that short of a goal some step brings it nearer.
    What follows for whole runs (\<open>run_of\<close>) is proved there once. \<open>Fairness\<close> adds executions that never
    end and a fifth locale, \<open>staged\<close>: a step never takes a callback back to an earlier stage, so it
    reaches its end in every execution that does not leave it in one stage for ever.
  \<^item> \<open>Resolver\<close>, \<open>Ares\<close>: the two resolvers; the map \<open>resolve_infos_\<close> and the queue \<open>tasks_\<close> are the
    fields of a record, each atomic section is a function, and \<open>resolver_step\<close> and \<open>ares_step\<close>
    are their interleavings with the answers of the library. \<open>Resolver_Fair\<close> interprets \<open>staged\<close> on
    the stages of a name.
  \<^item> \<open>EventServer\<close>, \<open>Libuves\<close>: the two event servers, over the library's operations as a record.
  \<^item> \<open>Json_Api\<close>, \<open>CrawlContext\<close>: what is used of jsoncpp, and both directions of the JSON form.
  \<^item> \<open>Fetcher\<close>: every function and closure of \<open>Fetcher/Fetcher.cpp\<close> over one record \<open>fetcher\<close>, whose
    component parts are a \<open>Resolver\<close> and an \<open>EventServer\<close>; \<open>Fetcher_Requests\<close> (the two requests),
    \<open>Fetcher_Handles\<close> (who owns which handle of the event server), \<open>Fetcher_Tasks\<close> (the three
    threads together, as \<open>fetch_step\<close> on the record \<open>sys\<close>), \<open>Fetcher_Life\<close> (whole runs),
    \<open>Fetcher_Safe\<close> (no step of any thread can fail, nor the destructor), \<open>Fetcher_Complete\<close>
    (from every reachable state the work can be finished), \<open>Fetcher_Results\<close> (a request for
    results gets its answer) and \<open>Fetcher_Fair\<close> (what happens in every fair execution) prove its
    properties.
  \<^item> \<open>HttpServer\<close>, \<open>FetcherServer\<close>, \<open>Server\<close>: the route table and the translation of requests and
    responses; the two handlers, and \<open>main\<close>; a request on its way through all of them to the
    running fetcher and back.

  \<^bold>\<open>What the lemmas show.\<close>
  \<^item> Nothing is lost or done twice: \<open>Resolver\<close>, \<open>Ares\<close>, \<open>EventServer\<close>, \<open>Libuves\<close> and \<open>Fetcher_Tasks\<close>
    interpret the locales of \<open>Callbacks\<close> on the model's own steps. For the fetcher the abstract
    specification is \<open>phase_step\<close>, the phases of one task; the invariant \<open>sys_inv\<close> says that every
    context is in exactly one place of the program, and \<open>phase\<close> is the abstraction function.
  \<^item> No reachable state of a component dereferences a dangling or null pointer or fails a \<open>CHECK\<close>,
    except where a theorem says so; a raw pointer is an address that a store may lack.
  \<^item> Something happens at last: a turn of the loop succeeds whatever it has to run; every resolver
    query can be answered; every request for results gets its answer; every task can be brought to
    its end. These are statements about the existence of a run from every reachable state, proved
    with a distance that some step makes smaller. The assumptions on libcurl and DNS are named
    (\<open>eager_env\<close>, \<open>answers_ok\<close>).
  \<^item> It happens in every execution, too, when no thread is stopped for ever: every callback of the
    resolver is called, every task is reported or given up, every request for results is answered.
    What this needs of the scheduler, of DNS, of libcurl and of the clients is assumed of the
    execution, each part by name (\<open>fair_resolver\<close>, \<open>fair_loop\<close>, \<open>transfers_finish\<close>, \<open>clients_ask\<close>;
    \<open>fair_threads\<close> joins the first two with what a thread does on its own), and says only that
    something is not left as it is for ever. A transfer that libcurl refuses does not end
    (the code looks at no result of it), so this is where \<open>transfers_finish\<close> has to be assumed.
  \<^item> \<open>fetch_fault\<close> lists, for each step a thread can attempt, how it ends when it fails; the theorem
    on it leaves one entry, the division by the number of addresses.
  \<^item> Parsing and printing: round trips of addresses, contexts and Base64, soundness of the address
    parser and the exact set of inputs it refuses.
  \<^item> Each operation's result on every branch: cache policy, refused requests, statuses, limits.
  \<^item> The places where the code does less than it means to are theorems too, on the same definitions.

  \<^bold>\<open>Code that is not in the repository\<close> is a parameter: a record of its operations (\<open>libevent\<close>,
  \<open>libuv\<close>, \<open>evhttp\<close>, \<open>json\<close>, \<open>b64\<close>), an input of the step (answers of evdns and c-ares, callbacks and
  messages of libcurl in \<open>reaction\<close>, clock, random numbers and addresses of new objects in \<open>fenv\<close>), or a value
  (results of calls that only succeed or fail). The documented behaviour the code relies on is
  stated as the assumptions of the locales \<open>libevent\<close> and \<open>libevent_total\<close>, \<open>libuv_laws\<close> and
  \<open>libuv_total\<close>, \<open>evhttp_laws\<close>, \<open>json_laws\<close> and \<open>base64_laws\<close> (a total one adds that no call fails
  for want of memory), each interpreted on a small complete implementation (\<open>lb\<close>, \<open>lv\<close>, \<open>eh\<close>, \<open>jv\<close>,
  \<open>rfc4648\<close>) on which the witnesses run.

  \<^bold>\<open>Bounds.\<close> Machine integers are words where they can wrap (\<open>int64\<close> of the clock and of time
  outs, the \<open>int\<close> index of the padding loop, the length of a request body); there is no fuel: all
  functions of the model are total. Strings are byte lists, and a \<open>char*\<close> ends at the first zero.

  \<^bold>\<open>Reading the model.\<close> Mutexes make the sections they guard atomic, so a step is one section; code
  that a thread runs outside of them (the resolver's calls of the waiting callbacks, the batch the
  loop is running) is spread over several steps. The model keeps a context in \<open>f_ctxs\<close> after the
  last \<open>shared_ptr\<close> to it is gone, so that theorems can speak of it; that no pointer of the program
  leads to it then is what the invariant says. A \<open>std::future\<close> is an entry of \<open>f_promises\<close>.

  \<^bold>\<open>Not modelled.\<close> The tests, \<open>base/GTestMain.cpp\<close> and \<open>Fetcher/Experiment.cpp\<close> (no logic of the
  program), the Java client under \<open>Spider\<close> (another program; only the JSON members it expects are
  compared), the CMake files, and the copy of \<open>libuves\<close> under \<open>Fetcher\<close>, which is the same text.
  Of the modelled files: include lines and class headings, log lines, the contents of the
  statistics line, and the blocking calls that only hand the thread to a library, whose return
  value is an input.
\<close>

end
